(* ===== verification/Prelude.thy ===== *)
theory Prelude
  imports Main "HOL-Library.Word" "HOL-Library.Multiset"
begin

text \<open>
  Shared vocabulary of the development: the ways a C function can fail to return normally,
  the two result combinators that sequence fallible and stateful code, the width of
  \<^verbatim>\<open>size_t\<close>, and the generic list facts the components use.
\<close>

section \<open>Collections of rules\<close>

named_theorems c_eval \<open>equations that run the model one statement further\<close>
named_theorems ring_simps \<open>index arithmetic of the ring buffer\<close>

section \<open>Faults and results\<close>

text \<open>
  What a call does when it does not return a value. The first group is undefined behaviour
  of C (the process crashes or corrupts memory, or reads memory that was never written);
  \<open>Deadlock\<close> is a thread that waits for a
  mutex it holds itself; \<open>WouldBlock\<close> is a thread that waits on a condition variable;
  \<open>ExitFailure\<close> is a call of \<^verbatim>\<open>exit(EXIT_FAILURE)\<close>.
\<close>

datatype c_fault =
    NullDeref
  | OutOfBounds
  | UseAfterFree
  | DoubleFree
  | InvalidFree
  | BufferOverflow
  | DivByZero
  | UninitRead
  | Deadlock
  | WouldBlock
  | ExitFailure

type_synonym 'a res = "c_fault + 'a"

text \<open>Sequencing of fallible steps: a fault ends the run.\<close>

fun andthen :: "'a res \<Rightarrow> ('a \<Rightarrow> 'b res) \<Rightarrow> 'b res" where
  "andthen (Inl e) f = Inl e"
| "andthen (Inr x) f = f x"

lemma andthen_assoc: "andthen (andthen m f) g = andthen m (\<lambda>x. andthen (f x) g)"
  by (cases m) auto

lemma andthen_eq_Inr: "andthen m f = Inr y \<longleftrightarrow> (\<exists>x. m = Inr x \<and> f x = Inr y)"
  by (cases m) auto

text \<open>Sequencing of steps that also change a state.\<close>

type_synonym ('s, 'a) prog = "'s \<Rightarrow> ('a \<times> 's) res"

definition return :: "'a \<Rightarrow> ('s, 'a) prog" where
  "return x = (\<lambda>s. Inr (x, s))"

definition fault :: "c_fault \<Rightarrow> ('s, 'a) prog" where
  "fault e = (\<lambda>s. Inl e)"

definition andthenM :: "('s, 'a) prog \<Rightarrow> ('a \<Rightarrow> ('s, 'b) prog) \<Rightarrow> ('s, 'b) prog" where
  "andthenM m f = (\<lambda>s. andthen (m s) (\<lambda>(x, s'). f x s'))"

lemma return_run [c_eval, simp]: "return x s = Inr (x, s)"
  by (simp add: return_def)

lemma fault_run [c_eval, simp]: "fault e s = Inl e"
  by (simp add: fault_def)

lemma andthenM_run [c_eval]: "andthenM m f s = andthen (m s) (\<lambda>(x, s'). f x s')"
  by (simp add: andthenM_def)

lemma andthenM_Inr [simp]: "m s = Inr (x, s') \<Longrightarrow> andthenM m f s = f x s'"
  by (simp add: andthenM_def)

lemma andthenM_Inl [simp]: "m s = Inl e \<Longrightarrow> andthenM m f s = Inl e"
  by (simp add: andthenM_def)

lemma andthenM_unit [simp]: "andthenM m (\<lambda>_. return ()) = m"
proof
  fix s
  show "andthenM m (\<lambda>_. return ()) s = m s" by (cases "m s") (auto simp: andthenM_run)
qed

lemma andthenM_return [simp]: "andthenM m return = m"
proof
  fix s
  show "andthenM m return s = m s" by (cases "m s") (auto simp: andthenM_run)
qed

lemma andthenM_assoc: "andthenM (andthenM m f) g = andthenM m (\<lambda>x. andthenM (f x) g)"
  by (simp add: fun_eq_iff andthenM_run andthen_assoc split_def)

section \<open>The type \<^verbatim>\<open>size_t\<close>\<close>

text \<open>\<^verbatim>\<open>size_t\<close> is 64 bits wide on the targets of the Makefile; its arithmetic wraps.\<close>

definition szt :: "nat \<Rightarrow> nat" where
  "szt n = n mod 2 ^ 64"

lemma szt_id [simp]: "n < 2 ^ 64 \<Longrightarrow> szt n = n"
  by (simp add: szt_def)

lemma szt_less [simp]: "szt n < 2 ^ 64"
  by (simp add: szt_def)

section \<open>Lists\<close>

lemma takeWhile_append_stop:
  "\<forall>x \<in> set xs. P x \<Longrightarrow> \<not> P y \<Longrightarrow> takeWhile P (xs @ y # ys) = xs"
  by (induction xs) auto

lemma takeWhile_all: "\<forall>x \<in> set xs. P x \<Longrightarrow> takeWhile P xs = xs"
  by (induction xs) auto

lemma list_update_append_at: "n = length xs \<Longrightarrow> (xs @ y # ys)[n := z] = xs @ z # ys"
  by (simp add: list_update_append)

lemma map_nth_cong: "(\<And>k. k < n \<Longrightarrow> f k = g k) \<Longrightarrow> map f [0..<n] = map g [0..<n]"
  by simp

lemma mod_add_inj:
  fixes a b n f :: nat
  assumes "(f + a) mod n = (f + b) mod n" "a < n" "b < n"
  shows "a = b"
proof -
  have "int (f + a) mod int n = int (f + b) mod int n"
    using assms(1) by (metis zmod_int)
  then have "(int a - int b) mod int n = 0"
    by (metis (no_types, opaque_lifting) add_diff_cancel_left mod_diff_right_eq mod_eq_0_iff_dvd mod_eq_dvd_iff of_nat_add)
  then have "int n dvd int a - int b" by (simp add: mod_eq_0_iff_dvd)
  then show ?thesis using assms(2,3)
    by (metis mod_eq_dvd_iff mod_less of_nat_eq_iff zmod_int)
qed

lemma mset_concat_update:
  "i < length xs \<Longrightarrow>
   mset (concat (map f (xs[i := t]))) + mset (f (xs ! i)) = mset (concat (map f xs)) + mset (f t)"
proof (induction xs arbitrary: i)
  case (Cons x xs)
  then show ?case by (cases i) (auto simp: ac_simps)
qed simp

lemma sum_list_map_update:
  fixes f :: "'a \<Rightarrow> nat"
  shows "i < length xs \<Longrightarrow> sum_list (map f (xs[i := t])) + f (xs ! i) = sum_list (map f xs) + f t"
proof (induction xs arbitrary: i)
  case (Cons x xs)
  then show ?case by (cases i) (auto simp: add.commute add.left_commute)
qed simp

lemma count_list_replicate [simp]: "count_list (replicate n z) z = n"
  by (induction n) auto

text \<open>A prefix that holds every occurrence of the last element is the whole list.\<close>

lemma prefix_with_all_last:
  assumes "xs @ replicate (Suc n) z = ys @ zs" "z \<notin> set xs" "count_list ys z = Suc n"
  shows "zs = []"
proof (rule ccontr)
  assume "zs \<noteq> []"
  then have "last zs = z" using assms(1) by (metis last_appendR last_replicate replicate_Suc list.distinct(1) old.nat.distinct(2))
  then have "0 < count_list zs z" using \<open>zs \<noteq> []\<close> by (metis count_notin last_in_set not_gr_zero count_list_0_iff)
  moreover have "count_list (xs @ replicate (Suc n) z) z = Suc n"
    using assms(2) by (simp add: count_list_append count_notin)
  ultimately show False unfolding assms(1) using assms(3) by simp
qed

end
