(* ===== verification/CMemory.thy ===== *)
theory CMemory
  imports Prelude
begin

text \<open>
  The part of C and its standard library the HTTP server uses: heap blocks with
  \<^verbatim>\<open>malloc\<close>, \<^verbatim>\<open>realloc\<close>, \<^verbatim>\<open>free\<close> and \<^verbatim>\<open>strdup\<close>, character pointers, the
  observable output of the process, and the string functions. Allocation succeeds; where the
  code tests the result of an allocation, the outcome is a parameter of the operation.
\<close>

section \<open>Blocks and pointers\<close>

text \<open>
  A block holds the bytes of a C string before its terminating zero, or a struct or array whose
  fields the owner's record carries. Addresses are never reused, so \<^const>\<open>None\<close> marks a block
  that was freed.
\<close>

datatype blk = Bytes string | Struct

type_synonym heap = "blk option list"

text \<open>A \<^verbatim>\<open>char*\<close>: null, the start of a heap block, or a string literal of the program.\<close>

datatype ptr = NULL | Addr nat | Lit string

text \<open>What the process shows to the outside.\<close>

datatype event =
    Stdout string
  | Stderr string
  | SockWrite int string
  | SockClose int
  | SockBind int "16 word" string
  | SockListen int int
  | SockConnect int "16 word" string
  | SockShutdown int

text \<open>
  A \<^verbatim>\<open>struct tm\<close>. The wall clock is input of the process: \<open>clock n\<close> is what the call number
  \<open>n\<close> of \<^verbatim>\<open>localtime\<close> gives, \<open>ticks\<close> counts these calls.
\<close>

record tm =
  tm_sec :: int
  tm_min :: int
  tm_hour :: int
  tm_mday :: int
  tm_mon :: int
  tm_year :: int
  tm_wday :: int

record world =
  hp :: heap
  events :: "event list"
  global_request_id :: "64 word"
  clock :: "nat \<Rightarrow> tm"
  ticks :: nat

text \<open>Updates of the state in a fixed order.\<close>

lemma world_updates [simp]:
  "w\<lparr>events := e, hp := h\<rparr> = w\<lparr>hp := h, events := e\<rparr>"
  "w\<lparr>global_request_id := i, hp := h\<rparr> = w\<lparr>hp := h, global_request_id := i\<rparr>"
  "w\<lparr>ticks := n, hp := h\<rparr> = w\<lparr>hp := h, ticks := n\<rparr>"
  "w\<lparr>global_request_id := i, events := e\<rparr> = w\<lparr>events := e, global_request_id := i\<rparr>"
  "w\<lparr>ticks := n, events := e\<rparr> = w\<lparr>events := e, ticks := n\<rparr>"
  "w\<lparr>ticks := n, global_request_id := i\<rparr> = w\<lparr>global_request_id := i, ticks := n\<rparr>"
  by (cases w; simp)+

definition live :: "heap \<Rightarrow> nat set" where
  "live h = {a. a < length h \<and> h ! a \<noteq> None}"

text \<open>The string a pointer points to, if there is one.\<close>

fun str_at :: "heap \<Rightarrow> ptr \<Rightarrow> string option" where
  "str_at h NULL = None"
| "str_at h (Lit s) = Some s"
| "str_at h (Addr a) =
     (if a < length h then (case h ! a of Some (Bytes s) \<Rightarrow> Some s | _ \<Rightarrow> None) else None)"

section \<open>Allocation\<close>

definition malloc :: "blk \<Rightarrow> (world, ptr) prog" where
  "malloc b w = Inr (Addr (length (hp w)), w\<lparr>hp := hp w @ [Some b]\<rparr>)"

fun free :: "ptr \<Rightarrow> (world, unit) prog" where
  "free NULL w = Inr ((), w)"
| "free (Lit s) w = Inl InvalidFree"
| "free (Addr a) w =
     (if a < length (hp w) then
        (case hp w ! a of
           None \<Rightarrow> Inl DoubleFree
         | Some b \<Rightarrow> Inr ((), w\<lparr>hp := (hp w)[a := None]\<rparr>))
      else Inl InvalidFree)"

text \<open>\<^verbatim>\<open>realloc\<close>: a new block, and the old one is gone.\<close>

definition realloc :: "ptr \<Rightarrow> blk \<Rightarrow> (world, ptr) prog" where
  "realloc p b = andthenM (free p) (\<lambda>_. malloc b)"

fun load :: "ptr \<Rightarrow> (world, string) prog" where
  "load NULL w = Inl NullDeref"
| "load (Lit s) w = Inr (s, w)"
| "load (Addr a) w =
     (if a < length (hp w) then
        (case hp w ! a of
           None \<Rightarrow> Inl UseAfterFree
         | Some Struct \<Rightarrow> Inl OutOfBounds
         | Some (Bytes s) \<Rightarrow> Inr (s, w))
      else Inl OutOfBounds)"

definition strdup :: "ptr \<Rightarrow> (world, ptr) prog" where
  "strdup p = andthenM (load p) (\<lambda>s. malloc (Bytes s))"

text \<open>Freeing several pointers in order.\<close>

fun free_all :: "ptr list \<Rightarrow> (world, unit) prog" where
  "free_all [] = return ()"
| "free_all (p # ps) = andthenM (free p) (\<lambda>_. free_all ps)"

text \<open>\<^verbatim>\<open>time(&rawtime); timeinfo = localtime(&rawtime);\<close>\<close>

definition localtime_now :: "(world, tm) prog" where
  "localtime_now w = Inr (clock w (ticks w), w\<lparr>ticks := ticks w + 1\<rparr>)"

definition emit :: "event \<Rightarrow> (world, unit) prog" where
  "emit e w = Inr ((), w\<lparr>events := events w @ [e]\<rparr>)"

subsection \<open>Equations and framing\<close>

lemma str_at_Addr [simp]:
  "str_at h (Addr a) = Some s \<longleftrightarrow> a < length h \<and> h ! a = Some (Bytes s)"
  by (auto split: option.splits blk.splits)

lemma str_at_eval [simp]: "a < length h \<Longrightarrow> h ! a = Some (Bytes s) \<Longrightarrow> str_at h (Addr a) = Some s"
  by simp

declare str_at.simps(3) [simp del] free.simps(3) [simp del] load.simps(3) [simp del]

lemma load_str_at: "str_at (hp w) p = Some s \<Longrightarrow> load p w = Inr (s, w)"
  by (cases p) (auto simp: load.simps(3))

lemma malloc_run [c_eval]: "malloc b w = Inr (Addr (length (hp w)), w\<lparr>hp := hp w @ [Some b]\<rparr>)"
  by (simp add: malloc_def)

lemma strdup_run:
  "str_at (hp w) p = Some s \<Longrightarrow>
   strdup p w = Inr (Addr (length (hp w)), w\<lparr>hp := hp w @ [Some (Bytes s)]\<rparr>)"
  by (simp add: strdup_def andthenM_run load_str_at malloc_run)

lemma strdup_null [simp]: "strdup NULL w = Inl NullDeref"
  by (simp add: strdup_def andthenM_run)

lemma free_live: "a \<in> live (hp w) \<Longrightarrow> free (Addr a) w = Inr ((), w\<lparr>hp := (hp w)[a := None]\<rparr>)"
  by (auto simp: live_def free.simps(3))

lemma free_dead: "a < length (hp w) \<Longrightarrow> a \<notin> live (hp w) \<Longrightarrow> free (Addr a) w = Inl DoubleFree"
  by (auto simp: live_def free.simps(3))

lemma emit_run [c_eval]: "emit e w = Inr ((), w\<lparr>events := events w @ [e]\<rparr>)"
  by (simp add: emit_def)

lemma live_less: "a \<in> live h \<Longrightarrow> a < length h"
  by (simp add: live_def)

lemma live_snoc [simp]: "live (h @ [Some b]) = insert (length h) (live h)"
  by (auto simp: live_def nth_append less_Suc_eq)

lemma live_update_None [simp]: "live (h[a := None]) = live h - {a}"
  by (cases "a < length h") (auto simp: live_def nth_list_update split: if_splits)

lemma live_code: "live h = set (filter (\<lambda>a. h ! a \<noteq> None) [0..<length h])"
  by (auto simp: live_def)

lemma length_not_live [simp]: "length h \<notin> live h"
  by (simp add: live_def)

lemma live_snoc_None [simp]: "live (h @ [None]) = live h"
  by (auto simp: live_def nth_append less_Suc_eq)

lemma str_at_append [simp]: "str_at h p = Some s \<Longrightarrow> str_at (h @ xs) p = Some s"
  by (cases p) (auto simp: nth_append)

lemma str_at_new [simp]: "str_at (h @ [Some (Bytes s)]) (Addr (length h)) = Some s"
  by simp

lemma str_at_live: "str_at h (Addr a) = Some s \<Longrightarrow> a \<in> live h"
  by (auto simp: live_def)

section \<open>Ownership\<close>

text \<open>The heap addresses among some pointers, and when all of them can be freed.\<close>

fun addrs :: "ptr list \<Rightarrow> nat list" where
  "addrs [] = []"
| "addrs (Addr a # ps) = a # addrs ps"
| "addrs (_ # ps) = addrs ps"

fun freeable :: "ptr \<Rightarrow> bool" where
  "freeable (Lit s) = False"
| "freeable _ = True"

definition owned :: "heap \<Rightarrow> ptr list \<Rightarrow> bool" where
  "owned h ps \<longleftrightarrow> list_all freeable ps \<and> distinct (addrs ps) \<and> set (addrs ps) \<subseteq> live h"

definition frees :: "nat list \<Rightarrow> heap \<Rightarrow> heap" where
  "frees as h = fold (\<lambda>a h. h[a := None]) as h"

lemma addrs_append [simp]: "addrs (ps @ qs) = addrs ps @ addrs qs"
  by (induction ps rule: addrs.induct) auto

lemma in_addrs [simp]: "a \<in> set (addrs ps) \<longleftrightarrow> Addr a \<in> set ps"
  by (induction ps rule: addrs.induct) auto

lemma set_addrs: "set (addrs ps) = {a. Addr a \<in> set ps}"
  by auto

lemma ownedD: "owned h ps \<Longrightarrow> Addr a \<in> set ps \<Longrightarrow> a \<in> live h"
  by (auto simp: owned_def)

lemma frees_simps [simp]:
  "frees [] h = h" "frees (a # as) h = frees as (h[a := None])"
  by (simp_all add: frees_def)

lemma frees_append [simp]: "frees (as @ bs) h = frees bs (frees as h)"
  by (simp add: frees_def)

lemma length_frees [simp]: "length (frees as h) = length h"
  by (induction as arbitrary: h) auto

lemma live_frees [simp]: "live (frees as h) = live h - set as"
  by (induction as arbitrary: h) auto

lemma frees_nth: "a \<notin> set as \<Longrightarrow> frees as h ! a = h ! a"
  by (induction as arbitrary: h) auto

lemma str_at_frees:
  "str_at h p = Some s \<Longrightarrow> (\<And>a. p = Addr a \<Longrightarrow> a \<notin> set as) \<Longrightarrow> str_at (frees as h) p = Some s"
  by (cases p) (auto simp: frees_nth)

lemma free_all_owned:
  "owned (hp w) ps \<Longrightarrow> free_all ps w = Inr ((), w\<lparr>hp := frees (addrs ps) (hp w)\<rparr>)"
proof (induction ps arbitrary: w rule: addrs.induct)
  case (2 a ps)
  then have "a \<in> live (hp w)" by (simp add: owned_def)
  moreover have "owned ((hp w)[a := None]) ps" using "2.prems" by (auto simp: owned_def)
  ultimately show ?case
    using "2.IH" [of "w\<lparr>hp := (hp w)[a := None]\<rparr>"] by (simp add: andthenM_run free_live)
qed (auto simp: owned_def andthenM_run)

lemma free_all_append: "free_all (ps @ qs) = andthenM (free_all ps) (\<lambda>_. free_all qs)"
  by (induction ps) (auto simp: fun_eq_iff andthenM_run andthen_assoc split_def)

text \<open>
  A piece of code that gives up the blocks of some pointers, takes over the blocks of others and
  leaves every other live block as it is. \<open>transfer h [] h' []\<close> says that nothing leaked.
\<close>

definition transfer :: "heap \<Rightarrow> ptr list \<Rightarrow> heap \<Rightarrow> ptr list \<Rightarrow> bool" where
  "transfer h ps h' qs \<longleftrightarrow>
     length h \<le> length h' \<and>
     live h' = (live h - set (addrs ps)) \<union> set (addrs qs) \<and>
     set (addrs qs) \<inter> (live h - set (addrs ps)) = {} \<and>
     (\<forall>a \<in> live h - set (addrs ps). h' ! a = h ! a)"

lemma transfer_refl [simp]: "transfer h [] h []"
  by (simp add: transfer_def)

lemma transfer_malloc: "transfer h [] (h @ [Some b]) [Addr (length h)]"
  by (auto simp: transfer_def nth_append live_def)

lemma transfer_frees: "owned h ps \<Longrightarrow> transfer h ps (frees (addrs ps) h) []"
  by (auto simp: transfer_def frees_nth)

lemma transfer_trans:
  assumes "transfer h ps h' qs" "transfer h' qs h'' rs"
  shows "transfer h ps h'' rs"
proof -
  have keep: "live h' - set (addrs qs) = live h - set (addrs ps)"
    using assms(1) by (auto simp: transfer_def)
  show ?thesis using assms keep unfolding transfer_def by auto
qed

lemma transfer_append:
  assumes "transfer h ps h' []" "list_all (\<lambda>b. b \<noteq> None) xs"
  shows "transfer h ps (h' @ xs) (map Addr [length h'..<length h' + length xs])"
proof -
  have "live (h' @ xs) = live h' \<union> {length h'..<length h' + length xs}"
    using assms(2) by (auto simp: live_def nth_append list_all_length)
  moreover have "live h - set (addrs ps) = live h'" using assms(1) by (simp add: transfer_def)
  moreover have "a < length h'" if "a \<in> live h'" for a using that by (simp add: live_def)
  ultimately show ?thesis using assms(1) by (fastforce simp: transfer_def nth_append)
qed

text \<open>Blocks that stay with the caller can be added on both sides.\<close>

lemma transfer_frame:
  assumes "transfer h ps h' qs" "\<And>a. Addr a \<in> set rs \<Longrightarrow> a \<in> live h \<and> Addr a \<notin> set ps"
  shows "transfer h (ps @ rs) h' (qs @ rs)"
  using assms unfolding transfer_def by auto

lemma transfer_frame_left:
  assumes "transfer h ps h' qs" "\<And>a. Addr a \<in> set rs \<Longrightarrow> a \<in> live h \<and> Addr a \<notin> set ps"
  shows "transfer h (rs @ ps) h' (rs @ qs)"
  using assms unfolding transfer_def by auto

lemma transfer_same:
  assumes "transfer h ps h' qs" "\<And>a. Addr a \<in> set ps \<longleftrightarrow> Addr a \<in> set ps'"
    "\<And>a. Addr a \<in> set qs \<longleftrightarrow> Addr a \<in> set qs'"
  shows "transfer h ps' h' qs'"
  using assms by (simp add: transfer_def set_addrs)

lemma transfer_keeps:
  "transfer h ps h' qs \<Longrightarrow> a \<in> live h \<Longrightarrow> Addr a \<notin> set ps \<Longrightarrow> a < length h' \<and> h' ! a = h ! a"
  by (auto simp: transfer_def live_def)

lemma transfer_str_at:
  assumes "transfer h ps h' qs" "str_at h p = Some s" "p \<notin> set ps"
  shows "str_at h' p = Some s"
proof (cases p)
  case (Addr a)
  then have "a \<in> live h" using assms(2) str_at_live by blast
  then show ?thesis using transfer_keeps [OF assms(1)] assms(2,3) Addr by auto
qed (use assms(2) in auto)

lemma transfer_live: "transfer h ps h' qs \<Longrightarrow> a \<in> live h \<Longrightarrow> Addr a \<notin> set ps \<Longrightarrow> a \<in> live h'"
  by (auto simp: transfer_def)

lemma owned_apart:
  assumes "owned h (ps @ rs)" "Addr a \<in> set rs"
  shows "a \<in> live h \<and> Addr a \<notin> set ps"
proof -
  have "a \<in> set (addrs rs)" using assms(2) by (simp only: in_addrs)
  then have "a \<in> live h" "a \<notin> set (addrs ps)"
    using assms(1) unfolding owned_def addrs_append distinct_append set_append by blast+
  then show ?thesis by simp
qed

lemma owned_frame:
  assumes "transfer h ps h' qs" "owned h (ps @ rs)" "owned h' qs"
  shows "owned h' (qs @ rs)"
proof -
  have "set (addrs rs) \<subseteq> live h - set (addrs ps)" using assms(2) unfolding owned_def by auto
  then have "set (addrs rs) \<subseteq> live h'" "set (addrs qs) \<inter> set (addrs rs) = {}"
    using assms(1) unfolding transfer_def by blast+
  then show ?thesis using assms(2,3) unfolding owned_def by simp
qed

lemma live_append_frees: "live (h @ replicate k None @ [Some b]) = insert (length h + k) (live h)"
  by (auto simp: live_def nth_append nth_Cons' split: if_splits)

lemma transfer_malloc_after:
  "transfer h [] (h @ replicate k None @ [Some b]) [Addr (length h + k)]"
  using live_less [of _ h] by (auto simp: transfer_def live_append_frees nth_append)

lemma owned_malloc_after:
  "owned h ps \<Longrightarrow> owned (h @ replicate k None @ [Some b]) (ps @ [Addr (length h + k)])"
  using live_less [of _ h] by (fastforce simp: owned_def live_append_frees)

section \<open>Strings\<close>

text \<open>\<^verbatim>\<open>tolower\<close> in the C locale.\<close>

definition tolower :: "char \<Rightarrow> char" where
  "tolower c = (let n = of_char c :: nat in if 65 \<le> n \<and> n \<le> 90 then char_of (n + 32) else c)"

definition lower :: "string \<Rightarrow> string" where
  "lower s = map tolower s"

lemma tolower_idem [simp]: "tolower (tolower c) = tolower c"
proof -
  have "of_char (char_of (of_char c + 32 :: nat)) = (of_char c + 32 :: nat)" if "of_char c \<le> (90::nat)"
    using that by simp
  then show ?thesis by (simp add: tolower_def Let_def)
qed

lemma lower_idem [simp]: "lower (lower s) = lower s"
  by (simp add: lower_def)

lemma length_lower [simp]: "length (lower s) = length s"
  by (simp add: lower_def)

text \<open>Decimal digits, as \<^verbatim>\<open>%d\<close>, \<^verbatim>\<open>%ld\<close> and \<^verbatim>\<open>%zu\<close> print them.\<close>

definition digit :: "nat \<Rightarrow> char" where
  "digit n = char_of (48 + n)"

fun show_nat :: "nat \<Rightarrow> string" where
  "show_nat n = (if n < 10 then [digit n] else show_nat (n div 10) @ [digit (n mod 10)])"

declare show_nat.simps [simp del]

definition show_int :: "int \<Rightarrow> string" where
  "show_int i = (if i < 0 then CHR ''-'' # show_nat (nat (- i)) else show_nat (nat i))"

text \<open>Padding to a minimal width, and a number padded with zeros behind its sign.\<close>

definition pad :: "char \<Rightarrow> nat \<Rightarrow> string \<Rightarrow> string" where
  "pad c n s = replicate (n - length s) c @ s"

definition show_int_zero :: "nat \<Rightarrow> int \<Rightarrow> string" where
  "show_int_zero n i =
     (if i < 0 then CHR ''-'' # pad (CHR ''0'') (n - 1) (show_nat (nat (- i)))
      else pad (CHR ''0'') n (show_nat (nat i)))"

lemma length_show_nat: "n < 10 ^ k \<Longrightarrow> 0 < k \<Longrightarrow> length (show_nat n) \<le> k"
proof (induction k arbitrary: n)
  case (Suc k)
  show ?case
  proof (cases "n < 10")
    case False
    then have "0 < k" using Suc.prems by (cases k) auto
    moreover have "n div 10 < 10 ^ k" using Suc.prems(1) by (simp add: less_mult_imp_div_less mult.commute)
    ultimately show ?thesis using Suc.IH [of "n div 10"] False by (subst show_nat.simps) simp
  qed (subst show_nat.simps, simp)
qed simp

lemma length_pad [simp]: "length (pad c n s) = max n (length s)"
  by (simp add: pad_def)

definition CR :: char where "CR = CHR 0x0D"

definition LF :: char where "LF = CHR 0x0A"

definition NUL :: char where "NUL = CHR 0x00"

definition CRLF :: string where "CRLF = [CR, LF]"

lemmas c_char_defs = CR_def LF_def NUL_def CRLF_def

lemma c_chars_distinct [simp]:
  "CR \<noteq> NUL" "LF \<noteq> NUL" "CR \<noteq> LF" "NUL \<noteq> CR" "NUL \<noteq> LF" "LF \<noteq> CR"
  by (simp_all add: c_char_defs)

end
