(* ===== verification/Headers.thy ===== *)
theory Headers
  imports CMemory
begin

text \<open>
  Header lists of \<^verbatim>\<open>src/headers.h\<close> and \<^verbatim>\<open>src/headers.c\<close>. A \<^verbatim>\<open>struct Headers\<close> is a record
  of the address of the struct, the address of its array and the array itself, whose length is
  the field \<^verbatim>\<open>size\<close>; names and values are heap strings.
\<close>

section \<open>State\<close>

record Header =
  hdr_name :: ptr
  hdr_value :: ptr

record Headers =
  hs_self :: ptr
  hs_array :: ptr
  hs_fields :: "Header list"

section \<open>Operations\<close>

definition headers_create :: "(world, Headers) prog" where
  "headers_create =
     andthenM (malloc Struct) (\<lambda>p. return \<lparr>hs_self = p, hs_array = NULL, hs_fields = []\<rparr>)"

text \<open>\<^verbatim>\<open>name[i] = tolower(name[i])\<close> for every byte of a string the caller owns.\<close>

definition lower_in_place :: "ptr \<Rightarrow> (world, string) prog" where
  "lower_in_place p =
     andthenM (load p) (\<lambda>s.
     (case p of
        Addr a \<Rightarrow> (\<lambda>w. Inr (lower s, w\<lparr>hp := (hp w)[a := Some (Bytes (lower s))]\<rparr>))
      | _ \<Rightarrow> fault OutOfBounds))"

definition headers_set :: "Headers \<Rightarrow> ptr \<Rightarrow> ptr \<Rightarrow> (world, Headers) prog" where
  "headers_set hs name value =
     andthenM (realloc (hs_array hs) Struct) (\<lambda>arr.
     andthenM (strdup (if name = NULL then Lit '''' else name)) (\<lambda>n.
     andthenM (lower_in_place n) (\<lambda>_.
     andthenM (strdup (if value = NULL then Lit '''' else value)) (\<lambda>v.
     return (hs\<lparr>hs_array := arr,
                hs_fields := hs_fields hs @ [\<lparr>hdr_name = n, hdr_value = v\<rparr>]\<rparr>)))))"

text \<open>The loop of \<^verbatim>\<open>headers_get\<close>: the value of the first field with that name.\<close>

fun find_field :: "Header list \<Rightarrow> string \<Rightarrow> (world, ptr) prog" where
  "find_field [] key = return NULL"
| "find_field (f # fs) key =
     andthenM (load (hdr_name f)) (\<lambda>s. if s = key then return (hdr_value f) else find_field fs key)"

definition headers_get :: "Headers \<Rightarrow> ptr \<Rightarrow> (world, ptr) prog" where
  "headers_get hs name =
     andthenM (strdup name) (\<lambda>n.
     andthenM (lower_in_place n) (\<lambda>key.
     andthenM (find_field (hs_fields hs) key) (\<lambda>r.
     andthenM (free n) (\<lambda>_.
     return r))))"

text \<open>
  The loop of \<^verbatim>\<open>headers_delete\<close> over the indices: matching fields are freed, the others move
  down by the number of deletions so far. The field \<^verbatim>\<open>size\<close> is not changed.
\<close>

fun delete_loop :: "ptr \<Rightarrow> nat list \<Rightarrow> nat \<Rightarrow> Header list \<Rightarrow> (world, nat \<times> Header list) prog" where
  "delete_loop name [] deleted arr = return (deleted, arr)"
| "delete_loop name (i # is) deleted arr =
     andthenM (load (hdr_name (arr ! i))) (\<lambda>s.
     andthenM (load name) (\<lambda>key.
     if s = key then
       andthenM (free (hdr_name (arr ! i))) (\<lambda>_.
       andthenM (free (hdr_value (arr ! i))) (\<lambda>_.
       delete_loop name is (Suc deleted) arr))
     else delete_loop name is deleted (arr[i - deleted := arr ! i])))"

definition headers_delete :: "Headers \<Rightarrow> ptr \<Rightarrow> (world, nat \<times> Headers) prog" where
  "headers_delete hs name =
     andthenM (delete_loop name [0..<length (hs_fields hs)] 0 (hs_fields hs)) (\<lambda>(deleted, arr).
     return (deleted, hs\<lparr>hs_fields := arr\<rparr>))"

text \<open>The size of the buffers that \<^verbatim>\<open>calloc(1024, 1024)\<close> and \<^verbatim>\<open>malloc(1024 * 1024)\<close> give.\<close>

definition BUFFER_SIZE :: nat where
  "BUFFER_SIZE = 1024 * 1024"

text \<open>\<^verbatim>\<open>sprintf\<close> behind \<open>acc\<close> in such a buffer: the text and its terminating zero must fit.\<close>

definition sprintf_at :: "string \<Rightarrow> string \<Rightarrow> (world, string) prog" where
  "sprintf_at acc text =
     (if length acc + length text + 1 \<le> BUFFER_SIZE then return (acc @ text)
      else fault BufferOverflow)"

definition field_line :: "string \<Rightarrow> string \<Rightarrow> string" where
  "field_line n v = n @ '': '' @ v @ CRLF"

fun print_fields :: "Header list \<Rightarrow> string \<Rightarrow> (world, string) prog" where
  "print_fields [] acc = return acc"
| "print_fields (f # fs) acc =
     andthenM (load (hdr_name f)) (\<lambda>n.
     andthenM (load (hdr_value f)) (\<lambda>v.
     andthenM (sprintf_at acc (field_line n v)) (\<lambda>acc.
     print_fields fs acc)))"

definition headers_to_string :: "Headers \<Rightarrow> (world, ptr) prog" where
  "headers_to_string hs =
     andthenM (malloc (Bytes '''')) (\<lambda>buffer.
     andthenM (print_fields (hs_fields hs) '''') (\<lambda>text.
     realloc buffer (Bytes text)))"

fun free_fields :: "Header list \<Rightarrow> (world, unit) prog" where
  "free_fields [] = return ()"
| "free_fields (f # fs) =
     andthenM (free (hdr_name f)) (\<lambda>_. andthenM (free (hdr_value f)) (\<lambda>_. free_fields fs))"

definition headers_destroy :: "Headers \<Rightarrow> (world, unit) prog" where
  "headers_destroy hs =
     andthenM (free_fields (hs_fields hs)) (\<lambda>_.
     andthenM (free (hs_array hs)) (\<lambda>_.
     free (hs_self hs)))"

section \<open>Invariant and abstraction\<close>

definition field_ptrs :: "Header list \<Rightarrow> ptr list" where
  "field_ptrs fs = concat (map (\<lambda>f. [hdr_name f, hdr_value f]) fs)"

text \<open>Everything \<^verbatim>\<open>headers_destroy\<close> frees, in its order.\<close>

definition headers_ptrs :: "Headers \<Rightarrow> ptr list" where
  "headers_ptrs hs = field_ptrs (hs_fields hs) @ [hs_array hs, hs_self hs]"

definition field_ok :: "heap \<Rightarrow> Header \<Rightarrow> bool" where
  "field_ok h f \<longleftrightarrow> (\<exists>a b n v. f = \<lparr>hdr_name = Addr a, hdr_value = Addr b\<rparr> \<and>
     str_at h (Addr a) = Some n \<and> str_at h (Addr b) = Some v)"

definition headers_ok :: "heap \<Rightarrow> Headers \<Rightarrow> bool" where
  "headers_ok h hs \<longleftrightarrow>
     owned h (headers_ptrs hs) \<and> list_all (field_ok h) (hs_fields hs) \<and>
     (\<exists>a. hs_self hs = Addr a)"

text \<open>The header list as pairs of strings, in order.\<close>

definition field_view :: "heap \<Rightarrow> Header \<Rightarrow> string \<times> string" where
  "field_view h f = (the (str_at h (hdr_name f)), the (str_at h (hdr_value f)))"

definition headers_view :: "heap \<Rightarrow> Headers \<Rightarrow> (string \<times> string) list" where
  "headers_view h hs = map (field_view h) (hs_fields hs)"

lemma field_ptrs_simps [simp]:
  "field_ptrs [] = []"
  "field_ptrs (f # fs) = hdr_name f # hdr_value f # field_ptrs fs"
  "field_ptrs (fs @ gs) = field_ptrs fs @ field_ptrs gs"
  by (simp_all add: field_ptrs_def)

lemma headers_destroy_free_all: "headers_destroy hs = free_all (headers_ptrs hs)"
proof -
  have "free_fields fs = free_all (field_ptrs fs)" for fs by (induction fs) auto
  then show ?thesis
    by (simp add: headers_destroy_def headers_ptrs_def free_all_append)
qed

lemma field_ok_append [simp]: "field_ok h f \<Longrightarrow> field_ok (h @ xs) f"
  unfolding field_ok_def by (metis str_at_append)

lemma field_view_append [simp]: "field_ok h f \<Longrightarrow> field_view (h @ xs) f = field_view h f"
  by (auto simp: field_ok_def field_view_def)

text \<open>Invariant and view only depend on the blocks the list owns.\<close>

lemma field_frame:
  assumes "field_ok h f" "\<And>a. Addr a \<in> {hdr_name f, hdr_value f} \<Longrightarrow> a < length h' \<and> h' ! a = h ! a"
  shows "field_ok h' f" "field_view h' f = field_view h f"
proof -
  obtain a b n v where f: "f = \<lparr>hdr_name = Addr a, hdr_value = Addr b\<rparr>"
      "str_at h (Addr a) = Some n" "str_at h (Addr b) = Some v"
    using assms(1) by (auto simp: field_ok_def)
  moreover have "str_at h' (Addr a) = Some n" "str_at h' (Addr b) = Some v"
    using f assms(2) [of a] assms(2) [of b] by auto
  ultimately show "field_ok h' f" "field_view h' f = field_view h f"
    unfolding field_ok_def field_view_def by auto
qed

lemma headers_frame:
  assumes "headers_ok h hs"
    "\<And>a. Addr a \<in> set (headers_ptrs hs) \<Longrightarrow> a < length h' \<and> h' ! a = h ! a"
  shows "headers_ok h' hs" "headers_view h' hs = headers_view h hs"
proof -
  have fields: "field_ok h' f \<and> field_view h' f = field_view h f" if "f \<in> set (hs_fields hs)" for f
    using that assms field_frame [of h f h']
    by (auto simp: headers_ok_def headers_ptrs_def field_ptrs_def list_all_iff)
  have "Addr a \<in> set (headers_ptrs hs) \<Longrightarrow> a \<in> live h'" for a
    using assms by (force simp: headers_ok_def owned_def live_def)
  then have "owned h' (headers_ptrs hs)" using assms(1) by (auto simp: headers_ok_def owned_def)
  then show "headers_ok h' hs"
    using assms(1) fields by (auto simp: headers_ok_def list_all_iff)
  show "headers_view h' hs = headers_view h hs" using fields by (simp add: headers_view_def)
qed

lemma headers_ok_append:
  assumes "headers_ok h hs"
  shows "headers_ok (h @ xs) hs" "headers_view (h @ xs) hs = headers_view h hs"
proof -
  have "a < length h" if "Addr a \<in> set (headers_ptrs hs)" for a
    using assms that by (force simp: headers_ok_def owned_def live_def)
  then have "Addr a \<in> set (headers_ptrs hs) \<Longrightarrow> a < length (h @ xs) \<and> (h @ xs) ! a = h ! a" for a
    by (simp add: nth_append trans_less_add1)
  then show "headers_ok (h @ xs) hs" "headers_view (h @ xs) hs = headers_view h hs"
    using headers_frame [OF assms, of "h @ xs"] by blast+
qed

section \<open>Effect of the operations\<close>

lemma headers_create_run:
  "headers_create w =
     Inr (\<lparr>hs_self = Addr (length (hp w)), hs_array = NULL, hs_fields = []\<rparr>,
          w\<lparr>hp := hp w @ [Some Struct]\<rparr>)"
  by (simp add: headers_create_def andthenM_run malloc_run)

lemma lower_in_place_run:
  "str_at (hp w) (Addr a) = Some s \<Longrightarrow>
   lower_in_place (Addr a) w = Inr (lower s, w\<lparr>hp := (hp w)[a := Some (Bytes (lower s))]\<rparr>)"
  by (simp add: lower_in_place_def andthenM_run load_str_at)

text \<open>The heap after \<^verbatim>\<open>headers_set\<close>: the old array is freed, three blocks are new.\<close>

definition set_heap :: "heap \<Rightarrow> Headers \<Rightarrow> string \<Rightarrow> string \<Rightarrow> heap" where
  "set_heap h hs n v =
     frees (addrs [hs_array hs]) h @ [Some Struct, Some (Bytes (lower n)), Some (Bytes v)]"

definition set_result :: "heap \<Rightarrow> Headers \<Rightarrow> Headers" where
  "set_result h hs =
     hs\<lparr>hs_array := Addr (length h),
        hs_fields := hs_fields hs @
          [\<lparr>hdr_name = Addr (length h + 1), hdr_value = Addr (length h + 2)\<rparr>]\<rparr>"

definition str_or_empty :: "heap \<Rightarrow> ptr \<Rightarrow> string option" where
  "str_or_empty h p = (if p = NULL then Some '''' else str_at h p)"

lemma str_or_empty_at: "str_or_empty h p = str_at h (if p = NULL then Lit '''' else p)"
  by (simp add: str_or_empty_def)

lemma headers_array_free:
  assumes "headers_ok (hp w) hs"
  shows "free (hs_array hs) w = Inr ((), w\<lparr>hp := frees (addrs [hs_array hs]) (hp w)\<rparr>)"
  using assms
  by (cases "hs_array hs") (auto simp: headers_ok_def owned_def headers_ptrs_def free_live)

lemma headers_set_run:
  assumes "headers_ok (hp w) hs" "str_or_empty (hp w) name = Some n"
    "str_or_empty (hp w) value = Some v" "name \<noteq> NULL \<longrightarrow> name \<noteq> hs_array hs"
    "value \<noteq> NULL \<longrightarrow> value \<noteq> hs_array hs"
  shows "headers_set hs name value w =
    Inr (set_result (hp w) hs, w\<lparr>hp := set_heap (hp w) hs n v\<rparr>)"
proof -
  let ?h = "frees (addrs [hs_array hs]) (hp w)"
  have keep: "str_at ?h (if p = NULL then Lit '''' else p) = Some s"
    if "str_or_empty (hp w) p = Some s" "p \<noteq> NULL \<longrightarrow> p \<noteq> hs_array hs" for p s
    using that str_at_frees [of "hp w" "if p = NULL then Lit '''' else p" s "addrs [hs_array hs]"]
    by (cases "hs_array hs") (auto simp: str_or_empty_at split: if_splits)
  note name = keep [OF assms(2,4)] and val = keep [OF assms(3,5)]
  let ?w = "w\<lparr>hp := ?h @ [Some Struct]\<rparr>"
  have "strdup (if name = NULL then Lit '''' else name) ?w =
      Inr (Addr (length (hp w) + 1), w\<lparr>hp := ?h @ [Some Struct, Some (Bytes n)]\<rparr>)"
    using str_at_append [OF name] strdup_run [of ?w] by simp
  moreover have "lower_in_place (Addr (length (hp w) + 1))
        (w\<lparr>hp := ?h @ [Some Struct, Some (Bytes n)]\<rparr>) =
      Inr (lower n, w\<lparr>hp := ?h @ [Some Struct, Some (Bytes (lower n))]\<rparr>)"
    by (subst lower_in_place_run) (simp_all add: nth_append list_update_append)
  moreover have "strdup (if value = NULL then Lit '''' else value)
        (w\<lparr>hp := ?h @ [Some Struct, Some (Bytes (lower n))]\<rparr>) =
      Inr (Addr (length (hp w) + 2), w\<lparr>hp := set_heap (hp w) hs n v\<rparr>)"
    using str_at_append [OF val] strdup_run [of "w\<lparr>hp := ?h @ [Some Struct, Some (Bytes (lower n))]\<rparr>"]
    by (simp add: set_heap_def)
  ultimately show ?thesis
    by (simp add: headers_set_def andthenM_run realloc_def headers_array_free [OF assms(1)]
        malloc_run set_result_def)
qed

lemma headers_create_ok:
  assumes "headers_create w = Inr (hs, w')"
  shows "headers_ok (hp w') hs" "headers_view (hp w') hs = []"
    "transfer (hp w) [] (hp w') (headers_ptrs hs)"
  using assms transfer_malloc [of "hp w" Struct]
  by (auto simp: headers_create_run headers_ok_def headers_view_def headers_ptrs_def owned_def
      transfer_def)

lemma headers_array_owned:
  assumes "headers_ok h hs"
  shows "owned h [hs_array hs]" "hs_array hs \<notin> set (field_ptrs (hs_fields hs)) \<or> hs_array hs = NULL"
    "hs_array hs \<noteq> hs_self hs"
  using assms
  by (cases "hs_array hs"; auto simp: headers_ok_def owned_def headers_ptrs_def)+

lemma headers_ptr_live: "headers_ok h hs \<Longrightarrow> Addr a \<in> set (headers_ptrs hs) \<Longrightarrow> a \<in> live h"
  by (auto simp: headers_ok_def dest: ownedD)

lemma set_heap_transfer:
  assumes "headers_ok h hs"
  shows "transfer h (headers_ptrs hs) (set_heap h hs n v) (headers_ptrs (set_result h hs))"
proof -
  let ?rest = "hs_self hs # field_ptrs (hs_fields hs)"
  let ?new = "[Addr (length h), Addr (length h + 1), Addr (length h + 2)]"
  have "transfer h [hs_array hs] (set_heap h hs n v) ?new"
    using transfer_append [OF transfer_frees [OF headers_array_owned(1) [OF assms]],
        of "[Some Struct, Some (Bytes (lower n)), Some (Bytes v)]"]
    by (simp add: set_heap_def upt_rec numeral_3_eq_3)
  then have "transfer h ([hs_array hs] @ ?rest) (set_heap h hs n v) (?new @ ?rest)"
    using headers_ptr_live [OF assms] headers_array_owned [OF assms]
    by (intro transfer_frame) (auto simp: headers_ptrs_def)
  then show ?thesis
    by (rule transfer_same) (auto simp: headers_ptrs_def set_result_def)
qed

lemma set_heap_ok:
  assumes "headers_ok h hs"
  shows "headers_ok (set_heap h hs n v) (set_result h hs)"
    "headers_view (set_heap h hs n v) (set_result h hs) = headers_view h hs @ [(lower n, v)]"
proof -
  let ?h = "set_heap h hs n v" and ?l = "length h"
  let ?f = "\<lparr>hdr_name = Addr (?l + 1), hdr_value = Addr (?l + 2)\<rparr>"
  have len: "a < ?l" "a \<in> live h" if "Addr a \<in> set (headers_ptrs hs)" for a
    using assms that by (force simp: headers_ok_def owned_def live_def)+
  have old: "a < length ?h \<and> ?h ! a = h ! a" if "Addr a \<in> set (field_ptrs (hs_fields hs))" for a
  proof -
    have "a \<notin> set (addrs [hs_array hs])" using headers_array_owned(2) [OF assms] that by auto
    then show ?thesis
      using len(1) [of a] that by (simp add: set_heap_def headers_ptrs_def nth_append frees_nth)
  qed
  have fields: "field_ok ?h f \<and> field_view ?h f = field_view h f" if "f \<in> set (hs_fields hs)" for f
    using that assms field_frame [of h f ?h] old
    by (auto simp: headers_ok_def field_ptrs_def list_all_iff)
  have new: "str_at ?h (Addr (?l + 1)) = Some (lower n)" "str_at ?h (Addr (?l + 2)) = Some v"
    by (simp_all add: set_heap_def nth_append)
  then have "field_ok ?h ?f" "field_view ?h ?f = (lower n, v)"
    unfolding field_ok_def field_view_def by auto
  moreover have "owned ?h (headers_ptrs (set_result h hs))"
  proof -
    have "set (addrs (headers_ptrs (set_result h hs))) \<subseteq> live ?h"
      using set_heap_transfer [OF assms] by (auto simp: transfer_def)
    moreover have "distinct (addrs (headers_ptrs (set_result h hs)))"
      using assms len(1) by (fastforce simp: headers_ok_def owned_def headers_ptrs_def set_result_def)
    ultimately show ?thesis
      using assms by (auto simp: headers_ok_def owned_def headers_ptrs_def set_result_def)
  qed
  ultimately show "headers_ok ?h (set_result h hs)"
    using assms fields by (auto simp: headers_ok_def set_result_def list_all_iff)
  show "headers_view ?h (set_result h hs) = headers_view h hs @ [(lower n, v)]"
    using fields \<open>field_view ?h ?f = _\<close> by (simp add: headers_view_def set_result_def)
qed

lemma headers_destroy_run:
  assumes "headers_ok (hp w) hs"
  shows "headers_destroy hs w = Inr ((), w\<lparr>hp := frees (addrs (headers_ptrs hs)) (hp w)\<rparr>)"
    "transfer (hp w) (headers_ptrs hs) (frees (addrs (headers_ptrs hs)) (hp w)) []"
  using assms by (auto simp: headers_ok_def headers_destroy_free_all free_all_owned transfer_frees)

lemma field_load:
  assumes "field_ok (hp w) f"
  shows "load (hdr_name f) w = Inr (fst (field_view (hp w) f), w)"
    "load (hdr_value f) w = Inr (snd (field_view (hp w) f), w)"
  using assms by (auto simp: field_ok_def field_view_def load_str_at)

text \<open>The search finds what the association list of names and values gives.\<close>

definition points_to :: "heap \<Rightarrow> string option \<Rightarrow> ptr \<Rightarrow> bool" where
  "points_to h v r = (case v of None \<Rightarrow> r = NULL | Some s \<Rightarrow> str_at h r = Some s)"

lemma find_field_run:
  assumes "list_all (field_ok h) fs" "hp w = h @ xs"
  shows "\<exists>r. find_field fs key w = Inr (r, w) \<and>
             points_to h (map_of (map (field_view h) fs) key) r"
  using assms(1)
proof (induction fs)
  case (Cons f fs)
  then have ok: "field_ok h f" by simp
  obtain n v where view: "field_view h f = (n, v)" by fastforce
  then have "str_at h (hdr_value f) = Some v" using ok by (auto simp: field_ok_def field_view_def)
  moreover have "load (hdr_name f) w = Inr (n, w)"
    using ok field_load(1) [of w f] assms(2) view by simp
  ultimately show ?case using Cons view by (cases "n = key") (auto simp: andthenM_run points_to_def)
qed (simp add: points_to_def)

lemma headers_get_run:
  assumes "headers_ok (hp w) hs" "str_at (hp w) name = Some k"
  shows "\<exists>r. headers_get hs name w = Inr (r, w\<lparr>hp := hp w @ [None]\<rparr>) \<and>
             points_to (hp w) (map_of (headers_view (hp w) hs) (lower k)) r"
proof -
  let ?l = "length (hp w)"
  let ?w = "w\<lparr>hp := hp w @ [Some (Bytes (lower k))]\<rparr>"
  have dup: "strdup name w = Inr (Addr ?l, w\<lparr>hp := hp w @ [Some (Bytes k)]\<rparr>)"
    by (rule strdup_run [OF assms(2)])
  have low: "lower_in_place (Addr ?l) (w\<lparr>hp := hp w @ [Some (Bytes k)]\<rparr>) = Inr (lower k, ?w)"
    by (subst lower_in_place_run) simp_all
  obtain r where r: "find_field (hs_fields hs) (lower k) ?w = Inr (r, ?w)"
      "points_to (hp w) (map_of (headers_view (hp w) hs) (lower k)) r"
    using find_field_run [of "hp w" "hs_fields hs" ?w] assms(1)
    by (auto simp: headers_ok_def headers_view_def)
  have "free (Addr ?l) ?w = Inr ((), w\<lparr>hp := hp w @ [None]\<rparr>)"
    by (subst free_live) simp_all
  with dup low r show ?thesis by (simp add: headers_get_def andthenM_run)
qed

text \<open>The text of a header list.\<close>

definition render_headers :: "(string \<times> string) list \<Rightarrow> string" where
  "render_headers hs = concat (map (\<lambda>(n, v). field_line n v) hs)"

lemma render_headers_simps [simp]:
  "render_headers [] = []"
  "render_headers ((n, v) # hs) = field_line n v @ render_headers hs"
  "render_headers (hs @ hs') = render_headers hs @ render_headers hs'"
  by (simp_all add: render_headers_def)

lemma print_fields_run:
  assumes "list_all (field_ok h) fs" "hp w = h @ xs" "length acc < BUFFER_SIZE"
  shows "print_fields fs acc w =
    (let text = acc @ render_headers (map (field_view h) fs) in
     if length text < BUFFER_SIZE then Inr (text, w) else Inl BufferOverflow)"
  using assms(1,3)
proof (induction fs arbitrary: acc)
  case Nil
  then show ?case by (simp add: render_headers_def)
next
  case (Cons f fs)
  obtain n v where view: "field_view h f = (n, v)" by fastforce
  then have "load (hdr_name f) w = Inr (n, w)" "load (hdr_value f) w = Inr (v, w)"
    using Cons.prems(1) field_load [of w f] assms(2) by auto
  then show ?case
    using Cons view by (auto simp: andthenM_run sprintf_at_def Let_def)
qed

lemma headers_to_string_run:
  assumes "headers_ok (hp w) hs"
  shows "headers_to_string hs w =
    (let text = render_headers (headers_view (hp w) hs) in
     if length text < BUFFER_SIZE
     then Inr (Addr (length (hp w) + 1), w\<lparr>hp := hp w @ [None, Some (Bytes text)]\<rparr>)
     else Inl BufferOverflow)"
proof -
  let ?w = "w\<lparr>hp := hp w @ [Some (Bytes '''')]\<rparr>"
  have "print_fields (hs_fields hs) '''' ?w =
    (let text = render_headers (headers_view (hp w) hs) in
     if length text < BUFFER_SIZE then Inr (text, ?w) else Inl BufferOverflow)"
    using print_fields_run [of "hp w" "hs_fields hs" ?w _ "''''"] assms
    by (simp add: headers_ok_def headers_view_def BUFFER_SIZE_def)
  moreover have "free (Addr (length (hp w))) ?w = Inr ((), w\<lparr>hp := hp w @ [None]\<rparr>)"
    by (subst free_live) simp_all
  ultimately show ?thesis
    by (auto simp: headers_to_string_def andthenM_run malloc_run realloc_def Let_def)
qed

section \<open>The contract of a header table\<close>

text \<open>A client that fills a table with string literals.\<close>

fun put_all ::
  "('t \<Rightarrow> ptr \<Rightarrow> ptr \<Rightarrow> (world, 't) prog) \<Rightarrow> 't \<Rightarrow> (string \<times> string) list \<Rightarrow> (world, 't) prog" where
  "put_all put t [] = return t"
| "put_all put t ((n, v) # ps) = andthenM (put t (Lit n) (Lit v)) (\<lambda>t. put_all put t ps)"

locale header_table =
  fixes create :: "(world, 't) prog"
    and put :: "'t \<Rightarrow> ptr \<Rightarrow> ptr \<Rightarrow> (world, 't) prog"
    and get :: "'t \<Rightarrow> ptr \<Rightarrow> (world, ptr) prog"
    and dispose :: "'t \<Rightarrow> (world, unit) prog"
    and ok :: "heap \<Rightarrow> 't \<Rightarrow> bool"
    and view :: "heap \<Rightarrow> 't \<Rightarrow> (string \<times> string) list"
    and ptrs :: "'t \<Rightarrow> ptr list"
  assumes create: "\<exists>t h. create w = Inr (t, w\<lparr>hp := h\<rparr>) \<and> ok h t \<and> view h t = [] \<and>
      transfer (hp w) [] h (ptrs t)"
    and put: "ok (hp w) t \<Longrightarrow> str_or_empty (hp w) name = Some n \<Longrightarrow>
      str_or_empty (hp w) val = Some v \<Longrightarrow> name \<notin> set (ptrs t) - {NULL} \<Longrightarrow>
      val \<notin> set (ptrs t) - {NULL} \<Longrightarrow>
      \<exists>t' h. put t name val w = Inr (t', w\<lparr>hp := h\<rparr>) \<and> ok h t' \<and>
             view h t' = view (hp w) t @ [(lower n, v)] \<and> transfer (hp w) (ptrs t) h (ptrs t')"
    and get: "ok (hp w) t \<Longrightarrow> str_at (hp w) name = Some k \<Longrightarrow>
      \<exists>r h. get t name w = Inr (r, w\<lparr>hp := h\<rparr>) \<and>
            points_to (hp w) (map_of (view (hp w) t) (lower k)) r \<and> transfer (hp w) [] h []"
    and dispose: "ok (hp w) t \<Longrightarrow>
      \<exists>h. dispose t w = Inr ((), w\<lparr>hp := h\<rparr>) \<and> transfer (hp w) (ptrs t) h []"
    and frame: "ok h t \<Longrightarrow> (\<And>a. Addr a \<in> set (ptrs t) \<Longrightarrow> a < length h' \<and> h' ! a = h ! a) \<Longrightarrow>
      ok h' t \<and> view h' t = view h t"
    and no_literals: "ok h t \<Longrightarrow> Lit s \<notin> set (ptrs t)"
    and live_ptrs: "ok h t \<Longrightarrow> Addr a \<in> set (ptrs t) \<Longrightarrow> a \<in> live h"
begin

lemma put_all_ok:
  "ok (hp w) t \<Longrightarrow>
   \<exists>t' h. put_all put t ps w = Inr (t', w\<lparr>hp := h\<rparr>) \<and> ok h t' \<and>
          view h t' = view (hp w) t @ map (\<lambda>(n, v). (lower n, v)) ps \<and>
          transfer (hp w) (ptrs t) h (ptrs t')"
proof (induction ps arbitrary: t w)
  case Nil
  then show ?case
    by (auto simp: transfer_def live_ptrs intro!: exI [of _ t] exI [of _ "hp w"])
next
  case (Cons p ps)
  obtain n v where p: "p = (n, v)" by fastforce
  obtain t1 h1 where 1: "put t (Lit n) (Lit v) w = Inr (t1, w\<lparr>hp := h1\<rparr>)" "ok h1 t1"
      "view h1 t1 = view (hp w) t @ [(lower n, v)]" "transfer (hp w) (ptrs t) h1 (ptrs t1)"
    using put [OF Cons.prems, of "Lit n" n "Lit v" v] no_literals [OF Cons.prems]
    by (auto simp: str_or_empty_def)
  then obtain t2 h2 where "put_all put t1 ps (w\<lparr>hp := h1\<rparr>) = Inr (t2, w\<lparr>hp := h2\<rparr>)" "ok h2 t2"
      "view h2 t2 = view h1 t1 @ map (\<lambda>(n, v). (lower n, v)) ps" "transfer h1 (ptrs t1) h2 (ptrs t2)"
    using Cons.IH [of "w\<lparr>hp := h1\<rparr>" t1] by auto
  then show ?case
    using 1 by (intro exI [of _ t2] exI [of _ h2]) (auto simp: p intro: transfer_trans)
qed

text \<open>Fill a new table, look one name up, dispose of the table: nothing is leaked.\<close>

lemma session:
  "\<exists>t r w1 w2 w3.
     andthenM create (\<lambda>t. put_all put t ps) w = Inr (t, w1) \<and>
     get t (Lit k) w1 = Inr (r, w2) \<and>
     points_to (hp w2) (map_of (map (\<lambda>(n, v). (lower n, v)) ps) (lower k)) r \<and>
     dispose t w2 = Inr ((), w3) \<and> transfer (hp w) [] (hp w3) []"
proof -
  obtain t0 h0 where 0: "create w = Inr (t0, w\<lparr>hp := h0\<rparr>)" "ok h0 t0" "view h0 t0 = []"
      "transfer (hp w) [] h0 (ptrs t0)"
    using create [of w] by auto
  obtain t h1 where 1: "put_all put t0 ps (w\<lparr>hp := h0\<rparr>) = Inr (t, w\<lparr>hp := h1\<rparr>)" "ok h1 t"
      "view h1 t = map (\<lambda>(n, v). (lower n, v)) ps" "transfer h0 (ptrs t0) h1 (ptrs t)"
    using put_all_ok [of "w\<lparr>hp := h0\<rparr>" t0 ps] 0(2,3) by auto
  let ?found = "map_of (map (\<lambda>(n, v). (lower n, v)) ps) (lower k)"
  obtain r h2 where 2: "get t (Lit k) (w\<lparr>hp := h1\<rparr>) = Inr (r, w\<lparr>hp := h2\<rparr>)"
      "points_to h1 ?found r" "transfer h1 [] h2 []"
    using get [of "w\<lparr>hp := h1\<rparr>" t "Lit k" k] 1(2,3) by auto
  have "ok h2 t"
    using frame [OF 1(2), of h2] transfer_keeps [OF 2(3)] live_ptrs [OF 1(2)] by auto
  then obtain h3 where 3: "dispose t (w\<lparr>hp := h2\<rparr>) = Inr ((), w\<lparr>hp := h3\<rparr>)" "transfer h2 (ptrs t) h3 []"
    using dispose [of "w\<lparr>hp := h2\<rparr>" t] by auto
  have "transfer h1 (ptrs t) h2 (ptrs t)"
    using transfer_frame [OF 2(3), of "ptrs t"] live_ptrs [OF 1(2)] by simp
  then have "transfer (hp w) [] h3 []" using 0(4) 1(4) 3(2) by (blast intro: transfer_trans)
  moreover have "points_to h2 ?found r"
    using 2(2) transfer_str_at [OF 2(3)] by (cases ?found) (auto simp: points_to_def)
  moreover have "andthenM create (\<lambda>t. put_all put t ps) w = Inr (t, w\<lparr>hp := h1\<rparr>)"
    using 0(1) 1(1) by (simp add: andthenM_run)
  ultimately show ?thesis
    using 2(1) 3(1)
    by (intro exI [of _ t] exI [of _ r] exI [of _ "w\<lparr>hp := h1\<rparr>"] exI [of _ "w\<lparr>hp := h2\<rparr>"]
        exI [of _ "w\<lparr>hp := h3\<rparr>"]) simp
qed

end

interpretation ht: header_table headers_create headers_set headers_get headers_destroy
  headers_ok headers_view headers_ptrs
proof
  fix w :: world
  show "\<exists>t h. headers_create w = Inr (t, w\<lparr>hp := h\<rparr>) \<and> headers_ok h t \<and> headers_view h t = [] \<and>
      transfer (hp w) [] h (headers_ptrs t)"
    using headers_create_ok [OF headers_create_run] headers_create_run by fastforce
next
  fix w :: world and t name n val v
  assume a: "headers_ok (hp w) t" "str_or_empty (hp w) name = Some n"
    "str_or_empty (hp w) val = Some v" "name \<notin> set (headers_ptrs t) - {NULL}"
    "val \<notin> set (headers_ptrs t) - {NULL}"
  then have "headers_set t name val w = Inr (set_result (hp w) t, w\<lparr>hp := set_heap (hp w) t n v\<rparr>)"
    by (intro headers_set_run) (auto simp: headers_ptrs_def)
  then show "\<exists>t' h. headers_set t name val w = Inr (t', w\<lparr>hp := h\<rparr>) \<and> headers_ok h t' \<and>
      headers_view h t' = headers_view (hp w) t @ [(lower n, v)] \<and>
      transfer (hp w) (headers_ptrs t) h (headers_ptrs t')"
    using set_heap_ok [OF a(1)] set_heap_transfer [OF a(1)] by blast
next
  fix w :: world and t name k
  assume "headers_ok (hp w) t" "str_at (hp w) name = Some k"
  from headers_get_run [OF this] show "\<exists>r h. headers_get t name w = Inr (r, w\<lparr>hp := h\<rparr>) \<and>
      points_to (hp w) (map_of (headers_view (hp w) t) (lower k)) r \<and> transfer (hp w) [] h []"
    by (fastforce simp: transfer_def nth_append live_def)
next
  fix w :: world and t
  assume "headers_ok (hp w) t"
  from headers_destroy_run [OF this]
  show "\<exists>h. headers_destroy t w = Inr ((), w\<lparr>hp := h\<rparr>) \<and> transfer (hp w) (headers_ptrs t) h []"
    by blast
next
  fix h h' t
  assume "headers_ok h t" "\<And>a. Addr a \<in> set (headers_ptrs t) \<Longrightarrow> a < length h' \<and> h' ! a = h ! a"
  from headers_frame [OF this] show "headers_ok h' t \<and> headers_view h' t = headers_view h t" by simp
next
  fix h t s
  assume "headers_ok h t"
  then show "Lit s \<notin> set (headers_ptrs t)" by (auto simp: headers_ok_def owned_def list_all_iff)
next
  fix h t a
  assume "headers_ok h t" "Addr a \<in> set (headers_ptrs t)"
  then show "a \<in> live h" by (rule headers_ptr_live)
qed

section \<open>Deletion\<close>

definition matches :: "heap \<Rightarrow> string \<Rightarrow> Header \<Rightarrow> bool" where
  "matches h key f \<longleftrightarrow> fst (field_view h f) = key"

text \<open>
  After the fields \<open>done\<close>: the kept ones are packed at the front of the array, the rest of the
  array is as before, and the matching ones are freed.
\<close>

definition kept :: "heap \<Rightarrow> string \<Rightarrow> Header list \<Rightarrow> Header list" where
  "kept h key fs = filter (\<lambda>f. \<not> matches h key f) fs"

definition dropped :: "heap \<Rightarrow> string \<Rightarrow> Header list \<Rightarrow> ptr list" where
  "dropped h key fs = field_ptrs (filter (matches h key) fs)"

lemma kept_le: "length (kept h key fs) \<le> length fs"
  by (simp add: kept_def)

lemma dropped_subset: "set (dropped h key fs) \<subseteq> set (field_ptrs fs)"
  by (auto simp: dropped_def field_ptrs_def)

lemma delete_loop_run:
  assumes fs: "fs = done @ rest"
    and own: "owned h (field_ptrs fs)" "list_all (field_ok h) fs"
    and key: "str_at h name = Some key" "name \<notin> set (field_ptrs fs)"
    and w: "hp w = frees (addrs (dropped h key done)) h"
  shows "delete_loop name [length done..<length fs] (length done - length (kept h key done))
           (kept h key done @ drop (length (kept h key done)) fs) w =
         Inr ((length fs - length (kept h key fs), kept h key fs @ drop (length (kept h key fs)) fs),
              w\<lparr>hp := frees (addrs (dropped h key fs)) h\<rparr>)"
  using fs w
proof (induction rest arbitrary: "done" w)
  case Nil
  then show ?case by simp
next
  case (Cons f rest)
  let ?k = "kept h key done" and ?i = "length done"
  let ?arr = "?k @ drop (length ?k) fs"
  have le: "length ?k \<le> ?i" by (rule kept_le)
  have i: "?arr ! ?i = f" using Cons.prems(1) le by (simp add: nth_append)
  have upt: "[?i..<length fs] = ?i # [Suc ?i..<length fs]" using Cons.prems(1) by (intro upt_conv_Cons) simp
  obtain a b n v where f: "f = \<lparr>hdr_name = Addr a, hdr_value = Addr b\<rparr>"
      "str_at h (Addr a) = Some n" "str_at h (Addr b) = Some v"
    using own(2) Cons.prems(1) by (auto simp: field_ok_def)
  have dist: "a \<notin> set (addrs (dropped h key done))" "b \<notin> set (addrs (dropped h key done))" "a \<noteq> b"
    using own(1) dropped_subset [of h key "done"]
    by (auto simp: owned_def Cons.prems(1) f(1) set_addrs)
  have live: "a \<in> live (hp w)" "b \<in> live (hp w)"
    using dist f(2,3) str_at_live unfolding Cons.prems(2) by (auto simp: live_frees simp del: str_at_Addr)
  have load: "load (Addr a) w = Inr (n, w)"
    using f(2) dist(1) str_at_frees [of h "Addr a" n] Cons.prems(2) by (simp add: load_str_at)
  have keyload: "load name w = Inr (key, w)"
  proof -
    have "Addr x \<notin> set (dropped h key done)" if "name = Addr x" for x
      using key(2) that dropped_subset [of h key "done"] by (auto simp: Cons.prems(1))
    then show ?thesis
      using str_at_frees [OF key(1), of "addrs (dropped h key done)"] Cons.prems(2)
      by (intro load_str_at) auto
  qed
  have view: "matches h key f \<longleftrightarrow> n = key" using f by (simp add: matches_def field_view_def)
  show ?case
  proof (cases "n = key")
    case True
    let ?w = "w\<lparr>hp := (hp w)[a := None, b := None]\<rparr>"
    have free: "free (Addr a) w = Inr ((), w\<lparr>hp := (hp w)[a := None]\<rparr>)"
        "free (Addr b) (w\<lparr>hp := (hp w)[a := None]\<rparr>) = Inr ((), ?w)"
      using live dist(3) by (auto simp: free_live)
    have "kept h key (done @ [f]) = ?k" "dropped h key (done @ [f]) = dropped h key done @ [Addr a, Addr b]"
      using True view by (simp_all add: kept_def dropped_def f(1))
    then show ?thesis
      using Cons.IH [of "done @ [f]" ?w] Cons.prems i upt free True load keyload le
      by (simp add: andthenM_run f(1) Suc_diff_le)
  next
    case False
    have "kept h key (done @ [f]) = ?k @ [f]" "dropped h key (done @ [f]) = dropped h key done"
      using False view by (simp_all add: kept_def dropped_def)
    moreover have "?arr[?i - (?i - length ?k) := f] = (?k @ [f]) @ drop (Suc (length ?k)) fs"
      using le Cons.prems(1) by (simp add: list_update_append Cons_nth_drop_Suc [symmetric])
    ultimately show ?thesis
      using Cons.IH [of "done @ [f]" w] Cons.prems i upt False load keyload
      by (simp add: andthenM_run f(1))
  qed
qed

lemma headers_delete_run:
  assumes "headers_ok (hp w) hs" "str_at (hp w) name = Some key"
    "name \<notin> set (field_ptrs (hs_fields hs))"
  defines "k \<equiv> kept (hp w) key (hs_fields hs)"
  shows "headers_delete hs name w =
    Inr ((length (hs_fields hs) - length k, hs\<lparr>hs_fields := k @ drop (length k) (hs_fields hs)\<rparr>),
         w\<lparr>hp := frees (addrs (dropped (hp w) key (hs_fields hs))) (hp w)\<rparr>)"
  using delete_loop_run [of "hs_fields hs" "[]" "hs_fields hs" "hp w" name key w] assms
  by (simp add: headers_delete_def andthenM_run headers_ok_def headers_ptrs_def owned_def kept_def
      dropped_def)

lemma free_all_dead_head:
  assumes "a < length (hp w)" "a \<notin> live (hp w)"
  shows "free_all (Addr a # ps) w = Inl DoubleFree"
  using assms by (simp add: andthenM_run free_dead)

lemma field_ptrs_filter_subset:
  "set (addrs (field_ptrs (filter P fs))) \<subseteq> set (addrs (field_ptrs fs))"
  by (auto simp: field_ptrs_def)

lemma field_ptrs_partition:
  "distinct (addrs (field_ptrs fs)) \<Longrightarrow>
   distinct (addrs (field_ptrs (filter P fs))) \<and>
   set (addrs (field_ptrs (filter P fs))) \<inter> set (addrs (field_ptrs (filter (\<lambda>f. \<not> P f) fs))) = {}"
proof (induction fs)
  case (Cons f fs)
  define A where "A = addrs [hdr_name f, hdr_value f]"
  have A: "addrs (field_ptrs (f # gs)) = A @ addrs (field_ptrs gs)" for gs
    using addrs_append [of "[hdr_name f, hdr_value f]" "field_ptrs gs"] by (simp add: A_def)
  then have "distinct A" "set A \<inter> set (addrs (field_ptrs fs)) = {}" "distinct (addrs (field_ptrs fs))"
    using Cons.prems by auto
  then show ?case
    using Cons.IH field_ptrs_filter_subset [of P fs] field_ptrs_filter_subset [of "\<lambda>f. \<not> P f" fs]
    by (cases "P f") (simp_all only: filter.simps A if_True if_False distinct_append set_append not_True_eq_False not_False_eq_True, blast+)
qed simp

text \<open>Every pointer of the old array is dead once the deleted and the kept fields are freed.\<close>

lemma delete_then_destroy:
  assumes "headers_ok h hs" "\<exists>f \<in> set (hs_fields hs). matches h key f"
    "hp w = frees (addrs (dropped h key (hs_fields hs))) h"
  shows "headers_destroy
     (hs\<lparr>hs_fields := kept h key (hs_fields hs) @
           drop (length (kept h key (hs_fields hs))) (hs_fields hs)\<rparr>) w = Inl DoubleFree"
proof -
  let ?fs = "hs_fields hs"
  let ?k = "kept h key ?fs"
  have part: "set (field_ptrs ?k) \<union> set (dropped h key ?fs) = set (field_ptrs ?fs)"
    by (auto simp: kept_def dropped_def field_ptrs_def)
  have own: "owned h (field_ptrs ?fs)" using assms(1) by (auto simp: headers_ok_def owned_def headers_ptrs_def)
  have dist: "distinct (addrs (field_ptrs ?k)) \<and>
      set (addrs (field_ptrs ?k)) \<inter> set (addrs (dropped h key ?fs)) = {}"
    using field_ptrs_partition [of ?fs "\<lambda>f. \<not> matches h key f"] own
    by (simp add: owned_def kept_def dropped_def)
  have "length ?k < length ?fs"
    using assms(2) length_filter_less [of _ ?fs "\<lambda>f. \<not> matches h key f"] by (auto simp: kept_def)
  then obtain f fs' where f: "drop (length ?k) ?fs = f # fs'" "f \<in> set ?fs"
    by (metis Cons_nth_drop_Suc nth_mem)
  obtain a b where ab: "f = \<lparr>hdr_name = Addr a, hdr_value = Addr b\<rparr>"
    using assms(1) f(2) by (auto simp: headers_ok_def field_ok_def list_all_iff)
  have "owned (hp w) (field_ptrs ?k)"
  proof -
    have "x \<in> live h" if "Addr x \<in> set (field_ptrs ?k)" for x
      using that part ownedD [OF own] by blast
    then show ?thesis using own dist part unfolding owned_def assms(3) by (auto simp: list_all_iff)
  qed
  note free = free_all_owned [OF this]
  let ?w = "w\<lparr>hp := frees (addrs (field_ptrs ?k)) (hp w)\<rparr>"
  have "Addr a \<in> set (field_ptrs ?fs)" using f(2) ab by (force simp: field_ptrs_def)
  then have "a < length (hp ?w)" "a \<notin> live (hp ?w)"
    using own part live_less by (auto simp: owned_def assms(3))
  from free_all_dead_head [OF this] show ?thesis
    unfolding headers_destroy_free_all headers_ptrs_def using free f(1) ab
    by (simp add: free_all_append andthenM_run del: free_all.simps)
qed

section \<open>Properties of header lists\<close>

text \<open>
  C12. A header list is a case-insensitive multimap whose first value wins, and it leaks
  nothing: creating a list, setting any names and values, looking a name up and destroying
  the list succeeds, the lookup gives the first value stored under the lower-cased name and
  \<^verbatim>\<open>NULL\<close> if there is none, and afterwards exactly the blocks that were allocated before
  are allocated, unchanged.
\<close>

theorem headers_first_value_no_leak:
  "\<exists>hs r w1 w2 w3.
     andthenM headers_create (\<lambda>hs. put_all headers_set hs ps) w = Inr (hs, w1) \<and>
     headers_get hs (Lit k) w1 = Inr (r, w2) \<and>
     points_to (hp w2) (map_of (map (\<lambda>(n, v). (lower n, v)) ps) (lower k)) r \<and>
     headers_destroy hs w2 = Inr ((), w3) \<and> transfer (hp w) [] (hp w3) []"
  by (rule ht.session)

text \<open>
  C28. \<^verbatim>\<open>headers_to_string\<close> prints one line per field in order, into a block that the caller
  owns, exactly when the text with its terminating zero fits the 1 MiB buffer; otherwise it
  writes past the buffer.
\<close>

theorem headers_to_string_prints:
  assumes "headers_ok (hp w) hs"
  shows "headers_to_string hs w =
    (if length (render_headers (headers_view (hp w) hs)) < BUFFER_SIZE
     then Inr (Addr (length (hp w) + 1),
            w\<lparr>hp := hp w @ [None, Some (Bytes (render_headers (headers_view (hp w) hs)))]\<rparr>)
     else Inl BufferOverflow)"
  using headers_to_string_run [OF assms] by (simp add: Let_def)

definition sample_world :: world where
  "sample_world = \<lparr>hp = [Some Struct, Some Struct, Some (Bytes ''host''), Some (Bytes ''a'')],
                   events = [], global_request_id = 0,
     clock = (\<lambda>_. \<lparr>tm_sec = 3, tm_min = 2, tm_hour = 1, tm_mday = 4, tm_mon = 0, tm_year = 124, tm_wday = 4\<rparr>),
     ticks = 0\<rparr>"

definition sample_headers :: Headers where
  "sample_headers = \<lparr>hs_self = Addr 0, hs_array = Addr 1,
     hs_fields = [\<lparr>hdr_name = Addr 2, hdr_value = Addr 3\<rparr>]\<rparr>"

lemma sample_headers_ok:
  "headers_ok (hp sample_world) sample_headers"
  "headers_view (hp sample_world) sample_headers = [(''host'', ''a'')]"
proof -
  have "live (hp sample_world) = {0, 1, 2, 3}"
    by (simp add: live_code sample_world_def upt_rec) (simp add: numeral_2_eq_2 numeral_3_eq_3)
  then have "owned (hp sample_world) (headers_ptrs sample_headers)"
    by (simp add: headers_ptrs_def sample_headers_def owned_def)
  moreover have "field_ok (hp sample_world) \<lparr>hdr_name = Addr 2, hdr_value = Addr 3\<rparr>"
    unfolding field_ok_def
    by (intro exI [of _ 2] exI [of _ 3] exI [of _ "''host''"] exI [of _ "''a''"])
      (simp add: sample_world_def)
  ultimately show "headers_ok (hp sample_world) sample_headers"
    by (simp add: headers_ok_def sample_headers_def)
  show "headers_view (hp sample_world) sample_headers = [(''host'', ''a'')]"
    by (simp add: headers_view_def field_view_def sample_headers_def sample_world_def)
qed

theorem headers_to_string_prints_witness:
  "\<exists>w'. headers_to_string sample_headers sample_world = Inr (Addr 5, w') \<and>
        str_at (hp w') (Addr 5) = Some (''host: a'' @ CRLF)"
  using headers_to_string_prints [OF sample_headers_ok(1)]
  by (simp add: sample_headers_ok(2) field_line_def BUFFER_SIZE_def CRLF_def)
    (simp add: sample_world_def)

text \<open>
  C33. \<^verbatim>\<open>headers_delete\<close> leaves a list that cannot be destroyed: if some field has the
  name, the call frees it, reports the number of fields deleted and keeps \<^verbatim>\<open>size\<close>, so the
  array still holds pointers to freed blocks or the same pointer twice, and
  \<^verbatim>\<open>headers_destroy\<close> frees one of them a second time.
\<close>

theorem headers_delete_double_free:
  assumes "headers_ok (hp w) hs" "str_at (hp w) name = Some key"
    "name \<notin> set (field_ptrs (hs_fields hs))" "key \<in> fst ` set (headers_view (hp w) hs)"
  shows "\<exists>n hs' w'. headers_delete hs name w = Inr ((n, hs'), w') \<and> 0 < n \<and>
           length (hs_fields hs') = length (hs_fields hs) \<and>
           headers_destroy hs' w' = Inl DoubleFree"
proof -
  let ?k = "kept (hp w) key (hs_fields hs)"
  have m: "\<exists>f \<in> set (hs_fields hs). matches (hp w) key f"
    using assms(4) by (auto simp: headers_view_def matches_def)
  then have "length ?k < length (hs_fields hs)"
    using length_filter_less [of _ "hs_fields hs" "\<lambda>f. \<not> matches (hp w) key f"]
    by (auto simp: kept_def)
  then show ?thesis
    using headers_delete_run [OF assms(1-3)]
      delete_then_destroy [OF assms(1) m, of "w\<lparr>hp := frees (addrs (dropped (hp w) key (hs_fields hs))) (hp w)\<rparr>"]
    by auto
qed

theorem headers_delete_double_free_witness:
  "\<exists>n hs' w'. headers_delete sample_headers (Lit ''host'') sample_world = Inr ((n, hs'), w') \<and>
     0 < n \<and> headers_destroy hs' w' = Inl DoubleFree"
  using headers_delete_double_free [OF sample_headers_ok(1), of "Lit ''host''" "''host''"]
    sample_headers_ok(2)
  by (fastforce simp: sample_headers_def)

text \<open>
  \<^verbatim>\<open>headers_delete\<close> compares the name as given with names stored in lower case, unlike
  \<^verbatim>\<open>headers_get\<close>: a name with an upper-case letter never deletes anything, and the call
  changes neither the list nor the heap.
\<close>

theorem headers_delete_case_sensitive:
  assumes "headers_ok (hp w) hs" "str_at (hp w) name = Some key"
    "name \<notin> set (field_ptrs (hs_fields hs))" "\<forall>(n, v) \<in> set (headers_view (hp w) hs). lower n = n"
    "lower key \<noteq> key"
  shows "headers_delete hs name w = Inr ((0, hs), w)"
proof -
  have "\<not> matches (hp w) key f" if "f \<in> set (hs_fields hs)" for f
    using assms(4,5) that by (force simp: headers_view_def matches_def split_beta)
  then have "kept (hp w) key (hs_fields hs) = hs_fields hs" "dropped (hp w) key (hs_fields hs) = []"
    by (auto simp: kept_def dropped_def filter_empty_conv)
  then show ?thesis using headers_delete_run [OF assms(1-3)] by simp
qed

theorem headers_delete_case_sensitive_witness:
  "headers_delete sample_headers (Lit ''Host'') sample_world =
   Inr ((0, sample_headers), sample_world)"
proof -
  have "lower ''Host'' = ''host''" "lower ''host'' = ''host''" by code_simp+
  then show ?thesis
    using headers_delete_case_sensitive [OF sample_headers_ok(1), of "Lit ''Host''" "''Host''"]
      sample_headers_ok(2)
    by (simp add: sample_headers_def)
qed

end
