(* ===== verification/Request.thy ===== *)
theory Request
  imports Headers
begin

text \<open>
  The request parser of \<^verbatim>\<open>src/request.h\<close> and \<^verbatim>\<open>src/request.c\<close>. The receive buffer is the
  list of its bytes, zero bytes included; a pointer into it is an offset. \<^verbatim>\<open>strtok\<close> writes
  zero bytes into the buffer and keeps its position in a static variable, here \<open>save\<close>.
\<close>

section \<open>Strings in the buffer\<close>

definition cstr :: "string \<Rightarrow> nat \<Rightarrow> string" where
  "cstr buf i = takeWhile (\<lambda>c. c \<noteq> NUL) (drop i buf)"

definition strlen_at :: "string \<Rightarrow> nat \<Rightarrow> nat res" where
  "strlen_at buf i =
     (if i + length (cstr buf i) < length buf then Inr (length (cstr buf i)) else Inl OutOfBounds)"

text \<open>
  \<^verbatim>\<open>strtok(s, delims)\<close>: the start of the token or \<^const>\<open>None\<close> for \<^verbatim>\<open>NULL\<close>, the buffer and the
  saved position.
\<close>

definition strtok :: "string \<Rightarrow> nat \<Rightarrow> string \<Rightarrow> (nat option \<times> string \<times> nat option) res" where
  "strtok buf s delims =
     (let b = s + length (takeWhile (\<lambda>c. c \<in> set delims) (drop s buf)) in
      if b \<ge> length buf then Inl OutOfBounds
      else if buf ! b = NUL then Inr (None, buf, None)
      else
        let e = b + length (takeWhile (\<lambda>c. c \<notin> set delims \<and> c \<noteq> NUL) (drop b buf)) in
        if e \<ge> length buf then Inl OutOfBounds
        else if buf ! e = NUL then Inr (Some b, buf, None)
        else Inr (Some b, buf[e := NUL], Some (e + 1)))"

text \<open>\<^verbatim>\<open>strtok(NULL, delims)\<close>.\<close>

definition strtok_next ::
  "string \<Rightarrow> nat option \<Rightarrow> string \<Rightarrow> (nat option \<times> string \<times> nat option) res" where
  "strtok_next buf save delims =
     (case save of None \<Rightarrow> Inr (None, buf, None) | Some s \<Rightarrow> strtok buf s delims)"

text \<open>A pointer that the code dereferences without a test.\<close>

fun deref :: "nat option \<Rightarrow> nat res" where
  "deref None = Inl NullDeref"
| "deref (Some i) = Inr i"

text \<open>\<^verbatim>\<open>strncmp(buffer + i, "\r\n", 2) == 0\<close>.\<close>

definition at_crlf :: "string \<Rightarrow> nat \<Rightarrow> bool res" where
  "at_crlf buf i =
     (if i \<ge> length buf then Inl OutOfBounds
      else if buf ! i \<noteq> CR then Inr False
      else if i + 1 \<ge> length buf then Inl OutOfBounds
      else Inr (buf ! (i + 1) = LF))"

section \<open>State\<close>

record Request =
  rq_self :: ptr
  rq_method :: ptr
  rq_path :: ptr
  rq_headers :: Headers
  rq_body :: ptr

section \<open>Operations\<close>

text \<open>
  The reading part of one iteration of the header loop: \<^const>\<open>None\<close> when the loop condition
  fails, else the name and value passed to \<^verbatim>\<open>headers_set\<close>, the buffer, the new offset and
  whether the blank line follows.
\<close>

definition parse_line ::
  "string \<Rightarrow> nat \<Rightarrow> (string option \<times> string \<times> string \<times> nat \<times> bool) option res" where
  "parse_line buf offset =
     andthen (strtok buf offset CRLF) (\<lambda>(line, buf, save).
     case line of
       None \<Rightarrow> Inr None
     | Some line \<Rightarrow>
         andthen (strlen_at buf line) (\<lambda>n.
         if n = 0 then Inr None
         else
           let offset = offset + n + 2 in
           andthen (strtok buf line '': '') (\<lambda>(name, buf, save).
           andthen (strtok_next buf save '''') (\<lambda>(val, buf, save).
           andthen (deref val) (\<lambda>v.
           let v = (if buf ! v = CHR '' '' then v + 1 else v) in
           andthen (at_crlf buf offset) (\<lambda>stop.
           Inr (Some (map_option (cstr buf) name, cstr buf v, buf,
                      if stop then offset + 2 else offset, stop))))))))"

lemma strtok_length: "strtok buf s ds = Inr (t, buf', save) \<Longrightarrow> length buf' = length buf"
  by (auto simp: strtok_def Let_def split: if_splits)

lemma strtok_next_length: "strtok_next buf s ds = Inr (t, buf', save) \<Longrightarrow> length buf' = length buf"
  by (auto simp: strtok_next_def strtok_length split: option.splits)

lemma parse_line_progress:
  assumes "parse_line buf offset = Inr (Some (name, val, buf', offset', stop))"
  shows "length buf' = length buf" "offset < offset'" "\<not> stop \<Longrightarrow> offset' < length buf"
  using assms
  by (auto simp: parse_line_def andthen_eq_Inr Let_def at_crlf_def split: option.splits if_splits
      dest!: strtok_length strtok_next_length)

text \<open>The header loop. Strings in the buffer are passed to \<^const>\<open>headers_set\<close> by their contents.\<close>

function parse_headers ::
  "string \<Rightarrow> nat \<Rightarrow> Headers \<Rightarrow> world \<Rightarrow> ((string \<times> nat \<times> Headers) \<times> world) res" where
  "parse_headers buf offset hs w =
     (case parse_line buf offset of
        Inl e \<Rightarrow> Inl e
      | Inr None \<Rightarrow> Inr ((buf, offset, hs), w)
      | Inr (Some (name, val, buf', offset', stop)) \<Rightarrow>
          (case headers_set hs (case name of None \<Rightarrow> NULL | Some n \<Rightarrow> Lit n) (Lit val) w of
             Inl e \<Rightarrow> Inl e
           | Inr (hs', w') \<Rightarrow>
               if stop then Inr ((buf', offset', hs'), w')
               else parse_headers buf' offset' hs' w'))"
  by pat_completeness auto
termination
proof (relation "measure (\<lambda>(buf, offset, hs, w). length buf - offset)")
  fix buf offset hs w s x name p val q buf' r offset' stop t hs' w'
  assume "parse_line buf offset = Inr s" "s = Some x" "(name, p) = x" "(val, q) = p" "(buf', r) = q"
    "(offset', stop) = r" "\<not> stop"
  then have "parse_line buf offset = Inr (Some (name, val, buf', offset', stop))" by auto
  from parse_line_progress [OF this] \<open>\<not> stop\<close>
  show "((buf', offset', hs', w'), buf, offset, hs, w) \<in> measure (\<lambda>(buf, offset, hs, w). length buf - offset)"
    by auto
qed simp

declare parse_headers.simps [simp del]

text \<open>\<^verbatim>\<open>strdup\<close> of a string in the buffer.\<close>

definition strdup_at :: "string \<Rightarrow> nat option \<Rightarrow> (world, ptr) prog" where
  "strdup_at buf p w =
     andthen (deref p) (\<lambda>i. andthen (strlen_at buf i) (\<lambda>_. malloc (Bytes (cstr buf i)) w))"

text \<open>Reading the buffer does not change the rest of the state.\<close>

definition reading :: "'a res \<Rightarrow> (world, 'a) prog" where
  "reading m w = andthen m (\<lambda>x. Inr (x, w))"

definition request_parse :: "string \<Rightarrow> (world, Request) prog" where
  "request_parse buf =
     andthenM (malloc Struct) (\<lambda>self.
     andthenM headers_create (\<lambda>hs.
     andthenM (reading (strtok buf 0 CRLF)) (\<lambda>(line, buf, save).
     andthenM (reading (deref line)) (\<lambda>line.
     andthenM (reading (strlen_at buf line)) (\<lambda>n.
     andthenM (reading (strtok buf line '' '')) (\<lambda>(meth, buf, save).
     andthenM (reading (strtok_next buf save '' '')) (\<lambda>(path, buf, save).
     andthenM (reading (strtok_next buf save '' '')) (\<lambda>(version, buf, save).
     andthenM (strdup_at buf meth) (\<lambda>m.
     andthenM (strdup_at buf path) (\<lambda>p.
     andthenM (parse_headers buf (n + 2) hs) (\<lambda>(buf, offset, hs).
     andthenM (reading (strtok buf offset '''')) (\<lambda>(body, buf, save).
     andthenM (case body of None \<Rightarrow> strdup (Lit '''') | Some b \<Rightarrow> strdup_at buf (Some b)) (\<lambda>b.
     return \<lparr>rq_self = self, rq_method = m, rq_path = p, rq_headers = hs, rq_body = b\<rparr>)))))))))))))"

definition request_destroy :: "Request \<Rightarrow> (world, unit) prog" where
  "request_destroy rq =
     andthenM (free (rq_method rq)) (\<lambda>_.
     andthenM (free (rq_path rq)) (\<lambda>_.
     andthenM (headers_destroy (rq_headers rq)) (\<lambda>_.
     andthenM (if rq_body rq \<noteq> NULL then free (rq_body rq) else return ()) (\<lambda>_.
     free (rq_self rq)))))"
section \<open>Tokens\<close>

lemma cstr_append [simp]: "length pre = i \<Longrightarrow> cstr (pre @ xs) i = takeWhile (\<lambda>c. c \<noteq> NUL) xs"
  by (simp add: cstr_def)

lemma takeWhile_NUL: "NUL \<notin> set tok \<Longrightarrow> takeWhile (\<lambda>c. c \<noteq> NUL) (tok @ NUL # rest) = tok"
  by (induction tok) auto

lemma cstr_token: "length pre = i \<Longrightarrow> NUL \<notin> set tok \<Longrightarrow> cstr (pre @ tok @ NUL # rest) i = tok"
  by (simp add: takeWhile_NUL)

lemma strlen_at_token:
  "length pre = i \<Longrightarrow> NUL \<notin> set tok \<Longrightarrow> strlen_at (pre @ tok @ NUL # rest) i = Inr (length tok)"
  by (simp add: strlen_at_def takeWhile_NUL)

text \<open>A token that ends at a delimiter, and one that ends at the end of the string.\<close>

lemma strtok_delim:
  assumes "length pre = i" "tok \<noteq> []" "\<forall>c \<in> set tok. c \<notin> set ds \<and> c \<noteq> NUL" "d \<in> set ds" "d \<noteq> NUL"
  shows "strtok (pre @ tok @ d # rest) i ds =
         Inr (Some i, pre @ tok @ NUL # rest, Some (i + length tok + 1))"
proof -
  have lead: "takeWhile (\<lambda>c. c \<in> set ds) (tok @ d # rest) = []"
    using assms(2,3) by (cases tok) auto
  have body: "takeWhile (\<lambda>c. c \<notin> set ds \<and> c \<noteq> NUL) (tok @ d # rest) = tok"
    using assms(3,4) by (intro takeWhile_append_stop) auto
  have "(tok @ d # rest) ! 0 \<noteq> NUL" using assms(2,3) by (cases tok) auto
  then show ?thesis
    using assms(1,5) lead body
    by (auto simp: strtok_def Let_def nth_append list_update_append split: nat.splits)
qed

lemma strtok_last:
  assumes "length pre = i" "tok \<noteq> []" "\<forall>c \<in> set tok. c \<notin> set ds \<and> c \<noteq> NUL" "NUL \<notin> set ds"
  shows "strtok (pre @ tok @ NUL # rest) i ds = Inr (Some i, pre @ tok @ NUL # rest, None)"
proof -
  have lead: "takeWhile (\<lambda>c. c \<in> set ds) (tok @ NUL # rest) = []"
    using assms(2,3) by (cases tok) auto
  have body: "takeWhile (\<lambda>c. c \<notin> set ds \<and> c \<noteq> NUL) (tok @ NUL # rest) = tok"
    using assms(3) by (intro takeWhile_append_stop) auto
  have "(tok @ NUL # rest) ! 0 \<noteq> NUL" using assms(2,3) by (cases tok) auto
  then show ?thesis
    using assms(1) lead body by (auto simp: strtok_def Let_def nth_append)
qed

lemma strtok_none:
  assumes "length pre = i" "\<forall>c \<in> set skip. c \<in> set ds" "NUL \<notin> set ds"
  shows "strtok (pre @ skip @ NUL # rest) i ds = Inr (None, pre @ skip @ NUL # rest, None)"
proof -
  have "takeWhile (\<lambda>c. c \<in> set ds) (skip @ NUL # rest) = skip"
    using assms(2,3) by (intro takeWhile_append_stop) auto
  then show ?thesis using assms(1) by (simp add: strtok_def Let_def nth_append)
qed

section \<open>Well-formed requests\<close>

text \<open>Text without the bytes that end a line or a string, and a word without blanks.\<close>

definition text_ok :: "string \<Rightarrow> bool" where
  "text_ok s \<longleftrightarrow> CR \<notin> set s \<and> LF \<notin> set s \<and> NUL \<notin> set s"

definition word_ok :: "string \<Rightarrow> bool" where
  "word_ok s \<longleftrightarrow> s \<noteq> [] \<and> text_ok s \<and> CHR '' '' \<notin> set s"

definition name_ok :: "string \<Rightarrow> bool" where
  "name_ok s \<longleftrightarrow> word_ok s \<and> CHR '':'' \<notin> set s"

definition header_ok :: "string \<times> string \<Rightarrow> bool" where
  "header_ok h \<longleftrightarrow> name_ok (fst h) \<and> text_ok (snd h)"

definition request_line :: "string \<Rightarrow> string \<Rightarrow> string \<Rightarrow> string" where
  "request_line m p v = m @ '' '' @ p @ '' '' @ v"

definition render_request ::
  "string \<Rightarrow> string \<Rightarrow> string \<Rightarrow> (string \<times> string) list \<Rightarrow> string \<Rightarrow> string" where
  "render_request m p v hs body = request_line m p v @ CRLF @ render_headers hs @ CRLF @ body"

lemmas req_ok_defs = text_ok_def word_ok_def name_ok_def header_ok_def

lemma char_facts [simp]:
  "CR \<noteq> CHR '' ''" "LF \<noteq> CHR '' ''" "NUL \<noteq> CHR '' ''" "CR \<noteq> CHR '':''" "LF \<noteq> CHR '':''"
  "NUL \<noteq> CHR '':''" "CHR '' '' \<noteq> CR" "CHR '' '' \<noteq> LF" "CHR '' '' \<noteq> NUL" "CHR '':'' \<noteq> CR"
  "CHR '':'' \<noteq> LF" "CHR '':'' \<noteq> NUL"
  by (simp_all add: c_char_defs)

text \<open>A complete line, cut off by the first \<^verbatim>\<open>strtok\<close> of an iteration.\<close>

lemma strtok_crlf:
  assumes "length pre = i" "s \<noteq> []" "text_ok s"
  shows "strtok (pre @ s @ CRLF @ rest) i CRLF =
         Inr (Some i, pre @ s @ NUL # LF # rest, Some (i + length s + 1))"
  using strtok_delim [of pre i s CRLF CR "LF # rest"] assms by (auto simp: text_ok_def CRLF_def)

lemma parse_line_header:
  assumes "length pre = i" "header_ok (n, v)"
  shows "parse_line (pre @ field_line n v @ rest) i =
    (let pre' = pre @ n @ NUL # CHR '' '' # v @ [NUL, LF] in
     andthen (at_crlf (pre' @ rest) (length pre')) (\<lambda>stop.
     Inr (Some (Some n, v, pre' @ rest,
                if stop then length pre' + 2 else length pre', stop))))"
proof -
  let ?line = "n @ '': '' @ v"
  have ok: "n \<noteq> []" "text_ok n" "text_ok v" "CHR '' '' \<notin> set n" "CHR '':'' \<notin> set n"
    using assms(2) by (auto simp: req_ok_defs)
  then have line: "?line \<noteq> []" "text_ok ?line" "NUL \<notin> set ?line" by (auto simp: text_ok_def)
  let ?b1 = "pre @ n @ CHR '':'' # CHR '' '' # v @ NUL # LF # rest"
  have s1: "strtok (pre @ field_line n v @ rest) i CRLF = Inr (Some i, ?b1, Some (i + length ?line + 1))"
    using strtok_crlf [OF assms(1) line(1,2), of rest] by (simp add: field_line_def)
  have len: "strlen_at ?b1 i = Inr (length ?line)"
    using strlen_at_token [OF assms(1) line(3), of "LF # rest"] by simp
  let ?b2 = "pre @ n @ NUL # CHR '' '' # v @ NUL # LF # rest"
  have s2: "strtok ?b1 i '': '' = Inr (Some i, ?b2, Some (i + length n + 1))"
    using strtok_delim [of pre i n "'': ''" "CHR '':''" "CHR '' '' # v @ NUL # LF # rest"] ok assms(1)
    by (auto simp: text_ok_def)
  have s3: "strtok ?b2 (i + length n + 1) '''' = Inr (Some (i + length n + 1), ?b2, None)"
    using strtok_last [of "pre @ n @ [NUL]" "i + length n + 1" "CHR '' '' # v" "''''" "LF # rest"]
      ok(3) assms(1) by (auto simp: text_ok_def)
  have sp: "?b2 ! (i + length n + 1) = CHR '' ''"
    using assms(1) by (simp add: nth_append)
  have name: "cstr ?b2 i = n"
    using cstr_token [OF assms(1), of n] ok(2) by (simp add: text_ok_def)
  have val: "cstr ?b2 (i + length n + 2) = v"
    using cstr_token [of "pre @ n @ [NUL, CHR '' '']" "i + length n + 2" v "LF # rest"] ok(3) assms(1)
    by (simp add: text_ok_def)
  show ?thesis
    using s1 len s2 s3 sp name val assms(1) line(1)
    by (simp add: parse_line_def strtok_next_def Let_def ac_simps cong: if_cong)
qed

lemma at_crlf_blank: "length pre = i \<Longrightarrow> at_crlf (pre @ CRLF @ rest) i = Inr True"
  by (simp add: at_crlf_def CRLF_def nth_append)

lemma at_crlf_field:
  assumes "length pre = i" "header_ok (n, v)"
  shows "at_crlf (pre @ field_line n v @ rest) i = Inr False"
proof -
  obtain c cs where "n = c # cs" "c \<noteq> CR" using assms(2) by (cases n) (auto simp: req_ok_defs)
  then show ?thesis using assms(1) by (simp add: at_crlf_def field_line_def nth_append)
qed

text \<open>The header loop reads every line of a well-formed header block up to the blank line.\<close>

lemma parse_headers_ok:
  assumes "hs \<noteq> []" "\<forall>h \<in> set hs. header_ok h" "length pre = i" "headers_ok (hp w) H"
  shows "\<exists>pre' H' h. parse_headers (pre @ render_headers hs @ CRLF @ rest) i H w =
           Inr ((pre' @ rest, length pre', H'), w\<lparr>hp := h\<rparr>) \<and> headers_ok h H' \<and>
           headers_view h H' = headers_view (hp w) H @ map (\<lambda>(n, v). (lower n, v)) hs \<and>
           transfer (hp w) (headers_ptrs H) h (headers_ptrs H')"
  using assms
proof (induction hs arbitrary: pre i H w)
  case (Cons nv hs)
  obtain n v where nv: "nv = (n, v)" by fastforce
  have ok: "header_ok (n, v)" using Cons.prems(2) nv by simp
  let ?p = "pre @ n @ NUL # CHR '' '' # v @ [NUL, LF]"
  obtain H1 h1 where 1: "headers_set H (Lit n) (Lit v) w = Inr (H1, w\<lparr>hp := h1\<rparr>)" "headers_ok h1 H1"
      "headers_view h1 H1 = headers_view (hp w) H @ [(lower n, v)]"
      "transfer (hp w) (headers_ptrs H) h1 (headers_ptrs H1)"
    using ht.put [OF Cons.prems(4), of "Lit n" n "Lit v" v] ht.no_literals [OF Cons.prems(4)]
    by (auto simp: str_or_empty_def)
  show ?case
  proof (cases hs)
    case Nil
    have "parse_line (pre @ render_headers [nv] @ CRLF @ rest) i =
        Inr (Some (Some n, v, (?p @ CRLF) @ rest, length (?p @ CRLF), True))"
      using parse_line_header [OF Cons.prems(3) ok, of "CRLF @ rest"] at_crlf_blank [of ?p _ rest]
      by (simp add: nv CRLF_def)
    then show ?thesis
      using 1 Nil nv
      by (subst parse_headers.simps) (auto intro!: exI [of _ "?p @ CRLF"] exI [of _ H1] exI [of _ h1])
  next
    case (Cons nv' hs')
    obtain n' v' where nv': "nv' = (n', v')" by fastforce
    have "header_ok (n', v')" using Cons.prems(2) Cons nv' by simp
    let ?b = "?p @ render_headers hs @ CRLF @ rest"
    have "parse_line (pre @ render_headers (nv # hs) @ CRLF @ rest) i =
        Inr (Some (Some n, v, ?b, length ?p, False))"
      using parse_line_header [OF Cons.prems(3) ok, of "render_headers hs @ CRLF @ rest"]
        at_crlf_field [of ?p _ n' v' "render_headers hs' @ CRLF @ rest"] \<open>header_ok (n', v')\<close>
      by (simp add: nv nv' Cons)
    then have "parse_headers (pre @ render_headers (nv # hs) @ CRLF @ rest) i H w =
        parse_headers ?b (length ?p) H1 (w\<lparr>hp := h1\<rparr>)"
      using 1(1) by (subst parse_headers.simps) simp
    moreover have "\<exists>pre' H' h. parse_headers ?b (length ?p) H1 (w\<lparr>hp := h1\<rparr>) =
           Inr ((pre' @ rest, length pre', H'), w\<lparr>hp := h\<rparr>) \<and> headers_ok h H' \<and>
           headers_view h H' = headers_view h1 H1 @ map (\<lambda>(n, v). (lower n, v)) hs \<and>
           transfer h1 (headers_ptrs H1) h (headers_ptrs H')"
      using Cons.IH [of ?p "length ?p" "w\<lparr>hp := h1\<rparr>" H1] Cons.prems(2) Cons 1(2) by simp
    ultimately show ?thesis
      using 1(3,4) nv by (force intro: transfer_trans)
  qed
qed simp

section \<open>Invariant of a request\<close>

definition request_ptrs :: "Request \<Rightarrow> ptr list" where
  "request_ptrs rq =
     [rq_method rq, rq_path rq] @ headers_ptrs (rq_headers rq) @ [rq_body rq, rq_self rq]"

definition request_ok :: "heap \<Rightarrow> Request \<Rightarrow> bool" where
  "request_ok h rq \<longleftrightarrow>
     owned h (request_ptrs rq) \<and> headers_ok h (rq_headers rq) \<and>
     str_at h (rq_method rq) \<noteq> None \<and> str_at h (rq_path rq) \<noteq> None \<and> str_at h (rq_body rq) \<noteq> None"

lemma request_destroy_free_all: "request_destroy rq = free_all (request_ptrs rq)"
proof -
  have body: "(if rq_body rq \<noteq> NULL then free (rq_body rq) else return ()) = free (rq_body rq)"
    by (cases "rq_body rq") (auto simp: fun_eq_iff)
  show ?thesis
    unfolding request_destroy_def body
    by (simp add: request_ptrs_def headers_destroy_free_all free_all_append)
qed

lemma request_destroy_run:
  assumes "request_ok (hp w) rq"
  shows "request_destroy rq w = Inr ((), w\<lparr>hp := frees (addrs (request_ptrs rq)) (hp w)\<rparr>)"
    "transfer (hp w) (request_ptrs rq) (frees (addrs (request_ptrs rq)) (hp w)) []"
  using assms by (auto simp: request_ok_def request_destroy_free_all free_all_owned transfer_frees)

lemma request_ptr_live: "request_ok h rq \<Longrightarrow> Addr a \<in> set (request_ptrs rq) \<Longrightarrow> a \<in> live h"
  by (auto simp: request_ok_def dest: ownedD)

section \<open>The parser on well-formed requests\<close>

lemma reading_run [simp]: "m = Inr x \<Longrightarrow> reading m w = Inr (x, w)"
  by (simp add: reading_def)

lemma reading_fault [simp]: "m = Inl e \<Longrightarrow> reading m w = Inl e"
  by (simp add: reading_def)

lemma strdup_at_token:
  assumes "length pre = i" "NUL \<notin> set tok"
  shows "strdup_at (pre @ tok @ NUL # rest) (Some i) w =
         Inr (Addr (length (hp w)), w\<lparr>hp := hp w @ [Some (Bytes tok)]\<rparr>)"
  using assms by (simp add: strdup_at_def strlen_at_token malloc_run takeWhile_NUL)

text \<open>The prefix of the buffer once the request line is split.\<close>

definition split_line :: "string \<Rightarrow> string \<Rightarrow> string \<Rightarrow> string" where
  "split_line m p v = m @ NUL # p @ NUL # v @ [NUL, LF]"

lemma length_split_line [simp]: "length (split_line m p v) = length (request_line m p v) + 2"
  by (simp add: split_line_def request_line_def)

lemma request_line_tokens:
  assumes "word_ok m" "word_ok p" "word_ok v"
  shows "\<exists>b1 b2 save. strtok (request_line m p v @ CRLF @ rest) 0 CRLF = Inr (Some 0, b1, save) \<and>
      strlen_at b1 0 = Inr (length (request_line m p v)) \<and>
      strtok b1 0 '' '' = Inr (Some 0, b2, Some (length m + 1)) \<and>
      strtok b2 (length m + 1) '' '' =
        Inr (Some (length m + 1), split_line m p v @ rest, Some (length m + length p + 2)) \<and>
      strtok (split_line m p v @ rest) (length m + length p + 2) '' '' =
        Inr (Some (length m + length p + 2), split_line m p v @ rest, None)"
proof -
  have ok: "m \<noteq> []" "p \<noteq> []" "v \<noteq> []" "\<forall>c \<in> set m. c \<notin> set '' '' \<and> c \<noteq> NUL"
      "\<forall>c \<in> set p. c \<notin> set '' '' \<and> c \<noteq> NUL" "\<forall>c \<in> set v. c \<notin> set '' '' \<and> c \<noteq> NUL"
    using assms by (auto simp: req_ok_defs)
  let ?b1 = "m @ CHR '' '' # p @ CHR '' '' # v @ NUL # LF # rest"
  let ?b2 = "m @ NUL # p @ CHR '' '' # v @ NUL # LF # rest"
  have "strtok (request_line m p v @ CRLF @ rest) 0 CRLF =
      Inr (Some 0, ?b1, Some (length (request_line m p v) + 1))"
    using strtok_crlf [of "[]" 0 "request_line m p v" rest] assms
    by (auto simp: request_line_def req_ok_defs)
  moreover have "strlen_at ?b1 0 = Inr (length (request_line m p v))"
    using strlen_at_token [of "[]" 0 "request_line m p v" "LF # rest"] assms
    by (auto simp: request_line_def req_ok_defs)
  moreover have "strtok ?b1 0 '' '' = Inr (Some 0, ?b2, Some (length m + 1))"
    using strtok_delim [of "[]" 0 m "'' ''" "CHR '' ''"] ok by simp
  moreover have "strtok ?b2 (length m + 1) '' '' =
      Inr (Some (length m + 1), split_line m p v @ rest, Some (length m + length p + 2))"
    using strtok_delim [of "m @ [NUL]" "length m + 1" p "'' ''" "CHR '' ''" "v @ NUL # LF # rest"] ok
    by (simp add: split_line_def)
  moreover have "strtok (split_line m p v @ rest) (length m + length p + 2) '' '' =
      Inr (Some (length m + length p + 2), split_line m p v @ rest, None)"
    using strtok_last [of "m @ NUL # p @ [NUL]" "length m + length p + 2" v "'' ''" "LF # rest"] ok
    by (simp add: split_line_def)
  ultimately show ?thesis by blast
qed

text \<open>The state when the header loop starts.\<close>

definition start_headers :: "heap \<Rightarrow> Headers" where
  "start_headers h = \<lparr>hs_self = Addr (length h + 1), hs_array = NULL, hs_fields = []\<rparr>"

definition start_heap :: "heap \<Rightarrow> string \<Rightarrow> string \<Rightarrow> heap" where
  "start_heap h m p = h @ [Some Struct, Some Struct, Some (Bytes m), Some (Bytes p)]"

lemma request_parse_line:
  assumes "word_ok m" "word_ok p" "word_ok v"
  shows "request_parse (request_line m p v @ CRLF @ rest) w =
    andthen (parse_headers (split_line m p v @ rest) (length (request_line m p v) + 2)
               (start_headers (hp w)) (w\<lparr>hp := start_heap (hp w) m p\<rparr>)) (\<lambda>((buf, offset, hs), w1).
    andthenM (reading (strtok buf offset '''')) (\<lambda>(body, buf, save).
    andthenM (case body of None \<Rightarrow> strdup (Lit '''') | Some b \<Rightarrow> strdup_at buf (Some b)) (\<lambda>b.
    return \<lparr>rq_self = Addr (length (hp w)), rq_method = Addr (length (hp w) + 2),
            rq_path = Addr (length (hp w) + 3), rq_headers = hs, rq_body = b\<rparr>)) w1)"
proof -
  obtain b1 b2 save where t: "strtok (request_line m p v @ CRLF @ rest) 0 CRLF = Inr (Some 0, b1, save)"
      "strlen_at b1 0 = Inr (length (request_line m p v))"
      "strtok b1 0 '' '' = Inr (Some 0, b2, Some (length m + 1))"
      "strtok b2 (length m + 1) '' '' =
        Inr (Some (length m + 1), split_line m p v @ rest, Some (length m + length p + 2))"
      "strtok (split_line m p v @ rest) (length m + length p + 2) '' '' =
        Inr (Some (length m + length p + 2), split_line m p v @ rest, None)"
    using request_line_tokens [OF assms] by blast
  have nul: "NUL \<notin> set m" "NUL \<notin> set p" using assms by (auto simp: req_ok_defs)
  have meth: "strdup_at (split_line m p v @ rest) (Some 0) w =
      Inr (Addr (length (hp w)), w\<lparr>hp := hp w @ [Some (Bytes m)]\<rparr>)" for w
    using strdup_at_token [of "[]" 0 m] nul by (simp add: split_line_def)
  have path: "strdup_at (split_line m p v @ rest) (Some (length m + 1)) w =
      Inr (Addr (length (hp w)), w\<lparr>hp := hp w @ [Some (Bytes p)]\<rparr>)" for w
    using strdup_at_token [of "m @ [NUL]" "length m + 1" p] nul by (simp add: split_line_def)
  show ?thesis
    using t meth path
    by (simp add: request_parse_def andthenM_run malloc_run headers_create_run strtok_next_def
        start_headers_def start_heap_def split_def numeral_3_eq_3)
qed

lemma body_run:
  assumes "length pre = i" "NUL \<notin> set body"
  shows "\<exists>t b save. strtok (pre @ body @ NUL # zs) i '''' = Inr (t, b, save) \<and>
      (case t of None \<Rightarrow> strdup (Lit '''') | Some k \<Rightarrow> strdup_at b (Some k)) w =
        Inr (Addr (length (hp w)), w\<lparr>hp := hp w @ [Some (Bytes body)]\<rparr>)"
proof (cases "body = []")
  case True
  then show ?thesis
    using strtok_none [of pre i "[]" "''''" zs] assms(1) strdup_run [of w "Lit ''''"] by simp
next
  case False
  have "\<forall>c \<in> set body. c \<notin> set '''' \<and> c \<noteq> NUL" using assms(2) by auto
  then show ?thesis
    using strtok_last [OF assms(1) False, of "''''" zs] strdup_at_token [OF assms, of zs w] by simp
qed

lemma start_ok:
  "headers_ok (start_heap h m p) (start_headers h)"
  "headers_view (start_heap h m p) (start_headers h) = []"
  "transfer h [] (start_heap h m p)
     [Addr (length h), Addr (length h + 1), Addr (length h + 2), Addr (length h + 3)]"
proof -
  have "length h + 1 \<in> live (start_heap h m p)"
    by (simp add: live_def start_heap_def nth_append)
  then show "headers_ok (start_heap h m p) (start_headers h)"
    by (simp add: headers_ok_def headers_ptrs_def owned_def start_headers_def)
  show "headers_view (start_heap h m p) (start_headers h) = []"
    by (simp add: headers_view_def start_headers_def)
  show "transfer h [] (start_heap h m p)
      [Addr (length h), Addr (length h + 1), Addr (length h + 2), Addr (length h + 3)]"
    using transfer_append [OF transfer_refl [of h], of "[Some Struct, Some Struct, Some (Bytes m), Some (Bytes p)]"]
    by (simp add: start_heap_def numeral_3_eq_3)
qed

text \<open>What the finished request owns, from the header loop's transfer.\<close>

lemma request_assembled:
  fixes body :: string
  assumes t: "transfer (start_heap h m p) (headers_ptrs (start_headers h)) h1 (headers_ptrs H)"
    and ok: "headers_ok h1 H"
  defines "rq \<equiv> \<lparr>rq_self = Addr (length h), rq_method = Addr (length h + 2),
      rq_path = Addr (length h + 3), rq_headers = H, rq_body = Addr (length h1)\<rparr>"
    and "h2 \<equiv> h1 @ [Some (Bytes body)]"
  shows "request_ok h2 rq" "transfer h [] h2 (request_ptrs rq)"
    "str_at h2 (rq_method rq) = Some m" "str_at h2 (rq_path rq) = Some p"
    "str_at h2 (rq_body rq) = Some body"
proof -
  let ?mine = "[Addr (length h), Addr (length h + 2), Addr (length h + 3)]"
  let ?s = "start_heap h m p"
  have mine: "a \<in> live ?s \<and> Addr a \<notin> set (headers_ptrs (start_headers h))" if "Addr a \<in> set ?mine" for a
    using that by (auto simp: live_def start_heap_def nth_append headers_ptrs_def start_headers_def)
  have strs: "str_at h2 (Addr (length h + 2)) = Some m" "str_at h2 (Addr (length h + 3)) = Some p"
    using transfer_str_at [OF t, of "Addr (length h + 2)" m] transfer_str_at [OF t, of "Addr (length h + 3)" p]
    unfolding h2_def by (auto simp: start_heap_def nth_append headers_ptrs_def start_headers_def)
  then show "str_at h2 (rq_method rq) = Some m" "str_at h2 (rq_path rq) = Some p"
    "str_at h2 (rq_body rq) = Some body" by (simp_all add: rq_def h2_def)
  have step: "transfer ?s (headers_ptrs (start_headers h) @ ?mine) h1 (headers_ptrs H @ ?mine)"
    by (rule transfer_frame [OF t mine])
  have "transfer h [] ?s (headers_ptrs (start_headers h) @ ?mine)"
    by (rule transfer_same [OF start_ok(3)]) (auto simp: headers_ptrs_def start_headers_def)
  with step have t1: "transfer h [] h1 (headers_ptrs H @ ?mine)" by (rule transfer_trans [rotated])
  have live1: "a \<in> live h1" if "Addr a \<in> set (headers_ptrs H @ ?mine)" for a
    using t1 that by (auto simp: transfer_def)
  have "transfer h1 (headers_ptrs H @ ?mine) h2 ((headers_ptrs H @ ?mine) @ [Addr (length h1)])"
    using transfer_frame_left [OF transfer_malloc [of h1 "Bytes body"], of "headers_ptrs H @ ?mine"] live1
    by (simp add: h2_def)
  with t1 have "transfer h [] h2 ((headers_ptrs H @ ?mine) @ [Addr (length h1)])" by (rule transfer_trans)
  then show t2: "transfer h [] h2 (request_ptrs rq)"
    by (rule transfer_same) (auto simp: request_ptrs_def rq_def)
  have "x \<notin> set (addrs (headers_ptrs H))" if "Addr x \<in> set ?mine" for x
    using t mine [OF that] unfolding transfer_def by (metis Diff_iff IntI empty_iff in_addrs)
  then have "set (addrs (headers_ptrs H)) \<inter> set (addrs ?mine) = {}" by auto
  moreover have "length h1 \<notin> set (addrs (headers_ptrs H @ ?mine))"
    using live1 by (auto dest: live_less)
  ultimately have "distinct (addrs (request_ptrs rq))"
    using ok by (auto simp: request_ptrs_def rq_def headers_ok_def owned_def)
  moreover have "set (addrs (request_ptrs rq)) \<subseteq> live h2" using t2 by (auto simp: transfer_def)
  ultimately have "owned h2 (request_ptrs rq)"
    using ok by (auto simp: owned_def request_ptrs_def rq_def headers_ok_def)
  then show "request_ok h2 rq"
    using strs headers_ok_append(1) [OF ok] by (simp add: request_ok_def rq_def h2_def)
qed

lemma request_parse_ok:
  assumes "word_ok m" "word_ok p" "word_ok v" "hs \<noteq> []" "\<forall>h \<in> set hs. header_ok h"
    "NUL \<notin> set body"
  shows "\<exists>rq h. request_parse (render_request m p v hs body @ NUL # zs) w = Inr (rq, w\<lparr>hp := h\<rparr>) \<and>
      request_ok h rq \<and> transfer (hp w) [] h (request_ptrs rq) \<and>
      str_at h (rq_method rq) = Some m \<and> str_at h (rq_path rq) = Some p \<and>
      headers_view h (rq_headers rq) = map (\<lambda>(n, v). (lower n, v)) hs \<and>
      str_at h (rq_body rq) = Some body"
proof -
  let ?s = "start_heap (hp w) m p" and ?i = "length (request_line m p v) + 2"
  let ?rest = "body @ NUL # zs"
  obtain pre H h1 where 1: "parse_headers (split_line m p v @ render_headers hs @ CRLF @ ?rest) ?i
        (start_headers (hp w)) (w\<lparr>hp := ?s\<rparr>) = Inr ((pre @ ?rest, length pre, H), w\<lparr>hp := h1\<rparr>)"
      "headers_ok h1 H" "headers_view h1 H = map (\<lambda>(n, v). (lower n, v)) hs"
      "transfer ?s (headers_ptrs (start_headers (hp w))) h1 (headers_ptrs H)"
    using parse_headers_ok [OF assms(4,5), of "split_line m p v" ?i "w\<lparr>hp := ?s\<rparr>" "start_headers (hp w)" ?rest]
      start_ok(1,2) by auto
  obtain t b save where 2: "strtok (pre @ ?rest) (length pre) '''' = Inr (t, b, save)"
      "(case t of None \<Rightarrow> strdup (Lit '''') | Some k \<Rightarrow> strdup_at b (Some k)) (w\<lparr>hp := h1\<rparr>) =
        Inr (Addr (length h1), w\<lparr>hp := h1 @ [Some (Bytes body)]\<rparr>)"
    using body_run [OF refl assms(6), of pre zs "w\<lparr>hp := h1\<rparr>"] by auto
  let ?rq = "\<lparr>rq_self = Addr (length (hp w)), rq_method = Addr (length (hp w) + 2),
      rq_path = Addr (length (hp w) + 3), rq_headers = H, rq_body = Addr (length h1)\<rparr>"
  have "request_parse (render_request m p v hs body @ NUL # zs) w =
      Inr (?rq, w\<lparr>hp := h1 @ [Some (Bytes body)]\<rparr>)"
    using request_parse_line [OF assms(1-3), of "render_headers hs @ CRLF @ ?rest" w] 1(1) 2
    by (simp add: render_request_def andthenM_run)
  then show ?thesis
    using request_assembled [OF 1(4,2), of body] headers_ok_append(2) [OF 1(2)] 1(3) by auto
qed

lemma parse_line_no_value:
  assumes "length pre = i" "name_ok n" "sep = '''' \<or> sep = '':''"
  shows "parse_line (pre @ n @ sep @ CRLF @ rest) i = Inl NullDeref"
proof -
  let ?line = "n @ sep"
  have ok: "n \<noteq> []" "text_ok n" "\<forall>c \<in> set n. c \<notin> set '': '' \<and> c \<noteq> NUL"
    using assms(2) by (auto simp: req_ok_defs)
  have sep: "text_ok sep" using assms(3) by (elim disjE) (simp_all add: text_ok_def)
  then have line: "?line \<noteq> []" "text_ok ?line" "NUL \<notin> set ?line"
    using ok(1,2) by (simp_all add: text_ok_def)
  have s1: "strtok (pre @ n @ sep @ CRLF @ rest) i CRLF =
      Inr (Some i, pre @ ?line @ NUL # LF # rest, Some (i + length ?line + 1))"
    using strtok_crlf [OF assms(1) line(1,2), of rest] by simp
  have len: "strlen_at (pre @ ?line @ NUL # LF # rest) i = Inr (length ?line)"
    by (rule strlen_at_token [OF assms(1) line(3)])
  have s2: "\<exists>b save. strtok (pre @ ?line @ NUL # LF # rest) i '': '' = Inr (Some i, b, save) \<and>
      strtok_next b save '''' = Inr (None, b, None)"
  proof (cases "sep = ''''")
    case True
    then show ?thesis
      using strtok_last [OF assms(1) ok(1,3), of "LF # rest"] by (simp add: strtok_next_def)
  next
    case False
    then have sep: "sep = '':''" using assms(3) by simp
    then show ?thesis
      using strtok_delim [OF assms(1) ok(1,3), of "CHR '':''" "NUL # LF # rest"]
        strtok_none [of "pre @ n @ [NUL]" "i + length n + 1" "[]" "''''" "LF # rest"] assms(1)
      by (simp add: strtok_next_def)
  qed
  then obtain b save where t: "strtok (pre @ ?line @ NUL # LF # rest) i '': '' = Inr (Some i, b, save)"
      "strtok_next b save '''' = Inr (None, b, None)" by blast
  have "length ?line \<noteq> 0" using line(1) by simp
  then show ?thesis
    by (simp only: parse_line_def Let_def s1 len t andthen.simps prod.case option.case if_False deref.simps)
qed

section \<open>Properties of the parser\<close>

text \<open>
  C6. Round trip of requests: parsing the text of any request with at least one header, whose
  words and lines contain none of the bytes that separate them, gives back its method, path,
  headers with lower-cased names in order, and body, however the buffer continues behind the
  terminating zero; every block allocated belongs to the request, and
  \<^verbatim>\<open>request_destroy\<close> frees all of them.
\<close>

theorem request_parse_roundtrip:
  assumes "word_ok m" "word_ok p" "word_ok v" "hs \<noteq> []" "\<forall>h \<in> set hs. header_ok h"
    "NUL \<notin> set body"
  shows "\<exists>rq w1 w2. request_parse (render_request m p v hs body @ NUL # zs) w = Inr (rq, w1) \<and>
      str_at (hp w1) (rq_method rq) = Some m \<and> str_at (hp w1) (rq_path rq) = Some p \<and>
      headers_view (hp w1) (rq_headers rq) = map (\<lambda>(n, v). (lower n, v)) hs \<and>
      str_at (hp w1) (rq_body rq) = Some body \<and>
      request_destroy rq w1 = Inr ((), w2) \<and> transfer (hp w) [] (hp w2) []"
proof -
  obtain rq h where r: "request_parse (render_request m p v hs body @ NUL # zs) w = Inr (rq, w\<lparr>hp := h\<rparr>)"
      "request_ok h rq" "transfer (hp w) [] h (request_ptrs rq)"
      "str_at h (rq_method rq) = Some m" "str_at h (rq_path rq) = Some p"
      "headers_view h (rq_headers rq) = map (\<lambda>(n, v). (lower n, v)) hs"
      "str_at h (rq_body rq) = Some body"
    using request_parse_ok [OF assms] by blast
  from r(2) request_destroy_run [of "w\<lparr>hp := h\<rparr>" rq] have
      "request_destroy rq (w\<lparr>hp := h\<rparr>) = Inr ((), w\<lparr>hp := frees (addrs (request_ptrs rq)) h\<rparr>)"
      "transfer h (request_ptrs rq) (frees (addrs (request_ptrs rq)) h) []" by auto
  with r show ?thesis
    by (intro exI [of _ rq] exI [of _ "w\<lparr>hp := h\<rparr>"]
        exI [of _ "w\<lparr>hp := frees (addrs (request_ptrs rq)) h\<rparr>"])
      (auto intro: transfer_trans)
qed

theorem request_parse_roundtrip_witness:
  "\<exists>rq w1 w2. request_parse
       (render_request ''POST'' ''/some/path'' ''HTTP/1.1''
          [(''Host'', ''localhost:8080''), (''Accept'', ''*/*'')]
          ''This is the body of the request'' @ [NUL]) sample_world = Inr (rq, w1) \<and>
      str_at (hp w1) (rq_path rq) = Some ''/some/path'' \<and>
      str_at (hp w1) (rq_body rq) = Some ''This is the body of the request'' \<and>
      request_destroy rq w1 = Inr ((), w2) \<and> transfer (hp sample_world) [] (hp w2) []"
  using request_parse_roundtrip [of "''POST''" "''/some/path''" "''HTTP/1.1''"
      "[(''Host'', ''localhost:8080''), (''Accept'', ''*/*'')]" "''This is the body of the request''"
      "[]" sample_world]
  by (fastforce simp: req_ok_defs c_char_defs)

text \<open>
  C34. A header line with nothing behind its name, or with a colon and nothing behind it, makes
  the parser dereference the null pointer that \<^verbatim>\<open>strtok\<close> returns for the value.
\<close>

theorem request_parse_empty_value_crashes:
  assumes "word_ok m" "word_ok p" "word_ok v" "name_ok n" "sep = '''' \<or> sep = '':''"
  shows "request_parse (request_line m p v @ CRLF @ n @ sep @ CRLF @ rest) w = Inl NullDeref"
  using request_parse_line [OF assms(1-3), of "n @ sep @ CRLF @ rest" w]
    parse_line_no_value [of "split_line m p v" _ n sep rest] assms(4,5)
  by (subst (asm) parse_headers.simps) simp

theorem request_parse_empty_value_crashes_witness:
  "request_parse (request_line ''GET'' ''/'' ''HTTP/1.1'' @ CRLF @ ''X-Empty'' @ '':'' @ CRLF @ CRLF @ [NUL])
     sample_world = Inl NullDeref"
  by (rule request_parse_empty_value_crashes) (simp_all add: req_ok_defs c_char_defs)

text \<open>
  A request line without a path, or a request of line breaks only, makes the parser
  dereference a null pointer.
\<close>

theorem request_parse_short_line_crashes:
  assumes "m = [] \<or> word_ok m" "\<forall>c \<in> set brk. c = CR \<or> c = LF"
  shows "request_parse (m @ brk @ NUL # zs) w = Inl NullDeref"
proof (cases "m = []")
  case True
  then have "strtok (brk @ NUL # zs) 0 CRLF = Inr (None, brk @ NUL # zs, None)"
    using strtok_none [of "[]" 0 brk CRLF zs] assms(2) by (auto simp: CRLF_def)
  then show ?thesis
    using True by (simp add: request_parse_def andthenM_run malloc_run headers_create_run)
next
  case False
  then have ok: "word_ok m" "\<forall>c \<in> set m. c \<notin> set CRLF \<and> c \<noteq> NUL" "\<forall>c \<in> set m. c \<notin> set '' '' \<and> c \<noteq> NUL"
    using assms(1) by (auto simp: req_ok_defs CRLF_def)
  obtain rest save where cut: "strtok (m @ brk @ NUL # zs) 0 CRLF = Inr (Some 0, m @ NUL # rest, save)"
  proof (cases brk)
    case Nil
    then show ?thesis using strtok_last [of "[]" 0 m CRLF zs] False ok(2) that by (simp add: CRLF_def)
  next
    case (Cons c cs)
    then show ?thesis
      using strtok_delim [of "[]" 0 m CRLF c "cs @ NUL # zs"] False ok(2) assms(2) that
      by (auto simp: CRLF_def)
  qed
  moreover have "strlen_at (m @ NUL # rest) 0 = Inr (length m)"
    using strlen_at_token [of "[]" 0 m rest] ok(1) by (simp add: req_ok_defs)
  moreover have "strtok (m @ NUL # rest) 0 '' '' = Inr (Some 0, m @ NUL # rest, None)"
    using strtok_last [of "[]" 0 m "'' ''" rest] False ok(3) by simp
  moreover have "strdup_at (m @ NUL # rest) (Some 0) w =
      Inr (Addr (length (hp w)), w\<lparr>hp := hp w @ [Some (Bytes m)]\<rparr>)" for w
    using strdup_at_token [of "[]" 0 m rest] ok(1) by (simp add: req_ok_defs)
  ultimately show ?thesis
    by (simp add: request_parse_def andthenM_run malloc_run headers_create_run strtok_next_def
        strdup_at_def [of _ None])
qed

theorem request_parse_short_line_crashes_witness:
  "request_parse (''GET'' @ [CR, LF] @ NUL # []) sample_world = Inl NullDeref"
  by (rule request_parse_short_line_crashes) (simp_all add: req_ok_defs c_char_defs)

text \<open>
  C35. A request without headers is not parsed as such: its blank line becomes its body.
\<close>

theorem request_parse_no_headers_body:
  assumes "word_ok m" "word_ok p" "word_ok v"
  shows "\<exists>rq w'. request_parse (render_request m p v [] '''' @ NUL # zs) w = Inr (rq, w') \<and>
           headers_view (hp w') (rq_headers rq) = [] \<and> str_at (hp w') (rq_body rq) = Some CRLF"
proof -
  let ?pre = "split_line m p v" and ?s = "start_heap (hp w) m p"
  have "parse_line (?pre @ CRLF @ NUL # zs) (length ?pre) = Inr None"
    using strtok_none [of ?pre _ CRLF CRLF zs] by (simp add: parse_line_def CRLF_def)
  then have loop: "parse_headers (?pre @ CRLF @ NUL # zs) (length ?pre) H w' =
      Inr ((?pre @ CRLF @ NUL # zs, length ?pre, H), w')" for H w'
    by (subst parse_headers.simps) simp
  obtain t b save where "strtok (?pre @ CRLF @ NUL # zs) (length ?pre) '''' = Inr (t, b, save)"
      "(case t of None \<Rightarrow> strdup (Lit '''') | Some k \<Rightarrow> strdup_at b (Some k)) (w\<lparr>hp := ?s\<rparr>) =
        Inr (Addr (length ?s), w\<lparr>hp := ?s @ [Some (Bytes CRLF)]\<rparr>)"
    using body_run [OF refl, of CRLF ?pre zs "w\<lparr>hp := ?s\<rparr>"] by (auto simp: CRLF_def)
  then show ?thesis
    using request_parse_line [OF assms, of "CRLF @ NUL # zs" w] loop
      headers_ok_append(2) [OF start_ok(1)] start_ok(2)
    by (simp add: render_request_def andthenM_run)
qed

theorem request_parse_no_headers_body_witness:
  "\<exists>rq w'. request_parse (render_request ''GET'' ''/'' ''HTTP/1.0'' [] '''' @ NUL # []) sample_world =
     Inr (rq, w') \<and> str_at (hp w') (rq_body rq) = Some CRLF"
  using request_parse_no_headers_body [of "''GET''" "''/''" "''HTTP/1.0''" "[]" sample_world]
  by (fastforce simp: req_ok_defs c_char_defs)

end
