(* ===== verification/Response.thy ===== *)
theory Response
  imports Headers
begin

text \<open>
  Responses of \<^verbatim>\<open>src/response.h\<close> and \<^verbatim>\<open>src/response.c\<close>. The body is a character pointer that
  \<^verbatim>\<open>response_destroy\<close> frees; the optional body stream is an open file, of which the model keeps
  the block of its \<^verbatim>\<open>FILE\<close> structure and the bytes that are not read yet.
\<close>

section \<open>State\<close>

record FILE =
  fl_self :: ptr
  fl_rest :: string

record Response =
  rs_self :: ptr
  rs_status :: int
  rs_headers :: Headers
  rs_body :: ptr
  rs_body_stream :: "FILE option"

section \<open>Operations\<close>

definition response_create :: "(world, Response) prog" where
  "response_create =
     andthenM (malloc Struct) (\<lambda>self.
     andthenM headers_create (\<lambda>hs.
     return \<lparr>rs_self = self, rs_status = 200, rs_headers = hs, rs_body = NULL,
             rs_body_stream = None\<rparr>))"

text \<open>The output of the format string of \<^verbatim>\<open>response_to_string\<close>.\<close>

definition response_format :: "int \<Rightarrow> string \<Rightarrow> string \<Rightarrow> string" where
  "response_format status headers body =
     ''HTTP/1.1 '' @ show_int status @ '' OK'' @ CRLF @
     ''Content-Length: '' @ show_nat (length body) @ CRLF @
     headers @ CRLF @ body"

definition response_to_string :: "Response \<Rightarrow> (world, ptr) prog" where
  "response_to_string r =
     andthenM (malloc (Bytes '''')) (\<lambda>buffer.
     andthenM (headers_to_string (rs_headers r)) (\<lambda>headers.
     andthenM (load (if rs_body r \<noteq> NULL then rs_body r else Lit '''')) (\<lambda>body.
     andthenM (load headers) (\<lambda>hs.
     andthenM (sprintf_at '''' (response_format (rs_status r) hs body)) (\<lambda>text.
     andthenM (free headers) (\<lambda>_.
     realloc buffer (Bytes text)))))))"

definition response_destroy :: "Response \<Rightarrow> (world, unit) prog" where
  "response_destroy r =
     andthenM (headers_destroy (rs_headers r)) (\<lambda>_.
     andthenM (if rs_body r \<noteq> NULL then free (rs_body r) else return ()) (\<lambda>_.
     free (rs_self r)))"

section \<open>Invariant\<close>

definition response_ptrs :: "Response \<Rightarrow> ptr list" where
  "response_ptrs r = headers_ptrs (rs_headers r) @ [rs_body r, rs_self r]"

definition response_ok :: "heap \<Rightarrow> Response \<Rightarrow> bool" where
  "response_ok h r \<longleftrightarrow>
     owned h (response_ptrs r) \<and> headers_ok h (rs_headers r) \<and>
     str_or_empty h (rs_body r) \<noteq> None \<and> (\<exists>a. rs_self r = Addr a)"

text \<open>The body as \<^verbatim>\<open>response_to_string\<close> reads it.\<close>

definition body_view :: "heap \<Rightarrow> Response \<Rightarrow> string" where
  "body_view h r = the (str_or_empty h (rs_body r))"

definition response_text :: "heap \<Rightarrow> Response \<Rightarrow> string" where
  "response_text h r =
     response_format (rs_status r) (render_headers (headers_view h (rs_headers r))) (body_view h r)"

lemma response_destroy_free_all: "response_destroy r = free_all (response_ptrs r)"
proof -
  have body: "(if rs_body r \<noteq> NULL then free (rs_body r) else return ()) = free (rs_body r)"
    by (cases "rs_body r") (auto simp: fun_eq_iff)
  show ?thesis
    unfolding response_destroy_def body
    by (simp add: response_ptrs_def headers_destroy_free_all free_all_append)
qed

lemma response_destroy_run:
  assumes "response_ok (hp w) r"
  shows "response_destroy r w = Inr ((), w\<lparr>hp := frees (addrs (response_ptrs r)) (hp w)\<rparr>)"
    "transfer (hp w) (response_ptrs r) (frees (addrs (response_ptrs r)) (hp w)) []"
  using assms by (auto simp: response_ok_def response_destroy_free_all free_all_owned transfer_frees)

lemma response_ptr_live: "response_ok h r \<Longrightarrow> Addr a \<in> set (response_ptrs r) \<Longrightarrow> a \<in> live h"
  by (auto simp: response_ok_def dest: ownedD)

lemma response_create_run:
  "response_create w =
     Inr (\<lparr>rs_self = Addr (length (hp w)), rs_status = 200,
           rs_headers = \<lparr>hs_self = Addr (length (hp w) + 1), hs_array = NULL, hs_fields = []\<rparr>,
           rs_body = NULL, rs_body_stream = None\<rparr>,
          w\<lparr>hp := hp w @ [Some Struct, Some Struct]\<rparr>)"
  by (simp add: response_create_def andthenM_run malloc_run headers_create_run)

lemma response_create_ok:
  assumes "response_create w = Inr (r, w')"
  shows "response_ok (hp w') r" "transfer (hp w) [] (hp w') (response_ptrs r)"
    "headers_view (hp w') (rs_headers r) = []"
    "rs_status r = 200" "rs_body r = NULL" "rs_body_stream r = None" "w' = w\<lparr>hp := hp w'\<rparr>"
proof -
  let ?l = "length (hp w)"
  have r: "r = \<lparr>rs_self = Addr ?l, rs_status = 200,
           rs_headers = \<lparr>hs_self = Addr (?l + 1), hs_array = NULL, hs_fields = []\<rparr>,
           rs_body = NULL, rs_body_stream = None\<rparr>"
    and w': "w' = w\<lparr>hp := hp w @ [Some Struct, Some Struct]\<rparr>"
    using assms by (auto simp: response_create_run)
  have "?l \<in> live (hp w')" "Suc ?l \<in> live (hp w')"
    by (auto simp: w' live_def nth_append)
  then show "response_ok (hp w') r"
    by (auto simp: r response_ok_def response_ptrs_def headers_ok_def headers_ptrs_def owned_def
        str_or_empty_def)
  show "transfer (hp w) [] (hp w') (response_ptrs r)"
    using transfer_same [OF transfer_append [OF transfer_refl [of "hp w"], of "[Some Struct, Some Struct]"],
        of "[]" "response_ptrs r"]
    by (auto simp: w' r response_ptrs_def headers_ptrs_def)
qed (use assms in \<open>auto simp: response_create_run headers_view_def\<close>)

text \<open>Invariant and contents only depend on the blocks the response owns.\<close>

lemma response_frame:
  assumes "response_ok h r"
    "\<And>a. Addr a \<in> set (response_ptrs r) \<Longrightarrow> a < length h' \<and> h' ! a = h ! a"
  shows "response_ok h' r" "headers_view h' (rs_headers r) = headers_view h (rs_headers r)"
    "body_view h' r = body_view h r"
proof -
  have hs: "headers_ok h' (rs_headers r)" "headers_view h' (rs_headers r) = headers_view h (rs_headers r)"
    using assms headers_frame [of h "rs_headers r" h'] by (auto simp: response_ok_def response_ptrs_def)
  have body: "str_or_empty h' (rs_body r) = str_or_empty h (rs_body r)"
  proof (cases "rs_body r")
    case (Addr a)
    then have "a < length h' \<and> h' ! a = h ! a" "a < length h"
      using assms response_ptr_live [OF assms(1), of a] by (auto simp: response_ptrs_def live_def)
    then show ?thesis using Addr by (simp add: str_or_empty_def str_at.simps(3))
  qed (simp_all add: str_or_empty_def)
  have "Addr a \<in> set (response_ptrs r) \<Longrightarrow> a \<in> live h'" for a
    using assms(2) [of a] response_ptr_live [OF assms(1), of a] by (simp add: live_def)
  then have "owned h' (response_ptrs r)" using assms(1) by (auto simp: response_ok_def owned_def)
  with hs body show "response_ok h' r" "headers_view h' (rs_headers r) = headers_view h (rs_headers r)"
    "body_view h' r = body_view h r"
    using assms(1) by (auto simp: response_ok_def body_view_def)
qed

lemma response_frame_append:
  assumes "response_ok h r"
  shows "response_ok (h @ xs) r" "response_text (h @ xs) r = response_text h r"
proof -
  have "a < length (h @ xs) \<and> (h @ xs) ! a = h ! a" if "Addr a \<in> set (response_ptrs r)" for a
    using response_ptr_live [OF assms that] by (simp add: live_def nth_append)
  from response_frame [OF assms this] show "response_ok (h @ xs) r" "response_text (h @ xs) r = response_text h r"
    by (auto simp: response_text_def)
qed

section \<open>Text of a response\<close>

lemma length_response_format:
  "length (response_format status headers body) =
     34 + length (show_int status) + length (show_nat (length body)) + length headers + length body"
  by (simp add: response_format_def CRLF_def)

lemma response_to_string_run:
  assumes "response_ok (hp w) r"
  shows "response_to_string r w =
    (if length (response_text (hp w) r) < BUFFER_SIZE
     then Inr (Addr (length (hp w) + 3),
            w\<lparr>hp := hp w @ [None, None, None, Some (Bytes (response_text (hp w) r))]\<rparr>)
     else Inl BufferOverflow)"
proof -
  let ?h = "hp w" and ?hs = "render_headers (headers_view (hp w) (rs_headers r))"
  let ?l = "length (hp w)" and ?text = "response_text (hp w) r"
  let ?w = "w\<lparr>hp := ?h @ [Some (Bytes '''')]\<rparr>"
  let ?w1 = "w\<lparr>hp := ?h @ [Some (Bytes ''''), None, Some (Bytes ?hs)]\<rparr>"
  have hs: "headers_ok (hp ?w) (rs_headers r)" "headers_view (hp ?w) (rs_headers r) = headers_view ?h (rs_headers r)"
    using headers_ok_append assms by (simp_all add: response_ok_def)
  have le: "length ?hs < length ?text" by (simp add: response_text_def length_response_format)
  have print: "headers_to_string (rs_headers r) ?w =
      (if length ?hs < BUFFER_SIZE then Inr (Addr (?l + 2), ?w1) else Inl BufferOverflow)"
    using headers_to_string_run [OF hs(1)] hs(2) by (simp add: Let_def)
  have body: "load (if rs_body r \<noteq> NULL then rs_body r else Lit '''') ?w1 = Inr (body_view ?h r, ?w1)"
    using assms by (intro load_str_at) (auto simp: response_ok_def body_view_def str_or_empty_def)
  have hstext: "load (Addr (?l + 2)) ?w1 = Inr (?hs, ?w1)"
    by (intro load_str_at) (simp add: nth_append)
  have free: "free (Addr (?l + 2)) ?w1 = Inr ((), w\<lparr>hp := ?h @ [Some (Bytes ''''), None, None]\<rparr>)"
    by (subst free_live) (simp_all add: live_def nth_append list_update_append)
  have re: "realloc (Addr ?l) (Bytes t) (w\<lparr>hp := ?h @ [Some (Bytes ''''), None, None]\<rparr>) =
      Inr (Addr (?l + 3), w\<lparr>hp := ?h @ [None, None, None, Some (Bytes t)]\<rparr>)" for t
    by (simp add: realloc_def andthenM_run free_live live_def nth_append malloc_run numeral_3_eq_3)
  show ?thesis
  proof (cases "length ?hs < BUFFER_SIZE")
    case True
    then show ?thesis
      using print body hstext free re
      by (simp add: response_to_string_def andthenM_run malloc_run sprintf_at_def response_text_def Suc_le_eq)
  next
    case False
    then show ?thesis using print le by (simp add: response_to_string_def andthenM_run malloc_run)
  qed
qed

text \<open>How a client reads a response: lines up to the first blank one, then the body.\<close>

fun take_line :: "string \<Rightarrow> string \<times> string" where
  "take_line [] = ([], [])"
| "take_line [c] = ([c], [])"
| "take_line (c # d # s) =
     (if c = CR \<and> d = LF then ([], s) else (c # fst (take_line (d # s)), snd (take_line (d # s))))"

lemma take_line_shorter: "s \<noteq> [] \<Longrightarrow> length (snd (take_line s)) < length s"
  by (induction s rule: take_line.induct) auto

function read_lines :: "string \<Rightarrow> string list \<times> string" where
  "read_lines s =
     (if fst (take_line s) = [] then ([], snd (take_line s))
      else let (ls, body) = read_lines (snd (take_line s)) in (fst (take_line s) # ls, body))"
  by pat_completeness auto
termination
proof (relation "measure length")
  fix s :: string
  assume "fst (take_line s) \<noteq> []"
  then have "s \<noteq> []" by auto
  then show "(snd (take_line s), s) \<in> measure length" by (simp add: take_line_shorter)
qed simp

declare read_lines.simps [simp del]

lemma take_line_crlf: "CR \<notin> set l \<Longrightarrow> take_line (l @ CRLF @ s) = (l, s)"
proof (induction l)
  case (Cons c l)
  then show ?case by (cases l) (auto simp: CRLF_def)
qed (simp add: CRLF_def)

lemma read_lines_crlf:
  "CR \<notin> set l \<Longrightarrow> l \<noteq> [] \<Longrightarrow>
   read_lines (l @ CRLF @ s) = (l # fst (read_lines s), snd (read_lines s))"
  using take_line_crlf [of l s] by (subst read_lines.simps) (simp add: split_beta Let_def)

lemma read_lines_blank: "read_lines (CRLF @ s) = ([], s)"
  using take_line_crlf [of "[]" s] by (subst read_lines.simps) simp

lemma digit_not_CR: "n < 10 \<Longrightarrow> digit n \<noteq> CR"
proof
  assume "n < 10" "digit n = CR"
  from this(1) have "of_char (digit n) = 48 + n" by (simp add: digit_def)
  moreover have "of_char (digit n) = (13 :: nat)" unfolding \<open>digit n = CR\<close> by (simp add: CR_def)
  ultimately show False by simp
qed

lemma show_nat_no_CR: "CR \<notin> set (show_nat n)"
proof (induction n rule: show_nat.induct)
  case (1 n)
  then show ?case using digit_not_CR [of n] digit_not_CR [of "n mod 10"]
    by (subst show_nat.simps) (auto)
qed

lemma show_int_no_CR: "CR \<notin> set (show_int i)"
  by (simp add: show_int_def show_nat_no_CR) (simp add: CR_def)

lemma read_lines_headers:
  assumes "\<forall>(n, v) \<in> set hs. CR \<notin> set n \<and> CR \<notin> set v"
  shows "read_lines (render_headers hs @ CRLF @ body) = (map (\<lambda>(n, v). n @ '': '' @ v) hs, body)"
  using assms
proof (induction hs)
  case (Cons nv hs)
  obtain n v where nv: "nv = (n, v)" by fastforce
  have "CR \<notin> set (n @ '': '' @ v)" using Cons.prems nv by (auto simp: CR_def)
  then show ?case
    using Cons read_lines_crlf [of "n @ '': '' @ v" "render_headers hs @ CRLF @ body"]
    by (simp add: nv field_line_def)
qed (simp add: read_lines_blank)

lemma read_lines_response:
  assumes "\<forall>(n, v) \<in> set hs. CR \<notin> set n \<and> CR \<notin> set v"
  shows "read_lines (response_format status (render_headers hs) body) =
    ((''HTTP/1.1 '' @ show_int status @ '' OK'') # (''Content-Length: '' @ show_nat (length body)) #
     map (\<lambda>(n, v). n @ '': '' @ v) hs, body)"
proof -
  let ?l1 = "''HTTP/1.1 '' @ show_int status @ '' OK''"
  let ?l2 = "''Content-Length: '' @ show_nat (length body)"
  have "CR \<notin> set ?l1" "CR \<notin> set ?l2" using show_int_no_CR show_nat_no_CR by (auto simp: CR_def)
  then show ?thesis
    using read_lines_crlf [of ?l1 "?l2 @ CRLF @ render_headers hs @ CRLF @ body"]
      read_lines_crlf [of ?l2 "render_headers hs @ CRLF @ body"] read_lines_headers [OF assms]
    by (simp add: response_format_def)
qed

section \<open>Properties of responses\<close>

text \<open>
  C11. Printing a response and reading it as an HTTP client does: if no header contains a
  carriage return and the text fits the 1 MiB buffer, \<^verbatim>\<open>response_to_string\<close> gives a new block
  from which the client reads the status line, the length of the body, the headers in order and,
  behind the blank line, exactly the body; the block is all that stays allocated.
\<close>

theorem response_print_read:
  assumes "response_ok (hp w) r" "length (response_text (hp w) r) < BUFFER_SIZE"
    "\<forall>(n, v) \<in> set (headers_view (hp w) (rs_headers r)). CR \<notin> set n \<and> CR \<notin> set v"
  shows "\<exists>p text w'. response_to_string r w = Inr (p, w') \<and> str_at (hp w') p = Some text \<and>
      read_lines text =
        ((''HTTP/1.1 '' @ show_int (rs_status r) @ '' OK'') #
         (''Content-Length: '' @ show_nat (length (body_view (hp w) r))) #
         map (\<lambda>(n, v). n @ '': '' @ v) (headers_view (hp w) (rs_headers r)), body_view (hp w) r) \<and>
      transfer (hp w) [] (hp w') [p] \<and> response_ok (hp w') r"
proof -
  let ?t = "response_text (hp w) r" and ?h = "hp w @ [None, None, None, Some (Bytes (response_text (hp w) r))]"
  have "transfer (hp w) [] ?h [Addr (length (hp w) + 3)]"
    by (auto simp: transfer_def live_def nth_append numeral_3_eq_3 less_Suc_eq)
  then show ?thesis
    using response_to_string_run [OF assms(1)] assms(2) read_lines_response [OF assms(3)]
      response_frame_append(1) [OF assms(1)]
    by (auto simp: response_text_def nth_append)
qed

theorem response_print_read_witness:
  "\<exists>r w p text w'. response_create sample_world = Inr (r, w) \<and> response_to_string r w = Inr (p, w') \<and>
     str_at (hp w') p = Some text \<and>
     read_lines text = ([''HTTP/1.1 200 OK'', ''Content-Length: 0''], '''')"
proof -
  obtain r w where c: "response_create sample_world = Inr (r, w)" by (simp add: response_create_run)
  note r = response_create_ok [OF c]
  have num: "show_int 200 = ''200''" "show_nat 0 = ''0''" by code_simp+
  have body: "body_view (hp w) r = ''''" by (simp add: body_view_def str_or_empty_def r(5))
  then have "length (response_text (hp w) r) < BUFFER_SIZE"
    by (simp add: response_text_def length_response_format r(3,4) num BUFFER_SIZE_def)
  from response_print_read [OF r(1) this] obtain p t w' where
    "response_to_string r w = Inr (p, w')" "str_at (hp w') p = Some t"
    "read_lines t = ((''HTTP/1.1 '' @ show_int (rs_status r) @ '' OK'') #
         (''Content-Length: '' @ show_nat (length (body_view (hp w) r))) #
         map (\<lambda>(n, v). n @ '': '' @ v) (headers_view (hp w) (rs_headers r)), body_view (hp w) r)"
    by (auto simp: r(3))
  then show ?thesis using c num by (auto simp: r(3,4) body)
qed

text \<open>
  C29. The buffer of \<^verbatim>\<open>response_to_string\<close> has 1 MiB, whatever the size of the response: a body
  of that size or more always overflows it.
\<close>

theorem response_large_body_overflows:
  assumes "response_ok (hp w) r" "BUFFER_SIZE \<le> length (body_view (hp w) r)"
  shows "response_to_string r w = Inl BufferOverflow"
  using response_to_string_run [OF assms(1)] assms(2)
  by (simp add: response_text_def length_response_format)

definition big_world :: world where
  "big_world = \<lparr>hp = [Some Struct, Some Struct, Some (Bytes (replicate BUFFER_SIZE (CHR ''a'')))],
                events = [], global_request_id = 0,
     clock = clock sample_world, ticks = 0\<rparr>"

definition big_response :: Response where
  "big_response = \<lparr>rs_self = Addr 0, rs_status = 200,
     rs_headers = \<lparr>hs_self = Addr 1, hs_array = NULL, hs_fields = []\<rparr>, rs_body = Addr 2,
     rs_body_stream = None\<rparr>"

theorem response_large_body_overflows_witness:
  "response_to_string big_response big_world = Inl BufferOverflow"
proof (rule response_large_body_overflows)
  have "str_or_empty (hp big_world) (rs_body big_response) = Some (replicate BUFFER_SIZE (CHR ''a''))"
    by (simp add: str_or_empty_def big_world_def big_response_def)
  moreover have "{0, 1, 2} \<subseteq> live (hp big_world)" by (auto simp: live_def big_world_def)
  ultimately show "response_ok (hp big_world) big_response"
    "BUFFER_SIZE \<le> length (body_view (hp big_world) big_response)"
    by (auto simp: response_ok_def response_ptrs_def headers_ok_def headers_ptrs_def owned_def
        big_response_def body_view_def)
qed

end
