(* ===== verification/Middleware.thy ===== *)
theory Middleware
  imports Request Response
begin

text \<open>
  Middleware lists of \<^verbatim>\<open>src/middleware.h\<close> and \<^verbatim>\<open>src/middleware.c\<close>, and the handlers of
  \<^verbatim>\<open>src/middlewares/\<close>. A handler reads the request, returns the changed response and whether
  the next handler is called. The file system of the static file handler is a parameter:
  the bytes \<^verbatim>\<open>fopen\<close> finds under a name, if it succeeds.
\<close>

section \<open>State\<close>

type_synonym handler = "Request \<Rightarrow> Response \<Rightarrow> (world, bool \<times> Response) prog"

record ServerMiddleware =
  mw_name :: ptr
  mw_handler :: handler

record ServerMiddlewares =
  mws_self :: ptr
  mws_array :: ptr
  mws_list :: "ServerMiddleware list"

section \<open>Middleware lists\<close>

definition server_middlewares_create :: "(world, ServerMiddlewares) prog" where
  "server_middlewares_create =
     andthenM (malloc Struct) (\<lambda>p. return \<lparr>mws_self = p, mws_array = NULL, mws_list = []\<rparr>)"

definition server_middlewares_add ::
  "ServerMiddlewares \<Rightarrow> ptr \<Rightarrow> handler \<Rightarrow> (world, ServerMiddlewares) prog" where
  "server_middlewares_add mws name handler =
     andthenM (realloc (mws_array mws) Struct) (\<lambda>arr.
     andthenM (strdup (if name \<noteq> NULL then name else Lit ''unnamed middleware'')) (\<lambda>n.
     return (mws\<lparr>mws_array := arr,
                 mws_list := mws_list mws @ [\<lparr>mw_name = n, mw_handler = handler\<rparr>]\<rparr>)))"

fun free_names :: "ServerMiddleware list \<Rightarrow> (world, unit) prog" where
  "free_names [] = return ()"
| "free_names (m # ms) = andthenM (free (mw_name m)) (\<lambda>_. free_names ms)"

definition server_middlewares_destroy :: "ServerMiddlewares \<Rightarrow> (world, unit) prog" where
  "server_middlewares_destroy mws =
     andthenM (free_names (mws_list mws)) (\<lambda>_.
     andthenM (free (mws_array mws)) (\<lambda>_.
     free (mws_self mws)))"

section \<open>Logger\<close>

text \<open>
  \<^verbatim>\<open>"%10ld [%04d %02d %02d %02d:%02d:%02d] %6s | %s\n"\<close>; the unsigned identifier is printed
  as a signed number.
\<close>

definition log_line :: "64 word \<Rightarrow> tm \<Rightarrow> string \<Rightarrow> string \<Rightarrow> string" where
  "log_line rid t meth path =
     pad (CHR '' '') 10 (show_int (sint rid)) @ '' ['' @
     show_int_zero 4 (tm_year t + 1900) @ '' '' @ show_int_zero 2 (tm_mon t + 1) @ '' '' @
     show_int_zero 2 (tm_mday t) @ '' '' @ show_int_zero 2 (tm_hour t) @ '':'' @
     show_int_zero 2 (tm_min t) @ '':'' @ show_int_zero 2 (tm_sec t) @ ''] '' @
     pad (CHR '' '') 6 meth @ '' | '' @ path @ [LF]"

definition middleware_logger_handler :: handler where
  "middleware_logger_handler rq rs =
     andthenM localtime_now (\<lambda>t.
     andthenM (load (rq_method rq)) (\<lambda>m.
     andthenM (load (rq_path rq)) (\<lambda>p.
     andthenM (\<lambda>w. emit (Stdout (log_line (global_request_id w) t m p)) w) (\<lambda>_.
     andthenM (\<lambda>w. Inr ((), w\<lparr>global_request_id := global_request_id w + 1\<rparr>)) (\<lambda>_.
     return (True, rs))))))"

section \<open>Home page\<close>

definition CSS :: string where
  "CSS = ''body { background-color: #f0f0f0; font-family: sans-serif; }''"

definition HTML :: string where
  "HTML = ''<h1>NTNU 41047029S Jacob Lin</h1>'' @
          ''<p>This is a simple web server written in C.</p>'' @
          ''<style>'' @ CSS @ ''</style>''"

text \<open>\<^verbatim>\<open>asctime\<close> for a broken-down time in its normal ranges.\<close>

definition day_names :: "string list" where
  "day_names = [''Sun'', ''Mon'', ''Tue'', ''Wed'', ''Thu'', ''Fri'', ''Sat'']"

definition month_names :: "string list" where
  "month_names = [''Jan'', ''Feb'', ''Mar'', ''Apr'', ''May'', ''Jun'',
                  ''Jul'', ''Aug'', ''Sep'', ''Oct'', ''Nov'', ''Dec'']"

definition name_at :: "string list \<Rightarrow> int \<Rightarrow> string" where
  "name_at names i = (if 0 \<le> i \<and> nat i < length names then names ! nat i else ''???'')"

definition asctime :: "tm \<Rightarrow> string" where
  "asctime t =
     name_at day_names (tm_wday t) @ '' '' @ name_at month_names (tm_mon t) @
     pad (CHR '' '') 3 (show_int (tm_mday t)) @ '' '' @
     show_int_zero 2 (tm_hour t) @ '':'' @ show_int_zero 2 (tm_min t) @ '':'' @
     show_int_zero 2 (tm_sec t) @ '' '' @ show_int (tm_year t + 1900) @ [LF]"

text \<open>
  The block that \<^verbatim>\<open>strdup(HTML)\<close> gives is grown to exactly the length of both strings and
  the terminating zero before \<^verbatim>\<open>strcat\<close>.
\<close>

definition middleware_homepage_handler :: handler where
  "middleware_homepage_handler rq rs =
     andthenM (load (rq_path rq)) (\<lambda>p.
     if p = ''/'' then
       andthenM (headers_set (rs_headers rs) (Lit ''Content-Type'') (Lit ''text/html; charset=utf-8'')) (\<lambda>hs.
       andthenM localtime_now (\<lambda>t.
       andthenM (strdup (Lit HTML)) (\<lambda>b.
       andthenM (load b) (\<lambda>html.
       andthenM (realloc b (Bytes (html @ asctime t))) (\<lambda>b.
       return (False, rs\<lparr>rs_status := 200, rs_headers := hs, rs_body := b\<rparr>))))))
     else return (True, rs))"

section \<open>Not found\<close>

definition NOT_FOUND_TEXT :: string where
  "NOT_FOUND_TEXT = ''404 Not Found!!'' @ [LF]"

definition middleware_404_handler :: handler where
  "middleware_404_handler rq rs =
     andthenM (headers_set (rs_headers rs) (Lit ''Content-Type'') (Lit ''text/plain'')) (\<lambda>hs.
     andthenM (strdup (Lit NOT_FOUND_TEXT)) (\<lambda>b.
     return (False, rs\<lparr>rs_status := 404, rs_headers := hs, rs_body := b\<rparr>)))"

section \<open>Static files\<close>

text \<open>\<^verbatim>\<open>strstr(s, p) != NULL\<close> and \<^verbatim>\<open>strrchr(s, c)\<close>.\<close>

fun strstr :: "string \<Rightarrow> string \<Rightarrow> bool" where
  "strstr [] p = (p = [])"
| "strstr (c # s) p = (take (length p) (c # s) = p \<or> strstr s p)"

fun strrchr :: "string \<Rightarrow> char \<Rightarrow> string option" where
  "strrchr [] c = None"
| "strrchr (d # s) c =
     (case strrchr s c of Some r \<Rightarrow> Some r | None \<Rightarrow> if d = c then Some (d # s) else None)"

definition content_type :: "string \<Rightarrow> string" where
  "content_type ext =
     (if ext = ''.html'' then ''text/html''
      else if ext = ''.css'' then ''text/css''
      else if ext = ''.js'' then ''application/javascript''
      else if ext = ''.png'' then ''image/png''
      else if ext = ''.jpg'' then ''image/jpeg''
      else if ext = ''.ico'' then ''image/x-icon''
      else '''')"

definition middleware_static_handler :: "(string \<Rightarrow> string option) \<Rightarrow> handler" where
  "middleware_static_handler files rq rs =
     andthenM (load (rq_path rq)) (\<lambda>p.
     let path = (if p = ''/'' then ''/index.html'' else p); full = ''public'' @ path in
     andthenM (malloc (Bytes full)) (\<lambda>full_path.
     if strstr full ''..''
     then return (True, rs\<lparr>rs_status := 403, rs_body := Lit ''403 Forbidden''\<rparr>)
     else
       (case files full of
          None \<Rightarrow> return (True, rs\<lparr>rs_status := 404, rs_body := Lit ''404 Not Found''\<rparr>)
        | Some bytes \<Rightarrow>
            andthenM (malloc Struct) (\<lambda>f.
            let rs = rs\<lparr>rs_body_stream := Some \<lparr>fl_self = f, fl_rest = bytes\<rparr>\<rparr> in
            (case strrchr path (CHR ''.'') of
               None \<Rightarrow> fault NullDeref
             | Some ext \<Rightarrow>
                 andthenM (headers_set (rs_headers rs) (Lit ''Content-Type'') (Lit (content_type ext))) (\<lambda>hs.
                 return (True, rs\<lparr>rs_headers := hs\<rparr>)))))))"

section \<open>Test page\<close>

definition test_page :: "string \<Rightarrow> string \<Rightarrow> string \<Rightarrow> string \<Rightarrow> string" where
  "test_page meth path headers body =
     ''You requested '' @ meth @ '' '' @ path @ [LF] @ ''---'' @ [LF] @ ''With headers:'' @ [LF] @
     headers @ [LF] @ ''---'' @ [LF] @ ''Body:'' @ [LF] @ body"

definition middleware_test_handler :: handler where
  "middleware_test_handler rq rs =
     andthenM (headers_set (rs_headers rs) (Lit ''Content-Type'') (Lit ''text/plain'')) (\<lambda>hs.
     andthenM (malloc (Bytes '''')) (\<lambda>body.
     andthenM (headers_to_string (rq_headers rq)) (\<lambda>headers.
     andthenM (load (rq_method rq)) (\<lambda>m.
     andthenM (load (rq_path rq)) (\<lambda>p.
     andthenM (load headers) (\<lambda>h.
     andthenM (load (rq_body rq)) (\<lambda>b.
     andthenM (sprintf_at '''' (test_page m p h b)) (\<lambda>text.
     andthenM (free headers) (\<lambda>_.
     andthenM (realloc body (Bytes text)) (\<lambda>body.
     return (True, rs\<lparr>rs_status := 200, rs_headers := hs, rs_body := body\<rparr>)))))))))))"

section \<open>Requests and responses in the hands of a handler\<close>

definition exchange_ok :: "heap \<Rightarrow> Request \<Rightarrow> Response \<Rightarrow> bool" where
  "exchange_ok h rq rs \<longleftrightarrow>
     request_ok h rq \<and> response_ok h rs \<and> owned h (response_ptrs rs @ request_ptrs rq)"

lemma request_frame:
  assumes "request_ok h rq"
    "\<And>a. Addr a \<in> set (request_ptrs rq) \<Longrightarrow> a < length h' \<and> h' ! a = h ! a"
  shows "request_ok h' rq" "str_at h' (rq_method rq) = str_at h (rq_method rq)"
    "str_at h' (rq_path rq) = str_at h (rq_path rq)"
proof -
  have strs: "str_at h' p = str_at h p" if "p \<in> set (request_ptrs rq)" for p
  proof (cases p)
    case (Addr a)
    then show ?thesis
      using that assms(2) [of a] request_ptr_live [OF assms(1), of a]
      by (simp add: str_at.simps(3) live_def)
  qed auto
  then show "str_at h' (rq_method rq) = str_at h (rq_method rq)"
    "str_at h' (rq_path rq) = str_at h (rq_path rq)" by (simp_all add: request_ptrs_def)
  have "Addr a \<in> set (request_ptrs rq) \<Longrightarrow> a \<in> live h'" for a
    using assms(2) [of a] request_ptr_live [OF assms(1), of a] by (simp add: live_def)
  then have "owned h' (request_ptrs rq)" using assms(1) by (auto simp: request_ok_def owned_def)
  moreover have "headers_ok h' (rq_headers rq)"
    using assms headers_frame [of h "rq_headers rq" h'] by (auto simp: request_ok_def request_ptrs_def)
  ultimately show "request_ok h' rq"
    using assms(1) strs by (simp add: request_ok_def request_ptrs_def)
qed

text \<open>A step that only works on the response leaves the request as it is.\<close>

lemma exchange_step:
  assumes "exchange_ok h rq rs" "response_ok h' rs'" "transfer h (response_ptrs rs) h' (response_ptrs rs')"
  shows "exchange_ok h' rq rs'" "str_at h' (rq_method rq) = str_at h (rq_method rq)"
    "str_at h' (rq_path rq) = str_at h (rq_path rq)"
proof -
  have rq: "request_ok h rq" and own: "owned h (response_ptrs rs @ request_ptrs rq)"
    using assms(1) by (simp_all add: exchange_ok_def)
  have "Addr a \<notin> set (response_ptrs rs)" if "Addr a \<in> set (request_ptrs rq)" for a
    using own that by (auto simp: owned_def)
  then have "Addr a \<in> set (request_ptrs rq) \<Longrightarrow> a < length h' \<and> h' ! a = h ! a" for a
    using transfer_keeps [OF assms(3)] request_ptr_live [OF rq] by blast
  note frame = request_frame [OF rq this]
  have "owned h' (response_ptrs rs' @ request_ptrs rq)"
    using owned_frame [OF assms(3) own] assms(2) by (simp add: response_ok_def)
  then show "exchange_ok h' rq rs'" using frame(1) assms(2) by (simp add: exchange_ok_def)
  show "str_at h' (rq_method rq) = str_at h (rq_method rq)"
    "str_at h' (rq_path rq) = str_at h (rq_path rq)" using frame(2,3) by simp_all
qed

text \<open>A handler that answers: one more header, a new body in a block behind some freed ones.\<close>

definition answered :: "heap \<Rightarrow> Response \<Rightarrow> int \<Rightarrow> nat \<Rightarrow> Response" where
  "answered h rs status k =
     rs\<lparr>rs_status := status, rs_headers := set_result h (rs_headers rs),
        rs_body := Addr (length h + 3 + k)\<rparr>"

definition answer_heap :: "heap \<Rightarrow> Response \<Rightarrow> string \<Rightarrow> string \<Rightarrow> nat \<Rightarrow> string \<Rightarrow> heap" where
  "answer_heap h rs n v k body =
     set_heap h (rs_headers rs) n v @ replicate k None @ [Some (Bytes body)]"

lemma length_set_heap [simp]: "length (set_heap h hs n v) = length h + 3"
  by (simp add: set_heap_def)

lemma answer_ok:
  fixes status :: int and k :: nat and n v body :: string
  assumes "response_ok h rs" "rs_body rs = NULL"
  defines "rs' \<equiv> answered h rs status k" and "h' \<equiv> answer_heap h rs n v k body"
  shows "response_ok h' rs'" "transfer h (response_ptrs rs) h' (response_ptrs rs')"
    "headers_view h' (rs_headers rs') = headers_view h (rs_headers rs) @ [(lower n, v)]"
    "body_view h' rs' = body" "rs_status rs' = status" "rs_body_stream rs' = rs_body_stream rs"
proof -
  let ?hs = "rs_headers rs"
  let ?h1 = "set_heap h ?hs n v" and ?hs1 = "set_result h ?hs"
  obtain a where self: "rs_self rs = Addr a" using assms(1) by (auto simp: response_ok_def)
  have hs: "headers_ok h ?hs" using assms(1) by (simp add: response_ok_def)
  note set1 = set_heap_transfer [OF hs, of n v] and ok1 = set_heap_ok [OF hs, of n v]
  have own: "owned h (headers_ptrs ?hs @ [rs_self rs])"
    using assms(1,2) by (auto simp: response_ok_def response_ptrs_def owned_def)
  then have own1: "owned ?h1 (headers_ptrs ?hs1 @ [rs_self rs])"
    using owned_frame [OF set1] ok1(1) by (simp add: headers_ok_def)
  have "transfer h (headers_ptrs ?hs @ [rs_self rs]) ?h1 (headers_ptrs ?hs1 @ [rs_self rs])"
    using own by (intro transfer_frame [OF set1]) (auto simp: owned_def self)
  moreover have "transfer ?h1 (headers_ptrs ?hs1 @ [rs_self rs]) h'
      ((headers_ptrs ?hs1 @ [rs_self rs]) @ [Addr (length ?h1 + k)])"
    unfolding h'_def answer_heap_def
    using transfer_frame_left [OF transfer_malloc_after, of "headers_ptrs ?hs1 @ [rs_self rs]" ?h1] ownedD [OF own1]
    by auto
  ultimately have "transfer h (headers_ptrs ?hs @ [rs_self rs]) h'
      ((headers_ptrs ?hs1 @ [rs_self rs]) @ [Addr (length ?h1 + k)])" by (rule transfer_trans)
  then show "transfer h (response_ptrs rs) h' (response_ptrs rs')"
    by (rule transfer_same) (auto simp: response_ptrs_def assms(2) rs'_def answered_def)
  have "owned h' (headers_ptrs ?hs1 @ [rs_self rs] @ [Addr (length ?h1 + k)])"
    using owned_malloc_after [OF own1] by (simp add: h'_def answer_heap_def)
  then have "owned h' (response_ptrs rs')"
    by (auto simp: owned_def response_ptrs_def rs'_def answered_def self)
  moreover have body: "str_at h' (rs_body rs') = Some body"
    by (simp add: h'_def rs'_def answered_def answer_heap_def nth_append)
  moreover note headers_ok_append [OF ok1(1), of "replicate k None @ [Some (Bytes body)]"]
  ultimately show "response_ok h' rs'"
    "headers_view h' (rs_headers rs') = headers_view h (rs_headers rs) @ [(lower n, v)]"
    using ok1(2) self
    by (simp_all add: response_ok_def h'_def rs'_def answered_def answer_heap_def str_or_empty_def)
  show "body_view h' rs' = body"
    using body by (simp add: body_view_def str_or_empty_def rs'_def answered_def)
qed (simp_all add: rs'_def answered_def)

section \<open>Effect of the handlers\<close>

lemma request_load:
  assumes "request_ok (hp w) rq" "hp w' = hp w"
  shows "load (rq_method rq) w' = Inr (the (str_at (hp w) (rq_method rq)), w')"
    "load (rq_path rq) w' = Inr (the (str_at (hp w) (rq_path rq)), w')"
  using assms by (auto simp: request_ok_def intro!: load_str_at)

lemma logger_run:
  assumes "request_ok (hp w) rq"
  shows "middleware_logger_handler rq rs w =
    Inr ((True, rs),
      w\<lparr>events := events w @ [Stdout (log_line (global_request_id w) (clock w (ticks w))
            (the (str_at (hp w) (rq_method rq))) (the (str_at (hp w) (rq_path rq))))],
        global_request_id := global_request_id w + 1, ticks := ticks w + 1\<rparr>)"
  using request_load [OF assms]
  by (simp add: middleware_logger_handler_def andthenM_run localtime_now_def emit_run)

lemma response_set_run:
  assumes "response_ok (hp w) rs"
  shows "headers_set (rs_headers rs) (Lit n) (Lit v) w =
    Inr (set_result (hp w) (rs_headers rs), w\<lparr>hp := set_heap (hp w) (rs_headers rs) n v\<rparr>)"
proof (rule headers_set_run)
  show hs: "headers_ok (hp w) (rs_headers rs)" using assms by (simp add: response_ok_def)
  have "Lit s \<noteq> hs_array (rs_headers rs)" for s
    using ht.no_literals [OF hs, of s] by (auto simp: headers_ptrs_def)
  then show "Lit n \<noteq> NULL \<longrightarrow> Lit n \<noteq> hs_array (rs_headers rs)"
    "Lit v \<noteq> NULL \<longrightarrow> Lit v \<noteq> hs_array (rs_headers rs)" by blast+
qed (simp_all add: str_or_empty_def)

lemma homepage_run:
  assumes "request_ok (hp w) rq" "response_ok (hp w) rs" "str_at (hp w) (rq_path rq) = Some ''/''"
  shows "middleware_homepage_handler rq rs w =
    Inr ((False, answered (hp w) rs 200 1),
      w\<lparr>hp := answer_heap (hp w) rs ''Content-Type'' ''text/html; charset=utf-8'' 1
                (HTML @ asctime (clock w (ticks w))), ticks := ticks w + 1\<rparr>)"
proof -
  let ?h = "set_heap (hp w) (rs_headers rs) ''Content-Type'' ''text/html; charset=utf-8''"
  let ?w = "w\<lparr>hp := ?h @ [Some (Bytes HTML)], ticks := ticks w + 1\<rparr>"
  have "load (Addr (length ?h)) ?w = Inr (HTML, ?w)" by (rule load_str_at) (simp add: nth_append)
  moreover have "free (Addr (length ?h)) ?w = Inr ((), ?w\<lparr>hp := ?h @ [None]\<rparr>)"
    by (subst free_live) (simp_all add: live_def nth_append list_update_append)
  ultimately show ?thesis
    using assms(3) response_set_run [OF assms(2)] strdup_run [of "w\<lparr>hp := ?h, ticks := ticks w + 1\<rparr>" "Lit HTML" HTML]
    by (simp add: middleware_homepage_handler_def andthenM_run load_str_at localtime_now_def realloc_def
        malloc_run answered_def answer_heap_def)
qed

lemma homepage_pass:
  assumes "str_at (hp w) (rq_path rq) = Some p" "p \<noteq> ''/''"
  shows "middleware_homepage_handler rq rs w = Inr ((True, rs), w)"
  using assms by (simp add: middleware_homepage_handler_def andthenM_run load_str_at)

lemma not_found_run:
  assumes "response_ok (hp w) rs"
  shows "middleware_404_handler rq rs w =
    Inr ((False, answered (hp w) rs 404 0),
      w\<lparr>hp := answer_heap (hp w) rs ''Content-Type'' ''text/plain'' 0 NOT_FOUND_TEXT\<rparr>)"
  using response_set_run [OF assms]
    strdup_run [of "w\<lparr>hp := set_heap (hp w) (rs_headers rs) ''Content-Type'' ''text/plain''\<rparr>"
      "Lit NOT_FOUND_TEXT" NOT_FOUND_TEXT]
  by (simp add: middleware_404_handler_def andthenM_run answered_def answer_heap_def)

section \<open>Middleware lists and their blocks\<close>

lemma add_run:
  assumes "owned (hp w) [mws_array mws]" "hp w' = frees (addrs [mws_array mws]) (hp w)"
    "w' = w\<lparr>hp := hp w'\<rparr>"
  shows "server_middlewares_add mws (Lit s) f w =
    Inr (mws\<lparr>mws_array := Addr (length (hp w)),
             mws_list := mws_list mws @ [\<lparr>mw_name = Addr (length (hp w) + 1), mw_handler = f\<rparr>]\<rparr>,
         w\<lparr>hp := hp w' @ [Some Struct, Some (Bytes s)]\<rparr>)"
proof -
  have "free (mws_array mws) w = Inr ((), w')"
    using free_all_owned [OF assms(1)] assms(2,3) by (auto simp: andthenM_run)
  moreover have "length (hp w') = length (hp w)" using assms(2) by simp
  moreover have "strdup (Lit s) (w\<lparr>hp := hp w' @ [Some Struct]\<rparr>) =
      Inr (Addr (length (hp w) + 1), w\<lparr>hp := hp w' @ [Some Struct, Some (Bytes s)]\<rparr>)"
    using strdup_run [of "w\<lparr>hp := hp w' @ [Some Struct]\<rparr>" "Lit s" s] assms(2) by simp
  moreover have "w'\<lparr>hp := h\<rparr> = w\<lparr>hp := h\<rparr>" for h by (subst assms(3)) simp
  ultimately show ?thesis
    by (simp add: server_middlewares_add_def andthenM_run realloc_def malloc_run)
qed

section \<open>Broken-down times\<close>

text \<open>The ranges that \<^verbatim>\<open>localtime\<close> documents, for years of four digits.\<close>

definition tm_ok :: "tm \<Rightarrow> bool" where
  "tm_ok t \<longleftrightarrow> 0 \<le> tm_sec t \<and> tm_sec t \<le> 60 \<and> 0 \<le> tm_min t \<and> tm_min t \<le> 59 \<and>
     0 \<le> tm_hour t \<and> tm_hour t \<le> 23 \<and> 1 \<le> tm_mday t \<and> tm_mday t \<le> 31 \<and>
     0 \<le> tm_mon t \<and> tm_mon t \<le> 11 \<and> 0 \<le> tm_wday t \<and> tm_wday t \<le> 6 \<and>
     0 \<le> tm_year t + 1900 \<and> tm_year t + 1900 \<le> 9999"

lemma length_show_int_le: "0 \<le> i \<Longrightarrow> i < 10 ^ k \<Longrightarrow> 0 < k \<Longrightarrow> length (show_int i) \<le> k"
  using length_show_nat [of "nat i" k] by (simp add: show_int_def nat_less_iff)

lemma length_show_int_zero:
  "0 \<le> i \<Longrightarrow> i < 10 ^ k \<Longrightarrow> 0 < k \<Longrightarrow> length (show_int_zero k i) = k"
  using length_show_nat [of "nat i" k] by (simp add: show_int_zero_def nat_less_iff)

lemma length_name_at: "list_all (\<lambda>s. length s = 3) names \<Longrightarrow> length (name_at names i) = 3"
  by (auto simp: name_at_def list_all_length)

lemma length_asctime: "tm_ok t \<Longrightarrow> length (asctime t) \<le> 25"
proof -
  assume t: "tm_ok t"
  have "length (name_at day_names i) = 3" "length (name_at month_names i) = 3" for i
    by (simp_all add: length_name_at day_names_def month_names_def)
  moreover have "length (show_int_zero 2 (tm_hour t)) = 2" "length (show_int_zero 2 (tm_min t)) = 2"
      "length (show_int_zero 2 (tm_sec t)) = 2"
    using t by (simp_all add: tm_ok_def length_show_int_zero)
  moreover have "length (show_int (tm_mday t)) \<le> 2" "length (show_int (tm_year t + 1900)) \<le> 4"
    using t by (simp_all add: tm_ok_def length_show_int_le)
  ultimately show ?thesis by (simp add: asctime_def)
qed

section \<open>The contract of a handler\<close>

definition sock_events :: "event list \<Rightarrow> event list" where
  "sock_events es =
     filter (\<lambda>e. case e of SockWrite s t \<Rightarrow> True | SockClose s \<Rightarrow> True | _ \<Rightarrow> False) es"

lemma sock_events_simps [simp]:
  "sock_events [] = []"
  "sock_events (es @ fs) = sock_events es @ sock_events fs"
  "sock_events (Stdout t # es) = sock_events es"
  "sock_events (Stderr t # es) = sock_events es"
  "sock_events (SockWrite s t # es) = SockWrite s t # sock_events es"
  "sock_events (SockClose s # es) = SockClose s # sock_events es"
  "sock_events (SockBind s p a # es) = sock_events es"
  "sock_events (SockListen s n # es) = sock_events es"
  "sock_events (SockConnect s p a # es) = sock_events es"
  "sock_events (SockShutdown s # es) = sock_events es"
  by (simp_all add: sock_events_def)

text \<open>
  What happened to a response while handlers worked on it: its blocks were exchanged for those
  of the new response and nothing else was allocated or freed, there is no stream, its text
  grew by at most \<open>n\<close> bytes, and the socket was not used.
\<close>

definition handled :: "nat \<Rightarrow> world \<Rightarrow> Response \<Rightarrow> world \<Rightarrow> Response \<Rightarrow> bool" where
  "handled n w rs w' rs' \<longleftrightarrow>
     response_ok (hp w') rs' \<and> transfer (hp w) (response_ptrs rs) (hp w') (response_ptrs rs') \<and>
     rs_body_stream rs' = None \<and>
     length (response_text (hp w') rs') \<le> length (response_text (hp w) rs) + n \<and>
     sock_events (events w') = sock_events (events w) \<and> clock w' = clock w"

lemma handled_trans:
  "handled m w rs w' rs' \<Longrightarrow> handled n w' rs' w'' rs'' \<Longrightarrow> handled (m + n) w rs w'' rs''"
  unfolding handled_def by (auto intro: transfer_trans)

lemma handled_mono: "handled m w rs w' rs' \<Longrightarrow> m \<le> n \<Longrightarrow> handled n w rs w' rs'"
  unfolding handled_def by auto

lemma transfer_owned_refl: "owned h ps \<Longrightarrow> transfer h ps h ps"
  by (auto simp: transfer_def owned_def)

lemma handled_same:
  assumes "response_ok (hp w) rs" "rs_body_stream rs = None" "hp w' = hp w"
    "sock_events (events w') = sock_events (events w)" "clock w' = clock w"
  shows "handled n w rs w' rs"
  using assms by (simp add: handled_def transfer_owned_refl response_ok_def)

text \<open>
  A handler that conforms never fails on a response without body and stream, and it sets a body
  only when it stops the chain; otherwise the next handler would lose that body.
\<close>

locale middleware_contract =
  fixes handler :: handler
  assumes conforms: "exchange_ok (hp w) rq rs \<Longrightarrow> rs_body rs = NULL \<Longrightarrow> rs_body_stream rs = None \<Longrightarrow>
     \<forall>i. tm_ok (clock w i) \<Longrightarrow>
     \<exists>next rs' w'. handler rq rs w = Inr ((next, rs'), w') \<and> handled 4096 w rs w' rs' \<and>
       (next \<longrightarrow> rs_body rs' = NULL)"

lemma answer_handled:
  assumes "response_ok (hp w) rs" "rs_body rs = NULL" "rs_body_stream rs = None"
    "hp w' = answer_heap (hp w) rs n v k body" "0 \<le> status" "status < 1000"
    "length n + length v + length body \<le> 4000"
    "sock_events (events w') = sock_events (events w)" "clock w' = clock w"
  shows "handled 4096 w rs w' (answered (hp w) rs status k)"
proof -
  note a = answer_ok(1-4) [OF assms(1,2), where status = status and k = k and n = n and v = v and body = body]
  have "length (show_int status) \<le> 3" using assms(5,6) by (intro length_show_int_le) auto
  moreover have "length (show_nat (length body)) \<le> 4" using assms(7) by (intro length_show_nat) auto
  ultimately have "length (response_text (hp w') (answered (hp w) rs status k)) \<le>
      length (response_text (hp w) rs) + 4096"
    using assms(4,7) a(3,4) answer_ok(5) [OF assms(1,2)]
    by (simp add: response_text_def length_response_format field_line_def CRLF_def)
  then show ?thesis
    using a(1,2) answer_ok(6) [OF assms(1,2)] assms(3,4,8,9) by (simp add: handled_def)
qed

interpretation logger: middleware_contract middleware_logger_handler
proof
  fix w :: world and rq rs
  assume ok: "exchange_ok (hp w) rq rs" "rs_body rs = NULL" "rs_body_stream rs = None"
  have "response_ok (hp w) rs" "request_ok (hp w) rq" using ok(1) by (simp_all add: exchange_ok_def)
  then show "\<exists>next rs' w'. middleware_logger_handler rq rs w = Inr ((next, rs'), w') \<and>
      handled 4096 w rs w' rs' \<and> (next \<longrightarrow> rs_body rs' = NULL)"
    using logger_run [of w rq rs] ok(2,3) by (auto intro!: handled_same)
qed

lemma HTML_length: "length HTML \<le> 300"
  by (simp add: HTML_def CSS_def)

interpretation homepage: middleware_contract middleware_homepage_handler
proof
  fix w :: world and rq rs
  assume ok: "exchange_ok (hp w) rq rs" "rs_body rs = NULL" "rs_body_stream rs = None"
    and clk: "\<forall>i. tm_ok (clock w i)"
  have r: "response_ok (hp w) rs" "request_ok (hp w) rq" using ok(1) by (simp_all add: exchange_ok_def)
  obtain p where p: "str_at (hp w) (rq_path rq) = Some p" using r(2) by (auto simp: request_ok_def)
  show "\<exists>next rs' w'. middleware_homepage_handler rq rs w = Inr ((next, rs'), w') \<and>
      handled 4096 w rs w' rs' \<and> (next \<longrightarrow> rs_body rs' = NULL)"
  proof (cases "p = ''/''")
    case True
    have "length (asctime (clock w (ticks w))) \<le> 25" using clk length_asctime by simp
    then have "handled 4096 w rs (w\<lparr>hp := answer_heap (hp w) rs ''Content-Type'' ''text/html; charset=utf-8'' 1
        (HTML @ asctime (clock w (ticks w))), ticks := ticks w + 1\<rparr>) (answered (hp w) rs 200 1)"
      using HTML_length
      by (intro answer_handled [OF r(1) ok(2,3), of _ "''Content-Type''" "''text/html; charset=utf-8''" 1
            "HTML @ asctime (clock w (ticks w))"]) simp_all
    then show ?thesis using homepage_run [OF r(2,1)] p True by auto
  next
    case False
    then show ?thesis using homepage_pass [OF p] r(1) ok(2,3) by (auto intro!: handled_same)
  qed
qed

interpretation not_found: middleware_contract middleware_404_handler
proof
  fix w :: world and rq rs
  assume ok: "exchange_ok (hp w) rq rs" "rs_body rs = NULL" "rs_body_stream rs = None"
  have r: "response_ok (hp w) rs" using ok(1) by (simp add: exchange_ok_def)
  have "handled 4096 w rs (w\<lparr>hp := answer_heap (hp w) rs ''Content-Type'' ''text/plain'' 0 NOT_FOUND_TEXT\<rparr>)
      (answered (hp w) rs 404 0)"
    by (intro answer_handled [OF r ok(2,3), of _ "''Content-Type''" "''text/plain''" 0 NOT_FOUND_TEXT])
      (simp_all add: NOT_FOUND_TEXT_def)
  then show "\<exists>next rs' w'. middleware_404_handler rq rs w = Inr ((next, rs'), w') \<and>
      handled 4096 w rs w' rs' \<and> (next \<longrightarrow> rs_body rs' = NULL)"
    using not_found_run [OF r] by auto
qed

section \<open>The static file handler\<close>

lemma response_ok_status:
  "response_ok h (rs\<lparr>rs_status := s, rs_body_stream := f\<rparr>) = response_ok h rs"
  "response_ptrs (rs\<lparr>rs_status := s, rs_body_stream := f\<rparr>) = response_ptrs rs"
  by (simp_all add: response_ok_def response_ptrs_def)

text \<open>A response with one more header.\<close>

lemma set_header_ok:
  fixes n v :: string
  assumes "response_ok h rs"
  defines "rs' \<equiv> rs\<lparr>rs_headers := set_result h (rs_headers rs)\<rparr>"
    and "h' \<equiv> set_heap h (rs_headers rs) n v"
  shows "response_ok h' rs'" "transfer h (response_ptrs rs) h' (response_ptrs rs')"
    "headers_view h' (rs_headers rs') = headers_view h (rs_headers rs) @ [(lower n, v)]"
proof -
  let ?hs = "rs_headers rs" and ?rest = "[rs_body rs, rs_self rs]"
  have hs: "headers_ok h ?hs" and own: "owned h (headers_ptrs ?hs @ ?rest)"
    using assms(1) by (simp_all add: response_ok_def response_ptrs_def)
  note t = set_heap_transfer [OF hs, of n v] and ok = set_heap_ok [OF hs, of n v]
  note apart = owned_apart [OF own]
  then show "transfer h (response_ptrs rs) h' (response_ptrs rs')"
    using transfer_frame [OF t, of ?rest] by (simp add: response_ptrs_def rs'_def h'_def)
  have "str_or_empty h' (rs_body rs) \<noteq> None"
  proof (cases "rs_body rs = NULL")
    case False
    then obtain s where s: "str_at h (rs_body rs) = Some s" using assms(1) by (auto simp: response_ok_def str_or_empty_def)
    have "rs_body rs \<notin> set (headers_ptrs ?hs)"
      using apart False own by (cases "rs_body rs") (auto simp: owned_def)
    then show ?thesis using transfer_str_at [OF t s] by (simp add: str_or_empty_def h'_def)
  qed (simp add: str_or_empty_def)
  then show "response_ok h' rs'"
    using owned_frame [OF t own] ok(1) assms(1)
    by (simp add: response_ok_def response_ptrs_def rs'_def h'_def headers_ok_def)
  show "headers_view h' (rs_headers rs') = headers_view h (rs_headers rs) @ [(lower n, v)]"
    using ok(2) by (simp add: rs'_def h'_def)
qed

definition static_path :: "string \<Rightarrow> string" where
  "static_path p = (if p = ''/'' then ''/index.html'' else p)"

lemma static_error_run:
  assumes "str_at (hp w) (rq_path rq) = Some p"
    "strstr (''public'' @ static_path p) ''..'' \<or> files (''public'' @ static_path p) = None"
  shows "\<exists>status msg. middleware_static_handler files rq rs w =
    Inr ((True, rs\<lparr>rs_status := status, rs_body := Lit msg\<rparr>),
         w\<lparr>hp := hp w @ [Some (Bytes (''public'' @ static_path p))]\<rparr>)"
proof -
  note fold = static_path_def [symmetric]
  show ?thesis
    using assms
    by (cases "strstr (''public'' @ static_path p) ''..''")
      (simp_all add: middleware_static_handler_def andthenM_run load_str_at malloc_run Let_def fold
        split: option.splits, blast+)
qed

lemma static_file_run:
  assumes "str_at (hp w) (rq_path rq) = Some p" "response_ok (hp w) rs"
    "\<not> strstr (''public'' @ static_path p) ''..''" "files (''public'' @ static_path p) = Some bytes"
    "strrchr (static_path p) (CHR ''.'') = Some ext"
  defines "h \<equiv> hp w @ [Some (Bytes (''public'' @ static_path p)), Some Struct]"
  shows "middleware_static_handler files rq rs w =
    Inr ((True, rs\<lparr>rs_body_stream := Some \<lparr>fl_self = Addr (length (hp w) + 1), fl_rest = bytes\<rparr>,
                    rs_headers := set_result h (rs_headers rs)\<rparr>),
         w\<lparr>hp := set_heap h (rs_headers rs) ''Content-Type'' (content_type ext)\<rparr>)"
proof -
  have "headers_set (rs_headers rs) (Lit ''Content-Type'') (Lit (content_type ext)) (w\<lparr>hp := h\<rparr>) =
      Inr (set_result h (rs_headers rs), w\<lparr>hp := set_heap h (rs_headers rs) ''Content-Type'' (content_type ext)\<rparr>)"
    using response_set_run [of "w\<lparr>hp := h\<rparr>" rs] response_frame_append(1) [OF assms(2)] by (simp add: h_def)
  then show ?thesis
    using assms(1,3-5)
    by (simp add: middleware_static_handler_def andthenM_run load_str_at malloc_run Let_def
        static_path_def [symmetric] h_def)
qed

section \<open>Ownership of middleware lists\<close>

definition mws_ptrs :: "ServerMiddlewares \<Rightarrow> ptr list" where
  "mws_ptrs mws = map mw_name (mws_list mws) @ [mws_array mws, mws_self mws]"

definition mws_ok :: "heap \<Rightarrow> ServerMiddlewares \<Rightarrow> bool" where
  "mws_ok h mws \<longleftrightarrow> owned h (mws_ptrs mws) \<and> (\<exists>a. mws_self mws = Addr a) \<and>
     list_all (\<lambda>m. str_at h (mw_name m) \<noteq> None) (mws_list mws)"

definition names_view :: "heap \<Rightarrow> ServerMiddlewares \<Rightarrow> string option list" where
  "names_view h mws = map (\<lambda>m. str_at h (mw_name m)) (mws_list mws)"

lemma mws_destroy_free_all: "server_middlewares_destroy mws = free_all (mws_ptrs mws)"
proof -
  have "free_names ms = free_all (map mw_name ms)" for ms by (induction ms) simp_all
  then show ?thesis by (simp add: server_middlewares_destroy_def mws_ptrs_def free_all_append)
qed

lemma mws_add_ok:
  assumes "mws_ok (hp w) mws"
  shows "\<exists>mws' h. server_middlewares_add mws (Lit s) f w = Inr (mws', w\<lparr>hp := h\<rparr>) \<and> mws_ok h mws' \<and>
    map mw_handler (mws_list mws') = map mw_handler (mws_list mws) @ [f] \<and>
    names_view h mws' = names_view (hp w) mws @ [Some s] \<and>
    transfer (hp w) (mws_ptrs mws) h (mws_ptrs mws')"
proof -
  let ?g = "frees (addrs [mws_array mws]) (hp w)" and ?l = "length (hp w)"
  let ?h = "?g @ [Some Struct, Some (Bytes s)]"
  let ?rest = "map mw_name (mws_list mws) @ [mws_self mws]"
  let ?mws = "mws\<lparr>mws_array := Addr ?l,
      mws_list := mws_list mws @ [\<lparr>mw_name = Addr (?l + 1), mw_handler = f\<rparr>]\<rparr>"
  obtain a where self: "mws_self mws = Addr a" using assms by (auto simp: mws_ok_def)
  have own: "owned (hp w) ([mws_array mws] @ ?rest)"
    using assms by (cases "mws_array mws") (auto simp: mws_ok_def mws_ptrs_def owned_def)
  then have arr: "owned (hp w) [mws_array mws]"
    by (cases "mws_array mws") (auto simp: owned_def)
  have t0: "transfer (hp w) [mws_array mws] ?h [Addr ?l, Addr (?l + 1)]"
    using transfer_append [OF transfer_frees [OF arr], of "[Some Struct, Some (Bytes s)]"] by simp
  then have t: "transfer (hp w) ([mws_array mws] @ ?rest) ?h ([Addr ?l, Addr (?l + 1)] @ ?rest)"
    using owned_apart [OF own] by (rule transfer_frame)
  then have t1: "transfer (hp w) (mws_ptrs mws) ?h (mws_ptrs ?mws)"
    by (rule transfer_same) (auto simp: mws_ptrs_def)
  have "owned ?h [Addr ?l, Addr (?l + 1)]" by (auto simp: owned_def live_def nth_append)
  from owned_frame [OF t0 own this] have own1: "owned ?h (mws_ptrs ?mws)"
    by (auto simp: owned_def mws_ptrs_def self)
  have strs: "str_at ?h (mw_name m) = str_at (hp w) (mw_name m)" if m: "m \<in> set (mws_list mws)" for m
  proof -
    obtain n where n: "str_at (hp w) (mw_name m) = Some n"
      using assms m by (auto simp: mws_ok_def list_all_iff)
    have "mw_name m \<notin> set [mws_array mws]"
    proof (cases "mw_name m")
      case (Addr b)
      then have "Addr b \<in> set ?rest" using m by force
      from owned_apart [OF own this] show ?thesis using Addr by simp
    next
      case (Lit l)
      then show ?thesis using arr by (cases "mws_array mws") (auto simp: owned_def)
    qed (use n in simp)
    from transfer_str_at [OF t0 n this] show ?thesis using n by simp
  qed
  have new: "str_at ?h (Addr (?l + 1)) = Some s" by (simp add: nth_append)
  have "mws_ok ?h ?mws" using assms own1 strs new by (auto simp: mws_ok_def list_all_iff)
  moreover have "names_view ?h ?mws = names_view (hp w) mws @ [Some s]"
    using strs new by (simp add: names_view_def)
  moreover have "server_middlewares_add mws (Lit s) f w = Inr (?mws, w\<lparr>hp := ?h\<rparr>)"
    by (subst add_run [OF arr, of "w\<lparr>hp := ?g\<rparr>"]) simp_all
  ultimately show ?thesis using t1 by (intro exI [of _ ?mws] exI [of _ ?h]) simp
qed

fun add_all :: "(string \<times> handler) list \<Rightarrow> ServerMiddlewares \<Rightarrow> (world, ServerMiddlewares) prog" where
  "add_all [] mws = return mws"
| "add_all ((n, f) # ps) mws = andthenM (server_middlewares_add mws (Lit n) f) (\<lambda>mws. add_all ps mws)"

lemma mws_add_all_ok:
  assumes "mws_ok (hp w) mws"
  shows "\<exists>mws' h. add_all ps mws w = Inr (mws', w\<lparr>hp := h\<rparr>) \<and> mws_ok h mws' \<and>
    map mw_handler (mws_list mws') = map mw_handler (mws_list mws) @ map snd ps \<and>
    names_view h mws' = names_view (hp w) mws @ map (\<lambda>(n, f). Some n) ps \<and>
    transfer (hp w) (mws_ptrs mws) h (mws_ptrs mws')"
  using assms
proof (induction ps arbitrary: mws w)
  case Nil
  then show ?case
    by (intro exI [of _ mws] exI [of _ "hp w"]) (simp add: transfer_owned_refl mws_ok_def)
next
  case (Cons nf ps)
  obtain n f where nf: "nf = (n, f)" by fastforce
  obtain m1 h1 where 1: "server_middlewares_add mws (Lit n) f w = Inr (m1, w\<lparr>hp := h1\<rparr>)" "mws_ok h1 m1"
      "map mw_handler (mws_list m1) = map mw_handler (mws_list mws) @ [f]"
      "names_view h1 m1 = names_view (hp w) mws @ [Some n]" "transfer (hp w) (mws_ptrs mws) h1 (mws_ptrs m1)"
    using mws_add_ok [OF Cons.prems, of n f] by blast
  obtain m2 h2 where 2: "add_all ps m1 (w\<lparr>hp := h1\<rparr>) = Inr (m2, w\<lparr>hp := h2\<rparr>)" "mws_ok h2 m2"
      "map mw_handler (mws_list m2) = map mw_handler (mws_list m1) @ map snd ps"
      "names_view h2 m2 = names_view h1 m1 @ map (\<lambda>(n, f). Some n) ps" "transfer h1 (mws_ptrs m1) h2 (mws_ptrs m2)"
    using Cons.IH [of "w\<lparr>hp := h1\<rparr>" m1] 1(2) by auto
  show ?case
    by (intro exI [of _ m2] exI [of _ h2])
      (use 1 2 transfer_trans [OF 1(5) 2(5)] in \<open>simp add: nf andthenM_run\<close>)
qed

section \<open>Numbering of requests\<close>

fun log_requests :: "Request list \<Rightarrow> Response \<Rightarrow> (world, unit) prog" where
  "log_requests [] rs = return ()"
| "log_requests (rq # rqs) rs = andthenM (middleware_logger_handler rq rs) (\<lambda>_. log_requests rqs rs)"

text \<open>The line of request \<open>i\<close> in a sequence that starts in \<open>w\<close>.\<close>

definition log_event :: "world \<Rightarrow> nat \<Rightarrow> Request \<Rightarrow> event" where
  "log_event w i rq = Stdout (log_line (global_request_id w + of_nat i) (clock w (ticks w + i))
     (the (str_at (hp w) (rq_method rq))) (the (str_at (hp w) (rq_path rq))))"

lemma log_requests_run:
  assumes "list_all (request_ok (hp w)) rqs"
  shows "log_requests rqs rs w =
    Inr ((), w\<lparr>events := events w @ map (\<lambda>i. log_event w i (rqs ! i)) [0..<length rqs],
               global_request_id := global_request_id w + of_nat (length rqs),
               ticks := ticks w + length rqs\<rparr>)"
  using assms
proof (induction rqs arbitrary: w)
  case (Cons rq rqs)
  let ?w = "w\<lparr>events := events w @ [log_event w 0 rq],
      global_request_id := global_request_id w + 1, ticks := ticks w + 1\<rparr>"
  have step: "middleware_logger_handler rq rs w = Inr ((True, rs), ?w)"
    using logger_run [of w rq rs] Cons.prems by (simp add: log_event_def)
  have shift: "log_event (w\<lparr>events := es, global_request_id := 1 + global_request_id w, ticks := Suc (ticks w)\<rparr>) i r =
      log_event w (Suc i) r" for es i r by (simp add: log_event_def ac_simps)
  have "map (\<lambda>i. log_event w i ((rq # rqs) ! i)) [0..<length (rq # rqs)] =
      log_event w 0 rq # map (\<lambda>i. log_event w (Suc i) (rqs ! i)) [0..<length rqs]"
    by (simp add: upt_conv_Cons map_Suc_upt [symmetric] comp_def del: upt_Suc)
  then show ?case
    using step Cons.IH [of ?w] Cons.prems by (simp add: andthenM_run shift ac_simps del: upt_Suc)
qed simp

section \<open>Properties of middlewares\<close>

text \<open>
  C23. A middleware list keeps every handler with its name in the order of registration, and
  creating it, filling it and destroying it leaves exactly the blocks that were allocated before.
\<close>

theorem middlewares_in_order_no_leak:
  "\<exists>mws w1 w2. andthenM server_middlewares_create (add_all ps) w = Inr (mws, w1) \<and>
     map mw_handler (mws_list mws) = map snd ps \<and>
     names_view (hp w1) mws = map (\<lambda>(n, f). Some n) ps \<and>
     server_middlewares_destroy mws w1 = Inr ((), w2) \<and> transfer (hp w) [] (hp w2) []"
proof -
  let ?m0 = "\<lparr>mws_self = Addr (length (hp w)), mws_array = NULL, mws_list = []\<rparr>"
  let ?w0 = "w\<lparr>hp := hp w @ [Some Struct]\<rparr>"
  have 0: "server_middlewares_create w = Inr (?m0, ?w0)" "mws_ok (hp ?w0) ?m0"
    by (simp_all add: server_middlewares_create_def andthenM_run malloc_run mws_ok_def owned_def mws_ptrs_def)
  obtain m h where 1: "add_all ps ?m0 ?w0 = Inr (m, w\<lparr>hp := h\<rparr>)" "mws_ok h m"
      "map mw_handler (mws_list m) = map snd ps" "names_view h m = map (\<lambda>(n, f). Some n) ps"
      "transfer (hp w @ [Some Struct]) (mws_ptrs ?m0) h (mws_ptrs m)"
    using mws_add_all_ok [OF 0(2), of ps] by (auto simp: names_view_def)
  have own: "owned h (mws_ptrs m)" using 1(2) by (simp add: mws_ok_def)
  have "transfer (hp w) [] (hp w @ [Some Struct]) (mws_ptrs ?m0)"
    by (rule transfer_same [OF transfer_malloc]) (auto simp: mws_ptrs_def)
  from transfer_trans [OF transfer_trans [OF this 1(5)] transfer_frees [OF own]]
  have "transfer (hp w) [] (frees (addrs (mws_ptrs m)) h) []" .
  then show ?thesis
    using 0(1) 1 free_all_owned [of "w\<lparr>hp := h\<rparr>" "mws_ptrs m"] own
    by (intro exI [of _ m] exI [of _ "w\<lparr>hp := h\<rparr>"] exI [of _ "w\<lparr>hp := frees (addrs (mws_ptrs m)) h\<rparr>"])
      (simp add: andthenM_run mws_destroy_free_all)
qed

text \<open>
  C25. The static file handler never opens a file outside of names that begin with
  \<^verbatim>\<open>public\<close> and contain no \<^verbatim>\<open>..\<close>: two file systems that agree on those names are
  indistinguishable for it, whatever the request.
\<close>

theorem static_no_traversal:
  assumes "\<And>n. take 6 n = ''public'' \<Longrightarrow> \<not> strstr n ''..'' \<Longrightarrow> files n = files' n"
  shows "middleware_static_handler files rq rs w = middleware_static_handler files' rq rs w"
proof -
  have "files (''public'' @ q) = files' (''public'' @ q)" if "\<not> strstr (''public'' @ q) ''..''" for q
    by (rule assms) (use that in simp_all)
  then show ?thesis
    unfolding middleware_static_handler_def andthenM_run Let_def
    by (intro arg_cong2 [where f = andthen] refl ext) (auto simp: andthenM_run malloc_run)
qed

definition sample_request :: Request where
  "sample_request = \<lparr>rq_self = NULL, rq_method = Lit ''GET'', rq_path = Lit ''/../secret'',
     rq_headers = \<lparr>hs_self = NULL, hs_array = NULL, hs_fields = []\<rparr>, rq_body = NULL\<rparr>"

definition sample_files :: "string \<Rightarrow> string option" where
  "sample_files n = (if n = ''public/a.css'' then Some ''x'' else None)"

theorem static_no_traversal_witness:
  "middleware_static_handler sample_files sample_request big_response big_world =
   middleware_static_handler (sample_files(''/etc/passwd'' \<mapsto> ''root'')) sample_request big_response big_world"
  by (rule static_no_traversal) auto

text \<open>
  C36. A refused or missing static file crashes the worker: the handler stores a string literal as
  the body of the response, and \<^verbatim>\<open>response_destroy\<close> frees it.
\<close>

theorem static_error_body_not_freeable:
  assumes "str_at (hp w) (rq_path rq) = Some p" "response_ok (hp w) rs"
    "strstr (''public'' @ static_path p) ''..'' \<or> files (''public'' @ static_path p) = None"
  shows "\<exists>rs' w'. middleware_static_handler files rq rs w = Inr ((True, rs'), w') \<and>
    response_destroy rs' w' = Inl InvalidFree"
proof -
  let ?w = "w\<lparr>hp := hp w @ [Some (Bytes (''public'' @ static_path p))]\<rparr>"
  obtain status msg where run: "middleware_static_handler files rq rs w =
      Inr ((True, rs\<lparr>rs_status := status, rs_body := Lit msg\<rparr>), ?w)"
    using static_error_run [of w rq p files rs] assms(1,3) by blast
  have "headers_ok (hp ?w) (rs_headers rs)"
    using headers_ok_append(1) assms(2) by (simp add: response_ok_def)
  from headers_destroy_run(1) [OF this] show ?thesis
    using run by (simp add: response_destroy_def andthenM_run)
qed

theorem static_error_body_not_freeable_witness:
  "\<exists>rs w rs' w'. response_create sample_world = Inr (rs, w) \<and>
     middleware_static_handler sample_files sample_request rs w = Inr ((True, rs'), w') \<and>
     response_destroy rs' w' = Inl InvalidFree"
proof -
  obtain rs w where c: "response_create sample_world = Inr (rs, w)" by (simp add: response_create_run)
  have "str_at (hp w) (rq_path sample_request) = Some ''/../secret''" by (simp add: sample_request_def)
  moreover have "strstr (''public'' @ static_path ''/../secret'') ''..''" by code_simp
  ultimately show ?thesis
    using static_error_body_not_freeable [OF _ response_create_ok(1) [OF c]] c by blast
qed

text \<open>
  Asking for an existing file whose path contains no dot makes the static file handler
  pass a null pointer to \<^verbatim>\<open>strcmp\<close>.
\<close>

theorem static_no_extension_crashes:
  assumes "str_at (hp w) (rq_path rq) = Some p" "CHR ''.'' \<notin> set p" "p \<noteq> ''/''"
    "files (''public'' @ p) = Some bytes"
  shows "middleware_static_handler files rq rs w = Inl NullDeref"
proof -
  have "strrchr q (CHR ''.'') = None" if "CHR ''.'' \<notin> set q" for q using that by (induction q) auto
  moreover have "\<not> strstr q ''..''" if "CHR ''.'' \<notin> set q" for q
    using that by (induction q) (auto simp: take_Cons' split: if_splits)
  ultimately show ?thesis
    using assms by (simp add: middleware_static_handler_def andthenM_run load_str_at malloc_run Let_def)
qed

theorem static_no_extension_crashes_witness:
  "middleware_static_handler (\<lambda>n. Some ''x'') (sample_request\<lparr>rq_path := Lit ''/readme''\<rparr>) big_response big_world =
   Inl NullDeref"
  by (rule static_no_extension_crashes [of _ _ "''/readme''"]) simp_all

text \<open>
  C26. Serving an existing file opens it as the stream of the response and adds its content type,
  with an empty type for an unknown extension; every request leaks one block, the name of the
  file.
\<close>

theorem static_serves_file_and_leaks_name:
  assumes "str_at (hp w) (rq_path rq) = Some p" "response_ok (hp w) rs"
    "\<not> strstr (''public'' @ static_path p) ''..''" "files (''public'' @ static_path p) = Some bytes"
    "strrchr (static_path p) (CHR ''.'') = Some ext"
  shows "\<exists>rs' w' f name. middleware_static_handler files rq rs w = Inr ((True, rs'), w') \<and>
    rs_body_stream rs' = Some f \<and> fl_rest f = bytes \<and> response_ok (hp w') rs' \<and>
    headers_view (hp w') (rs_headers rs') =
      headers_view (hp w) (rs_headers rs) @ [(lower ''Content-Type'', content_type ext)] \<and>
    str_at (hp w') name = Some (''public'' @ static_path p) \<and>
    transfer (hp w) (response_ptrs rs) (hp w') (response_ptrs rs' @ [fl_self f, name])"
proof -
  let ?full = "''public'' @ static_path p" and ?l = "length (hp w)"
  let ?h = "hp w @ [Some (Bytes ?full), Some Struct]"
  let ?f = "\<lparr>fl_self = Addr (?l + 1), fl_rest = bytes\<rparr>"
  let ?rs = "rs\<lparr>rs_body_stream := Some ?f, rs_headers := set_result ?h (rs_headers rs)\<rparr>"
  let ?h' = "set_heap ?h (rs_headers rs) ''Content-Type'' (content_type ext)"
  have ok: "response_ok ?h rs" by (rule response_frame_append(1) [OF assms(2)])
  note set1 = set_header_ok [OF ok, where n = "''Content-Type''" and v = "content_type ext"]
  have same: "response_ptrs ?rs = response_ptrs (rs\<lparr>rs_headers := set_result ?h (rs_headers rs)\<rparr>)"
      "response_ok ?h' ?rs = response_ok ?h' (rs\<lparr>rs_headers := set_result ?h (rs_headers rs)\<rparr>)"
    by (simp_all add: response_ptrs_def response_ok_def)
  have old: "a \<in> live (hp w)" if "Addr a \<in> set (response_ptrs rs)" for a
    using response_ptr_live [OF assms(2) that] .
  have "transfer (hp w) [] ?h [Addr ?l, Addr (?l + 1)]"
    using transfer_append [OF transfer_refl [of "hp w"], of "[Some (Bytes ?full), Some Struct]"] by simp
  from transfer_frame_left [OF this, of "response_ptrs rs"] old
  have "transfer (hp w) (response_ptrs rs @ []) ?h (response_ptrs rs @ [Addr ?l, Addr (?l + 1)])" by simp
  then have t1: "transfer (hp w) (response_ptrs rs) ?h (response_ptrs rs @ [Addr (?l + 1), Addr ?l])"
    by (rule transfer_same) auto
  have new: "a \<in> live ?h \<and> Addr a \<notin> set (response_ptrs rs)" if "Addr a \<in> set [Addr (?l + 1), Addr ?l]" for a
  proof -
    have "a = ?l \<or> a = ?l + 1" using that by auto
    then have "a \<in> live ?h" "?l \<le> a" by (auto simp: live_def nth_append)
    then show ?thesis using old [of a] live_less [of a "hp w"] by auto
  qed
  have t2: "transfer ?h (response_ptrs rs @ [Addr (?l + 1), Addr ?l]) ?h' (response_ptrs ?rs @ [Addr (?l + 1), Addr ?l])"
    unfolding same(1) by (rule transfer_frame [OF set1(2) new])
  have "str_at ?h (Addr ?l) = Some ?full" by (simp add: nth_append)
  from transfer_str_at [OF set1(2) this] new [of ?l] have name: "str_at ?h' (Addr ?l) = Some ?full" by simp
  have view: "headers_view ?h (rs_headers rs) = headers_view (hp w) (rs_headers rs)"
    using headers_ok_append(2) assms(2) by (simp add: response_ok_def)
  show ?thesis
    by (intro exI [of _ ?rs] exI [of _ "w\<lparr>hp := ?h'\<rparr>"] exI [of _ ?f] exI [of _ "Addr ?l"])
      (use static_file_run [of w rq p rs files bytes ext, OF assms] set1(1) [folded same(2)] set1(3) name transfer_trans [OF t1 t2] view in simp)
qed

theorem static_serves_file_and_leaks_name_witness:
  "\<exists>rs w rs' w' f. response_create sample_world = Inr (rs, w) \<and>
     middleware_static_handler sample_files (sample_request\<lparr>rq_path := Lit ''/a.css''\<rparr>) rs w =
       Inr ((True, rs'), w') \<and>
     rs_body_stream rs' = Some f \<and> fl_rest f = ''x''"
proof -
  obtain rs w where c: "response_create sample_world = Inr (rs, w)" by (simp add: response_create_run)
  have eval: "static_path ''/a.css'' = ''/a.css''" "\<not> strstr (''public'' @ static_path ''/a.css'') ''..''"
    "sample_files (''public'' @ static_path ''/a.css'') = Some ''x''"
    "strrchr (static_path ''/a.css'') (CHR ''.'') = Some ''.css''" by code_simp+
  have "str_at (hp w) (rq_path (sample_request\<lparr>rq_path := Lit ''/a.css''\<rparr>)) = Some ''/a.css''" by simp
  from static_serves_file_and_leaks_name [of w _ "''/a.css''" rs sample_files "''x''" "''.css''",
      OF this response_create_ok(1) [OF c] eval(2-4)] c
  show ?thesis by blast
qed


lemma sample_request_parsed:
  "\<exists>rq w. request_parse (render_request ''GET'' ''/'' ''HTTP/1.1'' [(''Host'', ''a'')] '''' @ [NUL]) sample_world =
     Inr (rq, w) \<and> request_ok (hp w) rq \<and> global_request_id w = 0"
  using request_parse_ok [of "''GET''" "''/''" "''HTTP/1.1''" "[(''Host'', ''a'')]" "''''" "[]" sample_world]
  by (fastforce simp: req_ok_defs c_char_defs sample_world_def)


end
