(* ===== verification/SafeQueue.thy ===== *)
theory SafeQueue
  imports Prelude
begin

text \<open>
  The thread-safe queue of \<^verbatim>\<open>src/queue.h\<close> and \<^verbatim>\<open>src/queue.c\<close>: a ring buffer in a
  heap array with a mutex. The operations are the C functions as one thread executes them;
  a second \<^verbatim>\<open>pthread_mutex_lock\<close> by the holder is \<^const>\<open>Deadlock\<close>, and the wait of
  \<^verbatim>\<open>safe_queue_dequeue\<close> on an empty queue is \<^const>\<open>WouldBlock\<close>.
\<close>

section \<open>State\<close>

text \<open>A slot of the \<^verbatim>\<open>void**\<close> array: \<^verbatim>\<open>malloc\<close> leaves it uninitialised.\<close>

datatype 'a slot = Uninit | Item 'a

record 'a SafeQueue =
  qdata :: "'a slot list"
  qsize :: nat
  qcapacity :: nat
  qfront :: nat
  qrear :: nat
  qlocked :: bool

definition INITIAL_CAPACITY :: nat where
  "INITIAL_CAPACITY = 128"

text \<open>\<^verbatim>\<open>malloc(sizeof(void*) * n)\<close>: the byte count is a \<^verbatim>\<open>size_t\<close> and may wrap.\<close>

definition malloc_slots :: "nat \<Rightarrow> 'a slot list" where
  "malloc_slots n = replicate (szt (8 * n) div 8) Uninit"

section \<open>Operations\<close>

definition safe_queue_create :: "'a SafeQueue" where
  "safe_queue_create =
     \<lparr>qdata = malloc_slots INITIAL_CAPACITY, qsize = 0, qcapacity = INITIAL_CAPACITY,
      qfront = 0, qrear = 0, qlocked = False\<rparr>"

definition mutex_lock :: "'a SafeQueue \<Rightarrow> 'a SafeQueue res" where
  "mutex_lock q = (if qlocked q then Inl Deadlock else Inr (q\<lparr>qlocked := True\<rparr>))"

definition mutex_unlock :: "'a SafeQueue \<Rightarrow> 'a SafeQueue" where
  "mutex_unlock q = q\<lparr>qlocked := False\<rparr>"

text \<open>The index step \<^verbatim>\<open>(i + 1) % queue->capacity\<close>.\<close>

definition next_index :: "nat \<Rightarrow> nat \<Rightarrow> nat res" where
  "next_index i cap = (if cap = 0 then Inl DivByZero else Inr (szt (i + 1) mod cap))"

text \<open>The copy loop of \<^verbatim>\<open>safe_queue_resize\<close>: \<open>i\<close> runs from front to rear, \<open>j\<close> counts up.\<close>

function resize_loop ::
  "'a slot list \<Rightarrow> nat \<Rightarrow> nat \<Rightarrow> nat \<Rightarrow> 'a slot list \<Rightarrow> nat \<Rightarrow> 'a slot list res" where
  "resize_loop data cap rear i new_data j =
     (if i = rear then Inr new_data
      else if i \<ge> length data \<or> j \<ge> length new_data then Inl OutOfBounds
      else if cap = 0 then Inl DivByZero
      else resize_loop data cap rear (szt (i + 1) mod cap) (new_data[j := data ! i]) (Suc j))"
  by pat_completeness auto
termination
  by (relation "measure (\<lambda>(data, cap, rear, i, new_data, j). length new_data - j)") auto

declare resize_loop.simps [simp del]

definition safe_queue_resize :: "'a SafeQueue \<Rightarrow> nat \<Rightarrow> 'a SafeQueue res" where
  "safe_queue_resize q new_capacity =
     andthen (mutex_lock q) (\<lambda>q.
     andthen (resize_loop (qdata q) (qcapacity q) (qrear q) (qfront q)
                (malloc_slots new_capacity) 0) (\<lambda>new_data.
     Inr (mutex_unlock (q\<lparr>qdata := new_data, qfront := 0, qrear := qsize q,
                          qcapacity := new_capacity\<rparr>))))"

text \<open>
  \<^verbatim>\<open>safe_queue_enqueue\<close> has two parts: the test for a full queue, made without the mutex,
  with the resize it may call; and the insertion under the mutex.
\<close>

definition enqueue_reserve :: "'a SafeQueue \<Rightarrow> 'a SafeQueue res" where
  "enqueue_reserve q =
     (if qsize q = qcapacity q then safe_queue_resize q (szt (qcapacity q * 2)) else Inr q)"

definition enqueue_insert :: "'a SafeQueue \<Rightarrow> 'a \<Rightarrow> 'a SafeQueue res" where
  "enqueue_insert q item =
     andthen (mutex_lock q) (\<lambda>q.
     if qrear q \<ge> length (qdata q) then Inl OutOfBounds
     else
       andthen (next_index (qrear q) (qcapacity q)) (\<lambda>r.
       Inr (mutex_unlock (q\<lparr>qdata := (qdata q)[qrear q := Item item], qrear := r,
                            qsize := szt (qsize q + 1)\<rparr>))))"

definition safe_queue_enqueue :: "'a SafeQueue \<Rightarrow> 'a \<Rightarrow> 'a SafeQueue res" where
  "safe_queue_enqueue q item = andthen (enqueue_reserve q) (\<lambda>q. enqueue_insert q item)"

text \<open>
  \<^verbatim>\<open>safe_queue_dequeue\<close> returns the slot at the front, initialised or not, and calls
  \<^verbatim>\<open>safe_queue_resize\<close> with the mutex held when a quarter of the capacity is left.
\<close>

definition safe_queue_dequeue :: "'a SafeQueue \<Rightarrow> ('a slot \<times> 'a SafeQueue) res" where
  "safe_queue_dequeue q =
     andthen (mutex_lock q) (\<lambda>q.
     if qsize q = 0 then Inl WouldBlock
     else if qfront q \<ge> length (qdata q) then Inl OutOfBounds
     else
       let item = qdata q ! qfront q in
       andthen (next_index (qfront q) (qcapacity q)) (\<lambda>f.
       let q = q\<lparr>qfront := f, qsize := qsize q - 1\<rparr> in
       andthen
         (if qsize q > 0 \<and> qsize q = qcapacity q div 4
          then safe_queue_resize q (qcapacity q div 2) else Inr q) (\<lambda>q.
       Inr (item, mutex_unlock q))))"

definition safe_queue_destroy :: "'a SafeQueue \<Rightarrow> unit res" where
  "safe_queue_destroy q = andthen (mutex_lock q) (\<lambda>q. Inr ())"

section \<open>Abstraction and invariant\<close>

text \<open>The pending items, oldest first.\<close>

definition contents :: "'a SafeQueue \<Rightarrow> 'a slot list" where
  "contents q = map (\<lambda>k. qdata q ! ((qfront q + k) mod qcapacity q)) [0..<qsize q]"

definition queue_inv :: "'a SafeQueue \<Rightarrow> bool" where
  "queue_inv q \<longleftrightarrow>
     0 < qcapacity q \<and> qcapacity q < 2 ^ 60 \<and> length (qdata q) = qcapacity q \<and>
     qfront q < qcapacity q \<and> qsize q \<le> qcapacity q \<and>
     qrear q = (qfront q + qsize q) mod qcapacity q \<and> \<not> qlocked q"

lemmas queue_op_defs = mutex_lock_def mutex_unlock_def next_index_def

lemma length_contents [simp]: "length (contents q) = qsize q"
  by (simp add: contents_def)

lemma contents_nth: "k < qsize q \<Longrightarrow>
    contents q ! k = qdata q ! ((qfront q + k) mod qcapacity q)"
  by (simp add: contents_def)

lemma malloc_slots_eq [simp]: "n < 2 ^ 61 \<Longrightarrow> malloc_slots n = replicate n Uninit"
  by (simp add: malloc_slots_def)

lemma next_index_mod [simp]:
  "i < cap \<Longrightarrow> cap < 2 ^ 60 \<Longrightarrow> next_index i cap = Inr (Suc i mod cap)"
  by (simp add: next_index_def)

lemma queue_inv_create: "queue_inv safe_queue_create"
  by (simp add: queue_inv_def safe_queue_create_def INITIAL_CAPACITY_def)

lemma contents_create: "contents safe_queue_create = []"
  by (simp add: contents_def safe_queue_create_def)

section \<open>The copy loop\<close>

text \<open>
  From the \<open>m\<close>-th pending item on, the loop copies the remaining items in order behind what
  it has copied already, as long as the ring is not full.
\<close>

lemma resize_loop_copies:
  assumes "length data = cap" "0 < cap" "cap < 2 ^ 60" "n < cap" "n \<le> length nd"
    and "rear = (f + n) mod cap" "m \<le> n"
  shows "resize_loop data cap rear ((f + m) mod cap) nd m =
         Inr (take m nd @ map (\<lambda>k. data ! ((f + k) mod cap)) [m..<n] @ drop n nd)"
  using assms(5-)
proof (induction "n - m" arbitrary: m nd)
  case 0
  then show ?case by (simp add: resize_loop.simps)
next
  case (Suc d)
  let ?i = "(f + m) mod cap"
  from Suc.hyps(2) have mn: "m < n" by simp
  have i: "?i < cap" using assms(2) by simp
  have "?i \<noteq> rear"
    using mod_add_inj [of f m cap n] Suc.prems(2) mn assms(4) by auto
  moreover have "szt (?i + 1) mod cap = (f + Suc m) mod cap"
    using i assms(3) by (simp add: mod_Suc_eq)
  ultimately have step: "resize_loop data cap rear ?i nd m =
      resize_loop data cap rear ((f + Suc m) mod cap) (nd[m := data ! ?i]) (Suc m)"
    using Suc.prems(1) mn assms(1,2) i by (subst resize_loop.simps) simp
  have "take (Suc m) (nd[m := data ! ?i]) = take m nd @ [data ! ?i]"
    using Suc.prems(1) mn by (simp add: take_Suc_conv_app_nth)
  moreover have "[m..<n] = m # [Suc m..<n]" using mn by (simp add: upt_conv_Cons)
  ultimately show ?case
    unfolding step using Suc.hyps(1) [of "Suc m" "nd[m := data ! ?i]"] Suc.hyps(2) Suc.prems mn
    by simp
qed

lemma resize_loop_from_front:
  assumes "length data = cap" "0 < cap" "cap < 2 ^ 60" "n < cap" "n \<le> length nd" "f < cap"
  shows "resize_loop data cap ((f + n) mod cap) f nd 0 =
         Inr (map (\<lambda>k. data ! ((f + k) mod cap)) [0..<n] @ drop n nd)"
  using resize_loop_copies [OF assms(1-5) refl, of 0 f] assms(6) by simp

lemma resize_loop_full: "resize_loop data cap f f nd j = Inr nd"
  by (simp add: resize_loop.simps)

text \<open>Growing or shrinking a queue that is not full.\<close>

lemma resize_ok:
  assumes "queue_inv q" "qsize q < qcapacity q" "qsize q < n" "n < 2 ^ 60"
  shows "safe_queue_resize q n =
    Inr (q\<lparr>qdata := contents q @ replicate (n - qsize q) Uninit, qfront := 0,
           qrear := qsize q, qcapacity := n, qlocked := False\<rparr>)"
  using assms
  by (simp add: safe_queue_resize_def queue_inv_def queue_op_defs resize_loop_from_front
      contents_def)

text \<open>A full queue has front and rear at the same index, so the loop copies nothing.\<close>

lemma resize_full:
  assumes "queue_inv q" "qsize q = qcapacity q" "n < 2 ^ 60"
  shows "safe_queue_resize q n =
    Inr (q\<lparr>qdata := replicate n Uninit, qfront := 0, qrear := qsize q, qcapacity := n,
           qlocked := False\<rparr>)"
  using assms by (simp add: safe_queue_resize_def queue_inv_def queue_op_defs resize_loop_full)

lemma contents_packed:
  assumes "qfront q = 0" "qsize q = length xs" "length xs \<le> qcapacity q" "qdata q = xs @ ys"
  shows "contents q = xs"
  using assms by (intro nth_equalityI) (auto simp: contents_nth nth_append)

section \<open>Enqueue and dequeue on the ring\<close>

lemma ring_slot_free:
  assumes "queue_inv q" "qsize q < qcapacity q" "k < qsize q"
  shows "(qfront q + k) mod qcapacity q \<noteq> qrear q"
  using assms mod_add_inj [of "qfront q" k "qcapacity q" "qsize q"]
  by (auto simp: queue_inv_def)

lemma enqueue_insert_ok:
  assumes "queue_inv q" "qsize q < qcapacity q"
  shows "\<exists>q'. enqueue_insert q x = Inr q' \<and> queue_inv q' \<and>
              contents q' = contents q @ [Item x] \<and> qcapacity q' = qcapacity q"
proof -
  let ?q = "q\<lparr>qdata := (qdata q)[qrear q := Item x], qrear := Suc (qrear q) mod qcapacity q,
              qsize := Suc (qsize q)\<rparr>"
  from assms(1) have inv: "0 < qcapacity q" "qcapacity q < 2 ^ 60" "length (qdata q) = qcapacity q"
      "qfront q < qcapacity q" "qrear q = (qfront q + qsize q) mod qcapacity q" "\<not> qlocked q"
    by (auto simp: queue_inv_def)
  have rear: "qrear q < qcapacity q" using inv by simp
  then have run: "enqueue_insert q x = Inr ?q"
    using inv(2,3,6) assms(2) by (simp add: enqueue_insert_def queue_op_defs)
  have "contents ?q = contents q @ [Item x]"
  proof (rule nth_equalityI)
    fix k assume "k < length (contents ?q)"
    then consider "k < qsize q" | "k = qsize q" by fastforce
    then show "contents ?q ! k = (contents q @ [Item x]) ! k"
    proof cases
      case 1
      then show ?thesis
        using ring_slot_free [OF assms 1] by (simp add: contents_nth nth_append)
    next
      case 2
      then show ?thesis using inv rear by (simp add: contents_nth nth_append)
    qed
  qed simp
  moreover have "queue_inv ?q"
    using inv assms(2) by (auto simp: queue_inv_def mod_Suc_eq)
  ultimately show ?thesis using run by auto
qed

lemma enqueue_ok:
  assumes "queue_inv q" "qsize q < qcapacity q"
  shows "\<exists>q'. safe_queue_enqueue q x = Inr q' \<and> queue_inv q' \<and>
              contents q' = contents q @ [Item x] \<and> qcapacity q' = qcapacity q"
  using enqueue_insert_ok [OF assms] assms(2)
  by (simp add: safe_queue_enqueue_def enqueue_reserve_def)

lemma enqueue_full:
  assumes "queue_inv q" "qsize q = qcapacity q" "qcapacity q < 2 ^ 59"
  shows "\<exists>q'. safe_queue_enqueue q x = Inr q' \<and> queue_inv q' \<and>
              contents q' = replicate (qsize q) Uninit @ [Item x] \<and>
              qcapacity q' = 2 * qcapacity q"
proof -
  let ?r = "q\<lparr>qdata := replicate (2 * qcapacity q) Uninit, qfront := 0, qrear := qsize q,
              qcapacity := 2 * qcapacity q, qlocked := False\<rparr>"
  have res: "enqueue_reserve q = Inr ?r"
    using assms resize_full [OF assms(1,2), of "2 * qcapacity q"]
    by (simp add: enqueue_reserve_def mult.commute)
  have inv: "queue_inv ?r" and size: "qsize ?r < qcapacity ?r"
    using assms by (auto simp: queue_inv_def)
  have "contents ?r = replicate (qsize q) Uninit"
    using assms(2) by (intro contents_packed [where ys = "replicate (qsize q) Uninit"])
      (auto simp flip: replicate_add)
  with enqueue_insert_ok [OF inv size, of x] res show ?thesis
    by (auto simp: safe_queue_enqueue_def)
qed

text \<open>The state after the item has been taken and before the test for shrinking.\<close>

lemma dequeue_front:
  assumes "queue_inv q" "0 < qsize q"
  defines "q' \<equiv> q\<lparr>qfront := Suc (qfront q) mod qcapacity q, qsize := qsize q - 1\<rparr>"
  shows "qdata q ! qfront q = hd (contents q)" "contents q' = tl (contents q)" "queue_inv q'"
proof -
  from assms(1) have inv: "0 < qcapacity q" "qfront q < qcapacity q" by (auto simp: queue_inv_def)
  have "hd (contents q) = contents q ! 0"
    using assms(2) by (metis hd_conv_nth length_contents length_greater_0_conv)
  then show "qdata q ! qfront q = hd (contents q)"
    using assms(2) inv by (simp add: contents_nth)
  show "contents q' = tl (contents q)"
    by (intro nth_equalityI) (simp_all add: q'_def contents_nth nth_tl mod_add_left_eq)
  have "(Suc (qfront q) mod qcapacity q + (qsize q - 1)) mod qcapacity q =
        (qfront q + qsize q) mod qcapacity q"
    using mod_add_left_eq [of "Suc (qfront q)" "qcapacity q" "qsize q - 1"] assms(2) by simp
  then show "queue_inv q'" using assms(1) inv by (auto simp: q'_def queue_inv_def)
qed

lemma dequeue_run:
  assumes "queue_inv q" "0 < qsize q"
  defines "q' \<equiv> q\<lparr>qfront := Suc (qfront q) mod qcapacity q, qsize := qsize q - 1\<rparr>"
  shows "safe_queue_dequeue q =
    (if 1 < qsize q \<and> qsize q - 1 = qcapacity q div 4 then Inl Deadlock
     else Inr (hd (contents q), q'))"
  using assms(1,2) dequeue_front(1) [OF assms(1,2)]
  by (auto simp: safe_queue_dequeue_def safe_queue_resize_def queue_op_defs queue_inv_def q'_def)

lemma dequeue_ok:
  assumes "queue_inv q" "0 < qsize q" "\<not> (1 < qsize q \<and> qsize q - 1 = qcapacity q div 4)"
  shows "\<exists>q'. safe_queue_dequeue q = Inr (hd (contents q), q') \<and> queue_inv q' \<and>
              contents q' = tl (contents q) \<and> qcapacity q' = qcapacity q"
  using dequeue_run [OF assms(1,2)] dequeue_front(2,3) [OF assms(1,2)] assms(3) by auto

lemma dequeue_empty: "queue_inv q \<Longrightarrow> qsize q = 0 \<Longrightarrow> safe_queue_dequeue q = Inl WouldBlock"
  by (simp add: safe_queue_dequeue_def queue_op_defs queue_inv_def)

section \<open>The contract of the queue\<close>

text \<open>
  The abstract state is the list of pending items and the capacity. The contract is exact: it
  also says when a call loses the pending items (enqueue on a full queue) and when it never
  returns (dequeue down to a quarter of the capacity).
\<close>

datatype 'a queue_op = Enq 'a | Deq

fun spec_step :: "'a queue_op \<Rightarrow> ('a slot list \<times> nat, 'a slot list) prog" where
  "spec_step (Enq x) (xs, c) =
     (if length xs = c then Inr ([], replicate c Uninit @ [Item x], 2 * c)
      else Inr ([], xs @ [Item x], c))"
| "spec_step Deq (xs, c) =
     (if xs = [] then Inl WouldBlock
      else if 1 < length xs \<and> length xs - 1 = c div 4 then Inl Deadlock
      else Inr ([hd xs], tl xs, c))"

text \<open>A sequence of calls: the items the dequeues returned and the final state.\<close>

fun run_ops :: "('op \<Rightarrow> ('s, 'r list) prog) \<Rightarrow> 'op list \<Rightarrow> ('s, 'r list) prog" where
  "run_ops step [] s = Inr ([], s)"
| "run_ops step (p # ps) s =
     andthen (step p s) (\<lambda>(r, s). andthen (run_ops step ps s) (\<lambda>(rs, s). Inr (r @ rs, s)))"

fun enqueued :: "'a queue_op list \<Rightarrow> 'a list" where
  "enqueued [] = []"
| "enqueued (Enq x # ps) = x # enqueued ps"
| "enqueued (Deq # ps) = enqueued ps"

text \<open>With \<open>n\<close> pending items: no call finds the queue full, empty or at a quarter plus one.\<close>

fun backlog_ok :: "nat \<Rightarrow> 'a queue_op list \<Rightarrow> bool" where
  "backlog_ok n [] = True"
| "backlog_ok n (Enq x # ps) = (n < 128 \<and> backlog_ok (Suc n) ps)"
| "backlog_ok n (Deq # ps) = (0 < n \<and> n \<noteq> 33 \<and> backlog_ok (n - 1) ps)"

text \<open>One call of a client, on any implementation of the two operations.\<close>

fun queue_step ::
  "('q \<Rightarrow> 'a \<Rightarrow> 'q res) \<Rightarrow> ('q \<Rightarrow> ('a slot \<times> 'q) res) \<Rightarrow> 'a queue_op \<Rightarrow> ('q, 'a slot list) prog"
where
  "queue_step enq deq (Enq x) q = andthen (enq q x) (\<lambda>q. Inr ([], q))"
| "queue_step enq deq Deq q = andthen (deq q) (\<lambda>(r, q). Inr ([r], q))"

definition abs_result ::
  "('q \<Rightarrow> 'a slot list) \<Rightarrow> ('q \<Rightarrow> nat) \<Rightarrow> ('r \<times> 'q) res \<Rightarrow> ('r \<times> 'a slot list \<times> nat) res" where
  "abs_result items cap m = map_sum id (\<lambda>(r, q). (r, items q, cap q)) m"

lemma abs_result_simps [simp]:
  "abs_result items cap (Inl e) = Inl e"
  "abs_result items cap (Inr (r, q)) = Inr (r, items q, cap q)"
  by (simp_all add: abs_result_def)

locale queue_contract =
  fixes empty :: 'q
    and enq :: "'q \<Rightarrow> 'a \<Rightarrow> 'q res"
    and deq :: "'q \<Rightarrow> ('a slot \<times> 'q) res"
    and items :: "'q \<Rightarrow> 'a slot list"
    and cap :: "'q \<Rightarrow> nat"
    and invar :: "'q \<Rightarrow> bool"
  assumes empty: "invar empty" "items empty = []" "cap empty = 128"
    and enq_room: "invar q \<Longrightarrow> length (items q) < cap q \<Longrightarrow>
      \<exists>q'. enq q x = Inr q' \<and> invar q' \<and> items q' = items q @ [Item x] \<and> cap q' = cap q"
    and enq_full: "invar q \<Longrightarrow> length (items q) = cap q \<Longrightarrow> cap q < 2 ^ 59 \<Longrightarrow>
      \<exists>q'. enq q x = Inr q' \<and> invar q' \<and>
           items q' = replicate (cap q) Uninit @ [Item x] \<and> cap q' = 2 * cap q"
    and deq_empty: "invar q \<Longrightarrow> items q = [] \<Longrightarrow> deq q = Inl WouldBlock"
    and deq_quarter: "invar q \<Longrightarrow> 1 < length (items q) \<Longrightarrow>
      length (items q) - 1 = cap q div 4 \<Longrightarrow> deq q = Inl Deadlock"
    and deq_front: "invar q \<Longrightarrow> items q \<noteq> [] \<Longrightarrow>
      \<not> (1 < length (items q) \<and> length (items q) - 1 = cap q div 4) \<Longrightarrow>
      \<exists>q'. deq q = Inr (hd (items q), q') \<and> invar q' \<and> items q' = tl (items q) \<and> cap q' = cap q"
    and bounded: "invar q \<Longrightarrow> length (items q) \<le> cap q"
begin

abbreviation "step \<equiv> queue_step enq deq"

abbreviation "view \<equiv> abs_result items cap"

lemma step_Enq:
  assumes "invar q" "cap q < 2 ^ 59"
  shows "\<exists>q'. step (Enq x) q = Inr ([], q') \<and> invar q' \<and>
              spec_step (Enq x) (items q, cap q) = Inr ([], items q', cap q')"
proof (cases "length (items q) = cap q")
  case True
  with enq_full [OF assms(1) True assms(2), of x] show ?thesis by auto
next
  case False
  then have "length (items q) < cap q" using bounded [OF assms(1)] by simp
  with enq_room [OF assms(1) this, of x] show ?thesis by auto
qed

lemma step_Deq:
  assumes "invar q"
  shows "(\<exists>e. step Deq q = Inl e \<and> spec_step Deq (items q, cap q) = Inl e) \<or>
         (\<exists>q' r. step Deq q = Inr (r, q') \<and> invar q' \<and>
                 spec_step Deq (items q, cap q) = Inr (r, items q', cap q'))"
proof (cases "items q = []")
  case True
  then show ?thesis using deq_empty [OF assms] by simp
next
  case ne: False
  show ?thesis
  proof (cases "1 < length (items q) \<and> length (items q) - 1 = cap q div 4")
    case True
    then show ?thesis using deq_quarter [OF assms] ne by simp
  next
    case False
    then show ?thesis using deq_front [OF assms ne False] ne by auto
  qed
qed

lemma step_simulates:
  assumes "invar q" "cap q < 2 ^ 59"
  shows "view (step p q) = spec_step p (items q, cap q)"
    and "step p q = Inr (r, q') \<Longrightarrow> invar q'"
proof -
  show "view (step p q) = spec_step p (items q, cap q)"
    using step_Enq [OF assms] step_Deq [OF assms(1)] by (cases p) (metis abs_result_simps)+
  show "step p q = Inr (r, q') \<Longrightarrow> invar q'"
    using step_Enq [OF assms] step_Deq [OF assms(1)]
    by (cases p) (metis Inl_Inr_False Inr_inject prod.inject)+
qed

lemma spec_step_bounds:
  assumes "spec_step p (xs, c) = Inr (r, xs', c')" "length xs \<le> k" "c \<le> 128 + 2 * k"
  shows "length xs' \<le> Suc k" "c' \<le> 128 + 2 * Suc k"
  using assms by (cases p; auto split: if_splits)+

lemma run_simulates:
  assumes "invar q" "length (items q) \<le> k" "cap q \<le> 128 + 2 * k" "k + length ps < 2 ^ 57"
  shows "view (run_ops step ps q) = run_ops spec_step ps (items q, cap q)"
  using assms
proof (induction ps arbitrary: q k)
  case Nil
  then show ?case by simp
next
  case (Cons p ps)
  then have "cap q < 2 ^ 59" by simp
  note sim = step_simulates [OF Cons.prems(1) this, of p]
  show ?case
  proof (cases "step p q")
    case (Inl e)
    then show ?thesis using sim(1) by (simp flip: sim(1))
  next
    case (Inr rq)
    obtain r q' where q': "step p q = Inr (r, q')" using Inr by (cases rq) auto
    with sim(1) have spec: "spec_step p (items q, cap q) = Inr (r, items q', cap q')" by simp
    have "view (run_ops step ps q') = run_ops spec_step ps (items q', cap q')"
      using sim(2) [OF q'] spec_step_bounds [OF spec Cons.prems(2,3)] Cons.prems(4)
      by (intro Cons.IH [of q' "Suc k"]) auto
    note this [symmetric]
    then show ?thesis using q' spec by (cases "run_ops step ps q'") auto
  qed
qed

lemma run_create_simulates:
  assumes "length ps < 2 ^ 57"
  shows "view (run_ops step ps empty) = run_ops spec_step ps ([], 128)"
  using run_simulates [of empty 0 ps] empty assms by simp

end

interpretation sq: queue_contract safe_queue_create safe_queue_enqueue safe_queue_dequeue
  contents qcapacity queue_inv
proof
  show "queue_inv safe_queue_create" by (rule queue_inv_create)
  show "contents safe_queue_create = []" by (rule contents_create)
  show "qcapacity safe_queue_create = 128"
    by (simp add: safe_queue_create_def INITIAL_CAPACITY_def)
next
  fix q :: "'a SafeQueue" and x
  assume inv: "queue_inv q"
  show "length (contents q) < qcapacity q \<Longrightarrow> \<exists>q'. safe_queue_enqueue q x = Inr q' \<and> queue_inv q' \<and>
      contents q' = contents q @ [Item x] \<and> qcapacity q' = qcapacity q"
    using enqueue_ok [OF inv] by simp
  show "length (contents q) = qcapacity q \<Longrightarrow> qcapacity q < 2 ^ 59 \<Longrightarrow>
      \<exists>q'. safe_queue_enqueue q x = Inr q' \<and> queue_inv q' \<and>
      contents q' = replicate (qcapacity q) Uninit @ [Item x] \<and> qcapacity q' = 2 * qcapacity q"
    using enqueue_full [OF inv] by simp
  show "contents q = [] \<Longrightarrow> safe_queue_dequeue q = Inl WouldBlock"
    using dequeue_empty [OF inv] by (metis length_contents list.size(3))
  show "1 < length (contents q) \<Longrightarrow> length (contents q) - 1 = qcapacity q div 4 \<Longrightarrow>
      safe_queue_dequeue q = Inl Deadlock"
    using dequeue_run [OF inv] by simp
  show "contents q \<noteq> [] \<Longrightarrow>
      \<not> (1 < length (contents q) \<and> length (contents q) - 1 = qcapacity q div 4) \<Longrightarrow>
      \<exists>q'. safe_queue_dequeue q = Inr (hd (contents q), q') \<and> queue_inv q' \<and>
           contents q' = tl (contents q) \<and> qcapacity q' = qcapacity q"
    using dequeue_ok [OF inv] by (simp flip: length_greater_0_conv)
  show "length (contents q) \<le> qcapacity q" using inv by (simp add: queue_inv_def)
qed

section \<open>Properties of the queue\<close>

abbreviation run_queue :: "'a queue_op list \<Rightarrow> ('a SafeQueue, 'a slot list) prog" where
  "run_queue \<equiv> run_ops (queue_step safe_queue_enqueue safe_queue_dequeue)"

lemma spec_run_fifo:
  assumes "backlog_ok (length xs) ps"
  shows "\<exists>outs ys. run_ops spec_step ps (xs, 128) = Inr (outs, ys, 128) \<and>
                   outs @ ys = xs @ map Item (enqueued ps)"
  using assms
proof (induction ps arbitrary: xs rule: enqueued.induct)
  case (2 x ps)
  then show ?case using "2.IH" [of "xs @ [Item x]"] by auto
next
  case (3 ps)
  then obtain y ys where xs: "xs = y # ys" by (cases xs) auto
  then show ?case using "3.IH" [of ys] "3.prems" by auto
qed simp

text \<open>
  C7. Refinement of the whole queue to its contract: any sequence of fewer than \<open>2 ^ 57\<close>
  enqueues and dequeues on a new queue returns the items, ends in the contents and capacity,
  and fails with the fault that the list-based contract gives for the same sequence.
\<close>

theorem queue_refines_contract:
  assumes "length ps < 2 ^ 57"
  shows "abs_result contents qcapacity (run_queue ps safe_queue_create) =
         run_ops spec_step ps ([], INITIAL_CAPACITY)"
  using sq.run_create_simulates [OF assms] by (simp add: INITIAL_CAPACITY_def)

theorem queue_refines_contract_witness:
  "abs_result contents qcapacity (run_queue [Enq True, Enq False, Deq] safe_queue_create) =
   Inr ([Item True], [Item False], 128)"
  using queue_refines_contract [of "[Enq True, Enq False, Deq]"]
  by (simp add: INITIAL_CAPACITY_def)

text \<open>
  C2. The queue is a FIFO while its backlog stays in the safe region: if no call finds it
  full, empty or with 33 pending items at a dequeue, every call returns, the items returned
  followed by the items left are exactly the items enqueued, in order, and the invariant of
  the ring holds.
\<close>

theorem queue_fifo:
  assumes "backlog_ok 0 ps" "length ps < 2 ^ 57"
  shows "\<exists>outs q. run_queue ps safe_queue_create = Inr (outs, q) \<and>
                  outs @ contents q = map Item (enqueued ps) \<and> qcapacity q = INITIAL_CAPACITY"
proof -
  obtain outs ys where "run_ops spec_step ps ([], 128) = Inr (outs, ys, 128)"
      "outs @ ys = map Item (enqueued ps)"
    using spec_run_fifo [of "[]" ps] assms(1) by auto
  with sq.run_create_simulates [OF assms(2)] show ?thesis
    by (cases "run_queue ps safe_queue_create") (auto simp: INITIAL_CAPACITY_def)
qed

theorem queue_fifo_witness:
  "\<exists>outs q. run_queue [Enq (1::int), Enq 2, Deq, Enq 3] safe_queue_create = Inr (outs, q) \<and>
     outs @ contents q = [Item 1, Item 2, Item 3] \<and> qcapacity q = INITIAL_CAPACITY"
  using queue_fifo [of "[Enq (1::int), Enq 2, Deq, Enq 3]"] by simp

text \<open>
  C31. A dequeue that leaves a quarter of the capacity never returns: the queue calls
  \<^verbatim>\<open>safe_queue_resize\<close> while it holds the mutex that \<^verbatim>\<open>safe_queue_resize\<close> locks.
\<close>

theorem dequeue_at_quarter_deadlocks:
  assumes "queue_inv q" "1 < qsize q" "qsize q - 1 = qcapacity q div 4"
  shows "safe_queue_dequeue q = Inl Deadlock"
  using sq.deq_quarter [OF assms(1)] assms(2,3) by simp

theorem dequeue_at_quarter_deadlocks_witness:
  "safe_queue_dequeue
     \<lparr>qdata = replicate 8 (Item ()), qsize = 3, qcapacity = 8, qfront = 6, qrear = 1,
      qlocked = False\<rparr> = Inl Deadlock"
  by (rule dequeue_at_quarter_deadlocks) (simp_all add: queue_inv_def)

text \<open>
  C32. An enqueue on a full queue drops every pending item: the copy loop of
  \<^verbatim>\<open>safe_queue_resize\<close> stops at once because front and rear coincide, so the doubled queue
  holds as many uninitialised slots as there were items, and then the new item.
\<close>

theorem enqueue_full_loses_items:
  assumes "queue_inv q" "qsize q = qcapacity q" "qcapacity q < 2 ^ 59"
  shows "\<exists>q'. safe_queue_enqueue q x = Inr q' \<and>
              contents q' = replicate (qcapacity q) Uninit @ [Item x]"
  using sq.enq_full [OF assms(1) _ assms(3)] assms(2) by fastforce

theorem enqueue_full_loses_items_witness:
  "\<exists>q'. safe_queue_enqueue
     \<lparr>qdata = [Item True, Item True], qsize = 2, qcapacity = 2, qfront = 1, qrear = 1,
      qlocked = False\<rparr> False = Inr q' \<and> contents q' = replicate 2 Uninit @ [Item False]"
  using enqueue_full_loses_items
    [of "\<lparr>qdata = [Item True, Item True], qsize = 2, qcapacity = 2, qfront = 1, qrear = 1,
      qlocked = False\<rparr>" False]
  by (simp add: queue_inv_def)

text \<open>
  C27. Resizing a queue that is not full keeps the pending items and their order, re-establishes
  the invariant at the new capacity and starts the ring at index 0, for every capacity that
  has room for the items.
\<close>

theorem resize_preserves_contents:
  assumes "queue_inv q" "qsize q < qcapacity q" "qsize q < n" "n < 2 ^ 60"
  shows "\<exists>q'. safe_queue_resize q n = Inr q' \<and> queue_inv q' \<and> contents q' = contents q \<and>
              qcapacity q' = n \<and> qfront q' = 0"
proof (intro exI conjI)
  let ?q' = "q\<lparr>qdata := contents q @ replicate (n - qsize q) Uninit, qfront := 0,
               qrear := qsize q, qcapacity := n, qlocked := False\<rparr>"
  show "safe_queue_resize q n = Inr ?q'" by (rule resize_ok [OF assms])
  show "queue_inv ?q'" using assms by (simp add: queue_inv_def)
  show "contents ?q' = contents q" using assms(3) by (intro contents_packed) auto
qed simp_all

theorem resize_preserves_contents_witness:
  "\<exists>q'. safe_queue_resize
     \<lparr>qdata = [Item False, Uninit, Uninit, Item True], qsize = 2, qcapacity = 4, qfront = 3,
      qrear = 1, qlocked = False\<rparr> 3 = Inr q' \<and> contents q' = [Item True, Item False]"
proof -
  let ?q = "\<lparr>qdata = [Item False, Uninit, Uninit, Item True], qsize = 2, qcapacity = 4, qfront = 3,
      qrear = 1, qlocked = False\<rparr>"
  have "contents ?q = [Item True, Item False]" by (simp add: contents_def upt_rec)
  then show ?thesis
    using resize_preserves_contents [of ?q 3] by (auto simp add: queue_inv_def)
qed

end
