(* ===== verification/ThreadPool.thy ===== *)
theory ThreadPool
  imports SafeQueue
begin

text \<open>
  The thread pool of \<^verbatim>\<open>src/pool.h\<close> and \<^verbatim>\<open>src/pool.c\<close> as an interleaving of its
  threads: the workers, each in the loop of \<^verbatim>\<open>thread_pool_worker\<close>, and the thread that
  creates the pool, pushes tasks and destroys it. A step is one critical section of the queue
  or one statement between two of them; \<^verbatim>\<open>NULL\<close> items are \<^const>\<open>None\<close>. The debug messages
  on standard error are not part of the state.
\<close>

section \<open>State\<close>

record 'a ThreadPool =
  pool_size :: int
  pool_queue :: "'a option SafeQueue"
  pool_running :: bool
  pool_debug :: bool

text \<open>
  Where a worker is: before or in \<^verbatim>\<open>safe_queue_dequeue\<close>, at the test of the dequeued item,
  in \<^verbatim>\<open>pool->worker(item)\<close>, after its loop, or in a dequeue that waits for its own mutex.
\<close>

datatype 'a worker_pc =
    Dequeuing
  | Holding "'a option slot"
  | Working "'a option slot"
  | Exited
  | Stuck

text \<open>
  Where the owner of the pool is: between two calls, between the two parts of an enqueue made
  by \<^verbatim>\<open>thread_pool_push\<close> or by \<^verbatim>\<open>thread_pool_destroy\<close>, or in the two loops of
  \<^verbatim>\<open>thread_pool_destroy\<close>.
\<close>

datatype 'a main_pc =
    Serving
  | Pushing 'a
  | Posting nat
  | PostInsert nat
  | Joining nat
  | Destroyed

text \<open>
  The last three fields record history: the items enqueued, the slots dequeued and the
  arguments of the calls of \<^verbatim>\<open>pool->worker\<close>, each in order.
\<close>

record 'a pool_state =
  pool :: "'a ThreadPool"
  threads :: "'a worker_pc list"
  main :: "'a main_pc"
  posted :: "'a option list"
  taken :: "'a option slot list"
  calls :: "'a option slot list"

abbreviation queue_of :: "'a pool_state \<Rightarrow> 'a option SafeQueue" where
  "queue_of s \<equiv> pool_queue (pool s)"

abbreviation workers_of :: "'a pool_state \<Rightarrow> nat" where
  "workers_of s \<equiv> nat (pool_size (pool s))"

definition set_queue :: "'a option SafeQueue \<Rightarrow> 'a pool_state \<Rightarrow> 'a pool_state" where
  "set_queue q s = s\<lparr>pool := (pool s)\<lparr>pool_queue := q\<rparr>\<rparr>"

definition set_thread :: "nat \<Rightarrow> 'a worker_pc \<Rightarrow> 'a pool_state \<Rightarrow> 'a pool_state" where
  "set_thread i t s = s\<lparr>threads := (threads s)[i := t]\<rparr>"

lemmas pool_set_defs = set_queue_def set_thread_def

section \<open>Operations\<close>

definition thread_pool_create :: "int \<Rightarrow> bool \<Rightarrow> 'a pool_state" where
  "thread_pool_create n debug =
     \<lparr>pool = \<lparr>pool_size = n, pool_queue = safe_queue_create, pool_running = True,
             pool_debug = debug\<rparr>,
      threads = replicate (nat n) Dequeuing, main = Serving,
      posted = [], taken = [], calls = []\<rparr>"

text \<open>
  The queue as a dequeue leaves it when it blocks on its own mutex: the item is gone, the
  mutex stays locked.
\<close>

definition dequeue_blocked :: "'b SafeQueue \<Rightarrow> 'b SafeQueue" where
  "dequeue_blocked q =
     q\<lparr>qfront := szt (qfront q + 1) mod qcapacity q, qsize := qsize q - 1, qlocked := True\<rparr>"

text \<open>The test of \<^verbatim>\<open>thread_pool_worker\<close> after a dequeue.\<close>

definition worker_stops :: "'a pool_state \<Rightarrow> 'a option slot \<Rightarrow> bool" where
  "worker_stops s item \<longleftrightarrow> item = Item None \<and> \<not> pool_running (pool s)"

text \<open>One iteration of \<^verbatim>\<open>thread_pool_worker\<close> by worker \<open>i\<close>.\<close>

inductive worker_step :: "nat \<Rightarrow> 'a pool_state \<Rightarrow> 'a pool_state \<Rightarrow> bool" where
  take:
    "i < length (threads s) \<Longrightarrow> threads s ! i = Dequeuing \<Longrightarrow>
     safe_queue_dequeue (queue_of s) = Inr (item, q) \<Longrightarrow>
     worker_step i s ((set_thread i (Holding item) (set_queue q s))\<lparr>taken := taken s @ [item]\<rparr>)"
| block:
    "i < length (threads s) \<Longrightarrow> threads s ! i = Dequeuing \<Longrightarrow> \<not> qlocked (queue_of s) \<Longrightarrow>
     safe_queue_dequeue (queue_of s) = Inl Deadlock \<Longrightarrow>
     worker_step i s (set_thread i Stuck (set_queue (dequeue_blocked (queue_of s)) s))"
| exit:
    "i < length (threads s) \<Longrightarrow> threads s ! i = Holding item \<Longrightarrow> worker_stops s item \<Longrightarrow>
     worker_step i s (set_thread i Exited s)"
| call:
    "i < length (threads s) \<Longrightarrow> threads s ! i = Holding item \<Longrightarrow> \<not> worker_stops s item \<Longrightarrow>
     worker_step i s ((set_thread i (Working item) s)\<lparr>calls := calls s @ [item]\<rparr>)"
| return:
    "i < length (threads s) \<Longrightarrow> threads s ! i = Working item \<Longrightarrow>
     worker_step i s (set_thread i Dequeuing s)"

text \<open>\<^verbatim>\<open>thread_pool_push\<close>: nothing when the pool is not running, else the two parts of an
  enqueue.\<close>

inductive push_step :: "'a pool_state \<Rightarrow> 'a pool_state \<Rightarrow> bool" where
  push_ignored:
    "main s = Serving \<Longrightarrow> \<not> pool_running (pool s) \<Longrightarrow> push_step s s"
| push_reserve:
    "main s = Serving \<Longrightarrow> pool_running (pool s) \<Longrightarrow> enqueue_reserve (queue_of s) = Inr q \<Longrightarrow>
     push_step s ((set_queue q s)\<lparr>main := Pushing x\<rparr>)"
| push_insert:
    "main s = Pushing x \<Longrightarrow> enqueue_insert (queue_of s) (Some x) = Inr q \<Longrightarrow>
     push_step s ((set_queue q s)\<lparr>main := Serving, posted := posted s @ [Some x]\<rparr>)"

text \<open>
  \<^verbatim>\<open>thread_pool_destroy\<close>: clear the flag, enqueue one \<^verbatim>\<open>NULL\<close> per worker, join the workers
  in order, destroy the queue.
\<close>

inductive destroy_step :: "'a pool_state \<Rightarrow> 'a pool_state \<Rightarrow> bool" where
  destroy_begin:
    "main s = Serving \<Longrightarrow>
     destroy_step s (s\<lparr>pool := (pool s)\<lparr>pool_running := False\<rparr>, main := Posting 0\<rparr>)"
| post_reserve:
    "main s = Posting i \<Longrightarrow> i < workers_of s \<Longrightarrow> enqueue_reserve (queue_of s) = Inr q \<Longrightarrow>
     destroy_step s ((set_queue q s)\<lparr>main := PostInsert i\<rparr>)"
| post_insert:
    "main s = PostInsert i \<Longrightarrow> enqueue_insert (queue_of s) None = Inr q \<Longrightarrow>
     destroy_step s ((set_queue q s)\<lparr>main := Posting (Suc i), posted := posted s @ [None]\<rparr>)"
| post_done:
    "main s = Posting i \<Longrightarrow> \<not> i < workers_of s \<Longrightarrow> destroy_step s (s\<lparr>main := Joining 0\<rparr>)"
| join:
    "main s = Joining i \<Longrightarrow> i < workers_of s \<Longrightarrow> threads s ! i = Exited \<Longrightarrow>
     destroy_step s (s\<lparr>main := Joining (Suc i)\<rparr>)"
| destroy_end:
    "main s = Joining i \<Longrightarrow> \<not> i < workers_of s \<Longrightarrow> safe_queue_destroy (queue_of s) = Inr () \<Longrightarrow>
     destroy_step s (s\<lparr>main := Destroyed\<rparr>)"

inductive pool_step :: "'a pool_state \<Rightarrow> 'a pool_state \<Rightarrow> bool" where
  worker: "worker_step i s s' \<Longrightarrow> pool_step s s'"
| push: "push_step s s' \<Longrightarrow> pool_step s s'"
| destroy: "destroy_step s s' \<Longrightarrow> pool_step s s'"

inductive pool_reachable :: "int \<Rightarrow> bool \<Rightarrow> 'a pool_state \<Rightarrow> bool" for n debug where
  init: "pool_reachable n debug (thread_pool_create n debug)"
| step: "pool_reachable n debug s \<Longrightarrow> pool_step s s' \<Longrightarrow> pool_reachable n debug s'"

section \<open>Effect of the queue operations on capacity and mutex\<close>

lemma mutex_lock_Inr: "mutex_lock q = Inr q' \<longleftrightarrow> \<not> qlocked q \<and> q' = q\<lparr>qlocked := True\<rparr>"
  by (auto simp: mutex_lock_def)

lemma resize_locked: "qlocked q \<Longrightarrow> safe_queue_resize q n = Inl Deadlock"
  by (simp add: safe_queue_resize_def mutex_lock_def)

lemma dequeue_Inr_frame:
  assumes "safe_queue_dequeue q = Inr (item, q')"
  shows "\<not> qlocked q" "\<not> qlocked q'" "qcapacity q' = qcapacity q"
  using assms
  by (auto simp: safe_queue_dequeue_def mutex_lock_Inr andthen_eq_Inr resize_locked mutex_unlock_def
      Let_def split: if_splits)

lemma enqueue_insert_Inr_frame:
  assumes "enqueue_insert q x = Inr q'"
  shows "\<not> qlocked q" "\<not> qlocked q'" "qcapacity q' = qcapacity q"
  using assms
  by (auto simp: enqueue_insert_def mutex_lock_Inr andthen_eq_Inr mutex_unlock_def split: if_splits)

text \<open>A resize leaves a capacity that is a multiple of 256, so never the initial one again.\<close>

lemma enqueue_reserve_Inr_frame:
  assumes "enqueue_reserve q = Inr q'" "128 dvd qcapacity q"
  shows "q' = q \<and> qsize q \<noteq> qcapacity q \<or> 256 dvd qcapacity q'"
proof -
  have "256 dvd szt (qcapacity q * 2)"
  proof -
    have "256 dvd qcapacity q * 2" using mult_dvd_mono [OF assms(2), of 2 2] by simp
    then show ?thesis unfolding szt_def by (rule dvd_mod) simp
  qed
  with assms(1) show ?thesis
    by (auto simp: enqueue_reserve_def safe_queue_resize_def andthen_eq_Inr mutex_unlock_def
        split: if_splits)
qed

section \<open>Invariant\<close>

text \<open>The \<^verbatim>\<open>NULL\<close> items posted so far, with \<open>n\<close> workers.\<close>

fun nulls :: "nat \<Rightarrow> 'a main_pc \<Rightarrow> nat" where
  "nulls n (Posting i) = i"
| "nulls n (PostInsert i) = i"
| "nulls n (Joining i) = n"
| "nulls n Destroyed = n"
| "nulls n _ = 0"

fun serving :: "'a main_pc \<Rightarrow> bool" where
  "serving Serving = True"
| "serving (Pushing x) = True"
| "serving _ = False"

text \<open>The owner has seen that the queue is not full and has not inserted yet.\<close>

fun reserved :: "'a main_pc \<Rightarrow> bool" where
  "reserved (Pushing x) = True"
| "reserved (PostInsert i) = True"
| "reserved _ = False"

fun main_ok :: "nat \<Rightarrow> 'a worker_pc list \<Rightarrow> 'a main_pc \<Rightarrow> bool" where
  "main_ok n ts (Posting i) = (i \<le> n)"
| "main_ok n ts (PostInsert i) = (i < n)"
| "main_ok n ts (Joining i) = (i \<le> n \<and> (\<forall>k < i. ts ! k = Exited))"
| "main_ok n ts Destroyed = (\<forall>k < n. ts ! k = Exited)"
| "main_ok n ts _ = True"

text \<open>The dequeued item a worker is responsible for and has not passed to the task function.\<close>

fun holds :: "'a worker_pc \<Rightarrow> 'a option slot list" where
  "holds (Holding item) = [item]"
| "holds Exited = [Item None]"
| "holds _ = []"

definition held :: "'a pool_state \<Rightarrow> 'a option slot list" where
  "held s = concat (map holds (threads s))"

definition pool_inv :: "'a pool_state \<Rightarrow> bool" where
  "pool_inv s \<longleftrightarrow>
     length (threads s) = workers_of s \<and>
     (pool_running (pool s) \<longleftrightarrow> serving (main s)) \<and>
     main_ok (workers_of s) (threads s) (main s) \<and>
     (\<exists>ts. posted s = map Some ts @ replicate (nulls (workers_of s) (main s)) None) \<and>
     (qcapacity (queue_of s) = 128 \<or> 256 dvd qcapacity (queue_of s))"

text \<open>What holds while the queue has never been resized.\<close>

definition ring_inv :: "'a pool_state \<Rightarrow> bool" where
  "ring_inv s \<longleftrightarrow>
     (\<exists>rest. map Item (posted s) = taken s @ rest \<and>
        (\<not> qlocked (queue_of s) \<longrightarrow> queue_inv (queue_of s) \<and> rest = contents (queue_of s) \<and>
           (reserved (main s) \<longrightarrow> qsize (queue_of s) < 128))) \<and>
     mset (taken s) = mset (calls s) + mset (held s) \<and>
     Item None \<notin> set (calls s)"

lemma held_set_thread:
  assumes "i < length (threads s)"
  shows "mset (held (set_thread i t s)) + mset (holds (threads s ! i)) = mset (held s) + mset (holds t)"
  using mset_concat_update [OF assms, of holds t] by (simp add: held_def set_thread_def)

lemma held_frame [simp]:
  "held (set_queue q s) = held s" "held (s\<lparr>main := m\<rparr>) = held s"
  "held (s\<lparr>pool := p\<rparr>) = held s" "held (s\<lparr>taken := t\<rparr>) = held s"
  "held (s\<lparr>calls := c\<rparr>) = held s" "held (s\<lparr>posted := o'\<rparr>) = held s"
  by (simp_all add: held_def set_queue_def)

lemma pool_inv_create: "pool_inv (thread_pool_create n debug)"
  by (simp add: pool_inv_def thread_pool_create_def sq.empty)

lemma ring_inv_create: "ring_inv (thread_pool_create n debug)"
  by (simp add: ring_inv_def thread_pool_create_def sq.empty held_def map_replicate_const)

lemma main_ok_update:
  "main_ok n ts m \<Longrightarrow> ts ! i \<noteq> Exited \<Longrightarrow> main_ok n (ts[i := t]) m"
  by (cases m) (auto, (metis nth_list_update_neq)+)

lemma worker_step_pool_inv:
  assumes "worker_step i s s'" "pool_inv s"
  shows "pool_inv s'"
  using assms
  by (cases rule: worker_step.cases)
    (auto simp: pool_inv_def pool_set_defs dequeue_blocked_def main_ok_update
      dest: dequeue_Inr_frame(3))

lemma reserve_capacity:
  assumes "enqueue_reserve q = Inr q'" "qcapacity q = 128 \<or> 256 dvd qcapacity q"
  shows "qcapacity q' = 128 \<or> 256 dvd qcapacity q'"
    and "qcapacity q' = 128 \<Longrightarrow> q' = q \<and> qsize q \<noteq> qcapacity q"
proof -
  have "128 dvd qcapacity q" using assms(2) by (auto intro: dvd_trans [of 128 256])
  from enqueue_reserve_Inr_frame [OF assms(1) this] assms(2)
  show "qcapacity q' = 128 \<or> 256 dvd qcapacity q'"
    and "qcapacity q' = 128 \<Longrightarrow> q' = q \<and> qsize q \<noteq> qcapacity q" by auto
qed

lemma push_step_pool_inv:
  assumes "push_step s s'" "pool_inv s"
  shows "pool_inv s'"
  using assms(1)
proof cases
  case (push_reserve q x)
  then show ?thesis
    using assms(2) reserve_capacity(1) [of "queue_of s" q] by (auto simp: pool_inv_def set_queue_def)
next
  case (push_insert x q)
  then obtain ts where "posted s = map Some ts" using assms(2) by (auto simp: pool_inv_def)
  then have "posted s @ [Some x] = map Some (ts @ [x])" by simp
  then show ?thesis
    using assms(2) push_insert enqueue_insert_Inr_frame(3) [OF push_insert(3)]
    by (auto simp: pool_inv_def set_queue_def simp del: map_append)
qed (use assms(2) in simp)

lemma destroy_step_pool_inv:
  assumes "destroy_step s s'" "pool_inv s"
  shows "pool_inv s'"
  using assms(1)
proof cases
  case (post_reserve i q)
  then show ?thesis
    using assms(2) reserve_capacity(1) [of "queue_of s" q] by (auto simp: pool_inv_def set_queue_def)
next
  case (post_insert i q)
  then obtain ts where "posted s = map Some ts @ replicate i None"
    using assms(2) by (auto simp: pool_inv_def)
  then have "posted s @ [None] = map Some ts @ replicate (Suc i) None"
    by (simp add: replicate_append_same)
  then show ?thesis
    using assms(2) post_insert enqueue_insert_Inr_frame(3) [OF post_insert(3)]
    by (auto simp: pool_inv_def set_queue_def simp del: replicate.simps)
qed (use assms(2) in \<open>auto simp: pool_inv_def less_Suc_eq\<close>)

text \<open>An item a worker holds was taken from the queue, so it was posted.\<close>

lemma holding_posted:
  assumes "ring_inv s" "i < length (threads s)" "threads s ! i = Holding item"
  shows "\<exists>x. item = Item x \<and> x \<in> set (posted s)"
proof -
  have "item \<in># mset (held s)"
    using assms(2,3) by (force simp: held_def in_set_conv_nth)
  then have "item \<in> set (taken s)"
    using assms(1) by (metis ring_inv_def mset_subset_eq_add_right mset_subset_eqD set_mset_mset)
  moreover obtain rest where "map Item (posted s) = taken s @ rest"
    using assms(1) by (auto simp: ring_inv_def)
  ultimately have "item \<in> Item ` set (posted s)" by (metis Un_iff set_append set_map)
  then show ?thesis by auto
qed

lemma running_no_null: "pool_inv s \<Longrightarrow> pool_running (pool s) \<Longrightarrow> None \<notin> set (posted s)"
  by (cases "main s") (auto simp: pool_inv_def)

lemma taken_contents_step:
  assumes "ring_inv s" "safe_queue_dequeue (queue_of s) = Inr (item, q)"
    "qcapacity (queue_of s) = 128"
  shows "queue_inv q" "map Item (posted s) = (taken s @ [item]) @ contents q"
    "qsize q < qsize (queue_of s)"
proof -
  let ?q = "queue_of s"
  have inv: "queue_inv ?q" and eq: "map Item (posted s) = taken s @ contents ?q"
    using assms(1) dequeue_Inr_frame(1) [OF assms(2)] by (auto simp: ring_inv_def)
  have ne: "contents ?q \<noteq> []" using sq.deq_empty [OF inv] assms(2) by auto
  have "\<not> (1 < length (contents ?q) \<and> length (contents ?q) - 1 = qcapacity ?q div 4)"
    using sq.deq_quarter [OF inv] assms(2) by auto
  from sq.deq_front [OF inv ne this] assms(2)
  have q: "queue_inv q" "contents q = tl (contents ?q)" "item = hd (contents ?q)" by auto
  then show "queue_inv q" "map Item (posted s) = (taken s @ [item]) @ contents q"
    using eq ne by simp_all
  have "length (contents q) < length (contents ?q)" using ne q(2) by (cases "contents ?q") auto
  then show "qsize q < qsize ?q" by simp
qed

lemma worker_step_ring_inv:
  assumes "worker_step i s s'" "pool_inv s" "ring_inv s" "qcapacity (queue_of s) = 128"
  shows "ring_inv s'"
  using assms(1)
proof cases
  case (take item q)
  note t = taken_contents_step [OF assms(3) take(4) assms(4)]
  have "mset (held s') = mset (held s) + {#item#}"
    using held_set_thread [OF take(2), of "Holding item"] take(3)
    by (simp add: take(1) held_def pool_set_defs)
  moreover have "queue_of s' = q" "posted s' = posted s" "taken s' = taken s @ [item]"
      "calls s' = calls s" "main s' = main s"
    by (simp_all add: take(1) pool_set_defs)
  moreover have "\<not> qlocked (queue_of s)" by (rule dequeue_Inr_frame(1) [OF take(4)])
  ultimately show ?thesis
    using assms(3) t unfolding ring_inv_def by (intro conjI exI [of _ "contents q"]) auto
next
  case block
  have "mset (held s') = mset (held s)"
    using held_set_thread [OF block(2), of Stuck] block(3)
    by (simp add: block(1) held_def pool_set_defs)
  then show ?thesis
    using assms(3) by (auto simp: block(1) ring_inv_def pool_set_defs dequeue_blocked_def)
next
  case (exit item)
  have "mset (held s') = mset (held s)"
    using held_set_thread [OF exit(2), of Exited] exit(3,4)
    by (simp add: exit(1) worker_stops_def)
  then show ?thesis using assms(3) by (simp add: exit(1) ring_inv_def set_thread_def)
next
  case (call item)
  obtain x where x: "item = Item x" "x \<in> set (posted s)"
    using holding_posted [OF assms(3) call(2,3)] by auto
  then have "item \<noteq> Item None"
    using call(4) running_no_null [OF assms(2)] by (cases x) (auto simp: worker_stops_def)
  moreover have "mset (held s') + {#item#} = mset (held s)"
    using held_set_thread [OF call(2), of "Working item"] call(3)
    by (simp add: call(1))
  ultimately show ?thesis using assms(3) by (auto simp: call(1) ring_inv_def set_thread_def)
next
  case (return item)
  have "mset (held s') = mset (held s)"
    using held_set_thread [OF return(2), of Dequeuing] return(3) by (simp add: return(1))
  then show ?thesis using assms(3) by (simp add: return(1) ring_inv_def set_thread_def)
qed

lemma insert_contents_step:
  assumes "ring_inv s" "enqueue_insert (queue_of s) x = Inr q" "reserved (main s)"
    "qcapacity (queue_of s) = 128"
  shows "queue_inv q" "map Item (posted s @ [x]) = taken s @ contents q"
    "qsize q = Suc (qsize (queue_of s))"
proof -
  have inv: "queue_inv (queue_of s)" "map Item (posted s) = taken s @ contents (queue_of s)"
      "qsize (queue_of s) < qcapacity (queue_of s)"
    using assms(1,3,4) enqueue_insert_Inr_frame(1) [OF assms(2)] by (auto simp: ring_inv_def)
  from enqueue_insert_ok [OF inv(1,3), of x] assms(2)
  have q: "queue_inv q" "contents q = contents (queue_of s) @ [Item x]" by auto
  then show "queue_inv q" "map Item (posted s @ [x]) = taken s @ contents q"
    using inv(2) by simp_all
  from q(2) show "qsize q = Suc (qsize (queue_of s))" by (metis length_append_singleton length_contents)
qed

lemma reserve_ring_inv:
  assumes "ring_inv s" "qcapacity (queue_of s) = 128" "qsize (queue_of s) \<noteq> 128"
  shows "ring_inv (s\<lparr>main := m\<rparr>)"
  using assms by (auto simp: ring_inv_def queue_inv_def)

lemma insert_ring_inv:
  assumes "ring_inv s" "enqueue_insert (queue_of s) x = Inr q" "reserved (main s)"
    "qcapacity (queue_of s) = 128" "\<not> reserved m"
  shows "ring_inv ((set_queue q s)\<lparr>main := m, posted := posted s @ [x]\<rparr>)"
  using insert_contents_step [OF assms(1-4)] assms(1,5)
    enqueue_insert_Inr_frame(2) [OF assms(2)]
  by (auto simp: ring_inv_def set_queue_def held_def simp del: map_append)

lemma set_queue_same [simp]: "set_queue (queue_of s) s = s"
  by (simp add: set_queue_def)

lemma owner_step_ring_inv:
  assumes "push_step s s' \<or> destroy_step s s'" "pool_inv s" "ring_inv s"
    "qcapacity (queue_of s) = 128" "qcapacity (queue_of s') = 128"
  shows "ring_inv s'"
proof -
  have reserve: "q = queue_of s \<and> qsize (queue_of s) \<noteq> 128"
    if "enqueue_reserve (queue_of s) = Inr q" "qcapacity q = 128" for q
    using reserve_capacity(2) [OF that(1)] that(2) assms(4) by simp
  have frame: "ring_inv (s\<lparr>main := m\<rparr>)" if "\<not> reserved m" for m
    using assms(3) that by (auto simp: ring_inv_def)
  from assms(1) show ?thesis
  proof
    assume "push_step s s'"
    then show ?thesis
    proof cases
      case (push_insert x q)
      then show ?thesis using insert_ring_inv [OF assms(3) push_insert(3) _ assms(4)] by simp
    next
      case (push_reserve q x)
      then show ?thesis
        using reserve [of q] reserve_ring_inv [OF assms(3,4)] assms(5) by (simp add: set_queue_def)
    qed (simp add: assms(3))
  next
    assume "destroy_step s s'"
    then show ?thesis
    proof cases
      case destroy_begin
      then show ?thesis using assms(3) by (auto simp: ring_inv_def held_def)
    next
      case (post_insert i q)
      then show ?thesis using insert_ring_inv [OF assms(3) post_insert(3) _ assms(4)] by simp
    next
      case (post_reserve i q)
      then show ?thesis
        using reserve [of q] reserve_ring_inv [OF assms(3,4)] assms(5) by (simp add: set_queue_def)
    qed (simp_all add: frame)
  qed
qed

text \<open>The capacity only ever grows away from the initial one.\<close>

lemma pool_step_capacity:
  assumes "pool_step s s'" "pool_inv s" "qcapacity (queue_of s') = 128"
  shows "qcapacity (queue_of s) = 128"
proof -
  have cap: "qcapacity (queue_of s) = 128 \<or> 256 dvd qcapacity (queue_of s)"
    using assms(2) by (simp add: pool_inv_def)
  have reserve: "qcapacity (queue_of s) = 128"
    if "enqueue_reserve (queue_of s) = Inr q" "qcapacity q = 128" for q
    using reserve_capacity(2) [OF that(1) cap that(2)] that(2) by simp
  from assms(1) show ?thesis
  proof cases
    case (worker i)
    then show ?thesis using assms(3)
      by cases (auto simp: pool_set_defs dequeue_blocked_def dest: dequeue_Inr_frame(3))
  next
    case push
    then show ?thesis using assms(3) reserve
      by cases (auto simp: set_queue_def dest: enqueue_insert_Inr_frame(3))
  next
    case destroy
    then show ?thesis using assms(3) reserve
      by cases (auto simp: set_queue_def dest: enqueue_insert_Inr_frame(3))
  qed
qed

lemma pool_step_inv:
  assumes "pool_step s s'" "pool_inv s" "qcapacity (queue_of s) = 128 \<Longrightarrow> ring_inv s"
  shows "pool_inv s'" and "qcapacity (queue_of s') = 128 \<Longrightarrow> ring_inv s'"
proof -
  show "pool_inv s'"
    using assms(1,2)
    by (auto elim!: pool_step.cases
        intro: worker_step_pool_inv push_step_pool_inv destroy_step_pool_inv)
  assume cap': "qcapacity (queue_of s') = 128"
  then have cap: "qcapacity (queue_of s) = 128" by (rule pool_step_capacity [OF assms(1,2)])
  from assms(1) show "ring_inv s'"
    by cases (use worker_step_ring_inv owner_step_ring_inv assms(2,3) cap cap' in blast)+
qed

lemma reachable_inv:
  assumes "pool_reachable n debug s"
  shows "pool_inv s \<and> (qcapacity (queue_of s) = 128 \<longrightarrow> ring_inv s)"
  using assms
proof induction
  case init
  then show ?case by (simp add: pool_inv_create ring_inv_create)
next
  case (step s s')
  then show ?case using pool_step_inv by blast
qed

section \<open>A worker that waits for its own mutex\<close>

text \<open>A locked queue refuses every operation, so nothing is enqueued or dequeued any more.\<close>

lemma reserve_locked:
  "qlocked q \<Longrightarrow> enqueue_reserve q = Inr q' \<Longrightarrow> q' = q"
  by (auto simp: enqueue_reserve_def resize_locked split: if_splits)

lemma locked_step:
  assumes "pool_step s s'" "qlocked (queue_of s)"
  shows "queue_of s' = queue_of s \<and> taken s' = taken s \<and> posted s' = posted s \<and>
         (main s' = Destroyed \<longrightarrow> main s = Destroyed)"
  using assms(1)
proof cases
  case (worker i)
  then show ?thesis using assms(2)
    by cases (auto simp: pool_set_defs dest: dequeue_Inr_frame(1))
next
  case push
  then show ?thesis using assms(2)
    by cases (auto simp: set_queue_def dest: enqueue_insert_Inr_frame(1) reserve_locked)
next
  case destroy
  then show ?thesis using assms(2)
    by cases (auto simp: set_queue_def safe_queue_destroy_def andthen_eq_Inr mutex_lock_Inr
        dest: enqueue_insert_Inr_frame(1) reserve_locked)
qed

lemma locked_run:
  assumes "pool_step\<^sup>*\<^sup>* s s'" "qlocked (queue_of s)"
  shows "queue_of s' = queue_of s \<and> taken s' = taken s \<and> posted s' = posted s \<and>
         (main s' = Destroyed \<longrightarrow> main s = Destroyed)"
  using assms(1)
proof induction
  case (step t u)
  then show ?case using locked_step [of t u] assms(2) by auto
qed simp

lemma stuck_locked_step:
  assumes "pool_step s s'" "Stuck \<in> set (threads s) \<Longrightarrow> qlocked (queue_of s)"
    "Stuck \<in> set (threads s')"
  shows "qlocked (queue_of s')"
proof (cases "qlocked (queue_of s)")
  case True
  then show ?thesis using locked_step [OF assms(1)] by simp
next
  case False
  then have "Stuck \<notin> set (threads s)" using assms(2) by auto
  from assms(1) this show ?thesis
  proof cases
    case (worker i)
    then show ?thesis using assms(3) \<open>Stuck \<notin> _\<close>
      by cases (auto simp: pool_set_defs dequeue_blocked_def dest: set_update_subset_insert [THEN subsetD])
  next
    case push
    then show ?thesis using assms(3) \<open>Stuck \<notin> _\<close> by cases (auto simp: set_queue_def)
  next
    case destroy
    then show ?thesis using assms(3) \<open>Stuck \<notin> _\<close> by cases (auto simp: set_queue_def)
  qed
qed

lemma reachable_stuck_locked:
  "pool_reachable n debug s \<Longrightarrow> Stuck \<in> set (threads s) \<Longrightarrow> qlocked (queue_of s)"
proof (induction rule: pool_reachable.induct)
  case init
  then show ?case by (simp add: thread_pool_create_def)
next
  case (step s s')
  then show ?case using stuck_locked_step by blast
qed

lemma pool_size_step: "pool_step s s' \<Longrightarrow> pool_size (pool s') = pool_size (pool s)"
  by (auto elim!: pool_step.cases worker_step.cases push_step.cases destroy_step.cases
      simp: pool_set_defs)

lemma reachable_pool_size: "pool_reachable n debug s \<Longrightarrow> pool_size (pool s) = n"
  by (induction rule: pool_reachable.induct) (simp_all add: thread_pool_create_def pool_size_step)

section \<open>Shutdown\<close>

text \<open>The tasks pushed so far, in order.\<close>

definition tasks :: "'a pool_state \<Rightarrow> 'a list" where
  "tasks s = map the (filter (\<lambda>x. x \<noteq> None) (posted s))"

lemma tasks_posted: "posted s = map Some ts @ replicate k None \<Longrightarrow> tasks s = ts"
  by (simp add: tasks_def filter_map comp_def map_idI)

lemma held_all_exited:
  assumes "length (threads s) = n" "\<forall>k < n. threads s ! k = Exited"
  shows "held s = replicate n (Item None)"
proof -
  have "threads s = replicate n Exited" using assms by (metis nth_equalityI length_replicate nth_replicate)
  then have "held s = concat (replicate n [Item None])" by (simp add: held_def)
  then show ?thesis by (induction n arbitrary: s) auto
qed

lemma shutdown_taken_all:
  assumes "pool_inv s" "ring_inv s" "main s = Destroyed" "0 < workers_of s"
  shows "taken s = map Item (posted s)"
proof -
  obtain n where n: "workers_of s = Suc n" using assms(4) by (cases "workers_of s") auto
  obtain ts where ts: "posted s = map Some ts @ replicate (Suc n) None"
    using assms(1,3) n by (auto simp: pool_inv_def)
  obtain rest where rest: "map Item (posted s) = taken s @ rest"
    using assms(2) by (auto simp: ring_inv_def)
  have "mset (taken s) = mset (calls s) + mset (replicate (Suc n) (Item None))"
    using held_all_exited [of s "Suc n"] assms(1-3) n by (auto simp: pool_inv_def ring_inv_def)
  then have "count (mset (taken s)) (Item None) = Suc n"
    using assms(2) by (simp add: ring_inv_def count_mset)
  then have "count_list (taken s) (Item None) = Suc n" by (simp add: count_mset)
  then have "rest = []"
    using rest ts by (intro prefix_with_all_last [of "map (Item o Some) ts" n "Item None" "taken s"])
      auto
  then show ?thesis using rest by simp
qed

text \<open>Steps left until a pool that is being destroyed has come to rest.\<close>

fun main_work :: "nat \<Rightarrow> 'a main_pc \<Rightarrow> nat" where
  "main_work n (Posting i) = 5 * (n - i) + n + 3"
| "main_work n (PostInsert i) = 5 * (n - i) + n + 2"
| "main_work n (Joining i) = n - i + 2"
| "main_work n _ = 0"

fun thread_work :: "'a worker_pc \<Rightarrow> nat" where
  "thread_work (Holding item) = 2"
| "thread_work (Working item) = 1"
| "thread_work _ = 0"

definition shutdown_work :: "'a pool_state \<Rightarrow> nat" where
  "shutdown_work s =
     main_work (workers_of s) (main s) + 3 * qsize (queue_of s) +
     sum_list (map thread_work (threads s))"

text \<open>A shutdown whose backlog, with the \<^verbatim>\<open>NULL\<close> items still to come, stays below 33.\<close>

definition calm :: "'a pool_state \<Rightarrow> bool" where
  "calm s \<longleftrightarrow>
     pool_inv s \<and> ring_inv s \<and> qcapacity (queue_of s) = 128 \<and> \<not> qlocked (queue_of s) \<and>
     Stuck \<notin> set (threads s) \<and> \<not> serving (main s) \<and>
     qsize (queue_of s) + (workers_of s - nulls (workers_of s) (main s)) \<le> 32"

lemma calm_queue:
  assumes "calm s"
  shows "queue_inv (queue_of s)" "map Item (posted s) = taken s @ contents (queue_of s)"
    "qsize (queue_of s) \<le> 32"
  using assms by (auto simp: calm_def ring_inv_def)

lemma work_set_thread:
  assumes "i < length (threads s)"
  shows "sum_list (map thread_work ((threads s)[i := t])) + thread_work (threads s ! i) =
         sum_list (map thread_work (threads s)) + thread_work t"
  by (rule sum_list_map_update [OF assms])

lemma calm_worker_step:
  assumes "worker_step i s s'" "calm s"
  shows "\<not> qlocked (queue_of s') \<and> Stuck \<notin> set (threads s') \<and> main s' = main s \<and>
         qcapacity (queue_of s') = 128 \<and> qsize (queue_of s') \<le> qsize (queue_of s) \<and>
         shutdown_work s' < shutdown_work s"
  using assms(1)
proof cases
  case (take item q)
  have cap: "qcapacity (queue_of s) = 128" and "ring_inv s" using assms(2) by (auto simp: calm_def)
  from taken_contents_step(3) [OF this(2) take(4) cap] work_set_thread [OF take(2), of "Holding item"]
  show ?thesis
    using take dequeue_Inr_frame [OF take(4)] assms(2)
    by (auto simp: calm_def shutdown_work_def pool_set_defs dest: set_update_subset_insert [THEN subsetD])
next
  case block
  have "safe_queue_dequeue (queue_of s) \<noteq> Inl Deadlock"
    using dequeue_run [OF calm_queue(1) [OF assms(2)]] dequeue_empty [OF calm_queue(1) [OF assms(2)]]
      calm_queue(3) [OF assms(2)] assms(2)
    by (cases "qsize (queue_of s) = 0") (auto simp: calm_def)
  then show ?thesis using block by simp
next
  case (exit item)
  then show ?thesis
    using assms(2) work_set_thread [OF exit(2), of Exited]
    by (auto simp: calm_def shutdown_work_def pool_set_defs dest: set_update_subset_insert [THEN subsetD])
next
  case (call item)
  then show ?thesis
    using assms(2) work_set_thread [OF call(2), of "Working item"]
    by (auto simp: calm_def shutdown_work_def pool_set_defs dest: set_update_subset_insert [THEN subsetD])
next
  case (return item)
  then show ?thesis
    using assms(2) work_set_thread [OF return(2), of Dequeuing]
    by (auto simp: calm_def shutdown_work_def pool_set_defs dest: set_update_subset_insert [THEN subsetD])
qed

lemma calm_destroy_step:
  assumes "destroy_step s s'" "calm s"
  shows "\<not> qlocked (queue_of s') \<and> threads s' = threads s \<and> \<not> serving (main s') \<and>
         qcapacity (queue_of s') = 128 \<and> shutdown_work s' < shutdown_work s \<and>
         qsize (queue_of s') + (workers_of s' - nulls (workers_of s') (main s')) \<le> 32"
  using assms(1)
proof cases
  case destroy_begin
  then show ?thesis using assms(2) by (simp add: calm_def)
next
  case (post_reserve i q)
  then have "q = queue_of s"
    using calm_queue(3) [OF assms(2)] assms(2) by (auto simp: enqueue_reserve_def calm_def)
  then show ?thesis using post_reserve assms(2) by (auto simp: calm_def shutdown_work_def)
next
  case (post_insert i q)
  then have i: "i < workers_of s" using assms(2) by (auto simp: calm_def pool_inv_def)
  have "qsize q = Suc (qsize (queue_of s))"
    using post_insert insert_contents_step(3) [OF _ post_insert(3)] assms(2) by (auto simp: calm_def)
  then show ?thesis
    using post_insert i assms(2) enqueue_insert_Inr_frame [OF post_insert(3)]
    by (auto simp: calm_def shutdown_work_def set_queue_def)
next
  case (post_done i)
  then show ?thesis using assms(2) by (auto simp: calm_def shutdown_work_def pool_inv_def)
next
  case (join i)
  then show ?thesis using assms(2) by (auto simp: calm_def shutdown_work_def)
next
  case (destroy_end i)
  then show ?thesis using assms(2) by (auto simp: calm_def shutdown_work_def)
qed

lemma calm_step:
  assumes "pool_step s s'" "calm s"
  shows "calm s' \<and> shutdown_work s' < shutdown_work s"
proof -
  have inv: "pool_inv s'" "qcapacity (queue_of s') = 128 \<Longrightarrow> ring_inv s'"
    using pool_step_inv [OF assms(1)] assms(2) by (auto simp: calm_def)
  from assms(1) show ?thesis
  proof cases
    case (worker i)
    then show ?thesis
      using calm_worker_step [OF _ assms(2)] inv pool_size_step [OF assms(1)] assms(2)
      by (fastforce simp: calm_def)
  next
    case push
    then show ?thesis using assms(2) by cases (auto simp: calm_def)
  next
    case destroy
    then show ?thesis
      using calm_destroy_step [OF _ assms(2)] inv assms(2) by (auto simp: calm_def)
  qed
qed

text \<open>With an empty queue every \<^verbatim>\<open>NULL\<close> is taken, so every worker has one or has exited.\<close>

lemma calm_joining_not_waiting:
  assumes "calm s" "main s = Joining i" "k < workers_of s" "threads s ! k = Dequeuing"
  shows "0 < qsize (queue_of s)"
proof (rule ccontr)
  assume "\<not> 0 < qsize (queue_of s)"
  then have "contents (queue_of s) = []" by (metis length_contents length_0_conv neq0_conv)
  then have taken: "taken s = map Item (posted s)" using calm_queue(2) [OF assms(1)] by simp
  let ?n = "workers_of s" and ?null = "Item None :: 'a option slot"
  have len: "length (threads s) = ?n" using assms(1) by (simp add: calm_def pool_inv_def)
  have "count_list (taken s) ?null = ?n"
    using assms(1,2) taken by (auto simp: calm_def pool_inv_def comp_def count_list_0_iff)
  moreover have "mset (taken s) = mset (calls s) + mset (held s)" "?null \<notin> set (calls s)"
    using assms(1) by (auto simp: calm_def ring_inv_def)
  then have "count (mset (taken s)) ?null = count (mset (held s)) ?null" by (simp add: count_mset)
  moreover have "count (mset (held s)) ?null \<le> length (held s)" by (metis count_le_length count_mset)
  moreover have "length (held s) + 1 \<le> ?n"
  proof -
    have "length (held s) = sum_list (map (\<lambda>t. length (holds t)) (threads s))"
      by (simp add: held_def length_concat comp_def)
    also have "\<dots> + 1 = sum_list (map (\<lambda>t. length (holds t)) ((threads s)[k := Exited]))"
      using sum_list_map_update [of k "threads s" "\<lambda>t. length (holds t)" Exited] assms(3,4) len
      by simp
    also have "\<dots> \<le> sum_list (map (\<lambda>_. 1) ((threads s)[k := Exited]))"
      by (rule sum_list_mono) (metis (no_types) eq_refl holds.elims le_SucI list.size(3,4) One_nat_def add_0 plus_1_eq_Suc zero_le_one)
    finally show ?thesis using len by (simp add: sum_list_triv)
  qed
  ultimately show False by (simp add: count_mset)
qed

lemma calm_progress:
  assumes "calm s" "main s \<noteq> Destroyed"
  shows "\<exists>s'. pool_step s s'"
proof -
  note inv = calm_queue [OF assms(1)]
  have cap: "qcapacity (queue_of s) = 128" and unlocked: "\<not> qlocked (queue_of s)"
    and pinv: "pool_inv s" using assms(1) by (auto simp: calm_def)
  have reserve: "enqueue_reserve (queue_of s) = Inr (queue_of s)"
    using inv(3) cap by (simp add: enqueue_reserve_def)
  obtain q where insert: "enqueue_insert (queue_of s) None = Inr q"
    using enqueue_insert_ok [OF inv(1), of None] inv(3) cap by auto
  have idle: "\<exists>s'. worker_step k s s'" if "main s = Joining i" "k < workers_of s" "threads s ! k \<noteq> Exited" for i k
  proof (cases "threads s ! k")
    case Dequeuing
    then have "0 < qsize (queue_of s)" by (rule calm_joining_not_waiting [OF assms(1) that(1,2)])
    then obtain r where "safe_queue_dequeue (queue_of s) = Inr r"
      using dequeue_ok [OF inv(1)] inv(3) cap by fastforce
    then show ?thesis
      using Dequeuing that(2) pinv worker_step.take [of k s "fst r" "snd r"] by (auto simp: pool_inv_def)
  next
    case (Holding item)
    then show ?thesis using worker_step.exit worker_step.call that(2) pinv by (metis pool_inv_def)
  next
    case (Working item)
    then show ?thesis using worker_step.return that(2) pinv by (metis pool_inv_def)
  next
    case Stuck
    then show ?thesis using assms(1) that(2) by (metis calm_def nth_mem pool_inv_def)
  qed (use that(3) in simp)
  show ?thesis
  proof (cases "main s")
    case (Posting i)
    then show ?thesis
      using reserve by (metis destroy_step.post_done destroy_step.post_reserve pool_step.destroy)
  next
    case (PostInsert i)
    then show ?thesis using insert by (metis destroy_step.post_insert pool_step.destroy)
  next
    case (Joining i)
    show ?thesis
    proof (cases "i < workers_of s")
      case True
      then show ?thesis
        using Joining idle by (metis destroy_step.join pool_step.destroy pool_step.worker)
    next
      case False
      have "safe_queue_destroy (queue_of s) = Inr ()"
        using unlocked by (simp add: safe_queue_destroy_def mutex_lock_def)
      then show ?thesis
        using Joining False by (metis destroy_step.destroy_end pool_step.destroy)
    qed
  qed (use assms in \<open>auto simp: calm_def\<close>)
qed

lemma calm_run:
  assumes "(pool_step ^^ k) s s'" "calm s"
  shows "calm s' \<and> k + shutdown_work s' \<le> shutdown_work s"
  using assms(1)
proof (induction k arbitrary: s')
  case 0
  then show ?case using assms(2) by simp
next
  case (Suc k)
  then obtain t where t: "(pool_step ^^ k) s t" "pool_step t s'" by auto
  then show ?case using Suc.IH [OF t(1)] calm_step [OF t(2)] by auto
qed

lemma calm_tasks: "pool_step s s' \<Longrightarrow> calm s \<Longrightarrow> tasks s' = tasks s"
  by (auto elim!: pool_step.cases worker_step.cases push_step.cases destroy_step.cases
      simp: pool_set_defs tasks_def calm_def)

text \<open>Every maximal run from a calm state ends destroyed, so some run does.\<close>

lemma calm_reaches_destroyed:
  assumes "calm s"
  shows "\<exists>s'. pool_step\<^sup>*\<^sup>* s s' \<and> calm s' \<and> main s' = Destroyed \<and> tasks s' = tasks s"
  using assms
proof (induction "shutdown_work s" arbitrary: s rule: less_induct)
  case less
  show ?case
  proof (cases "main s = Destroyed")
    case True
    then show ?thesis using less.prems by auto
  next
    case False
    then obtain t where t: "pool_step s t" using calm_progress [OF less.prems] by auto
    then show ?thesis
      using less.hyps [of t] calm_step [OF t less.prems] calm_tasks [OF t less.prems]
      by (metis converse_rtranclp_into_rtranclp)
  qed
qed

lemma reachable_run: "pool_step\<^sup>*\<^sup>* s s' \<Longrightarrow> pool_reachable n debug s \<Longrightarrow> pool_reachable n debug s'"
  by (induction rule: rtranclp_induct) (auto intro: pool_reachable.step)

text \<open>The owner can push up to 128 tasks before any worker moves.\<close>

lemma push_many:
  assumes "k \<le> 128"
  shows "\<exists>s. pool_reachable n debug s \<and> main s = Serving \<and> pool_running (pool s) \<and>
             threads s = replicate (nat n) Dequeuing \<and> qcapacity (queue_of s) = 128 \<and>
             queue_inv (queue_of s) \<and> qsize (queue_of s) = k \<and> posted s = replicate k (Some x)"
  using assms
proof (induction k)
  case 0
  show ?case
    by (rule exI [of _ "thread_pool_create n debug"])
      (use pool_reachable.init [of n debug] sq.empty length_contents [of safe_queue_create] in
        \<open>simp add: thread_pool_create_def contents_create\<close>)
next
  case (Suc k)
  then obtain s where s: "pool_reachable n debug s" "main s = Serving" "pool_running (pool s)"
      "threads s = replicate (nat n) Dequeuing" "qcapacity (queue_of s) = 128"
      "queue_inv (queue_of s)" "qsize (queue_of s) = k" "posted s = replicate k (Some x)"
    by auto
  let ?t = "s\<lparr>main := Pushing x\<rparr>"
  have "enqueue_reserve (queue_of s) = Inr (queue_of s)"
    using s(5,7) Suc.prems by (simp add: enqueue_reserve_def)
  from push_step.push_reserve [OF s(2,3) this, of x] have t: "push_step s ?t" by simp
  obtain q where q: "enqueue_insert (queue_of s) (Some x) = Inr q" "queue_inv q"
      "contents q = contents (queue_of s) @ [Item (Some x)]" "qcapacity q = 128"
    using enqueue_insert_ok [OF s(6), of "Some x"] s(5,7) Suc.prems by auto
  then have size: "qsize q = Suc k" using s(7) by (metis length_append_singleton length_contents)
  have "push_step ?t ((set_queue q ?t)\<lparr>main := Serving, posted := posted ?t @ [Some x]\<rparr>)"
    using q(1) by (intro push_step.push_insert) auto
  with t s(1) have "pool_reachable n debug ((set_queue q ?t)\<lparr>main := Serving, posted := posted ?t @ [Some x]\<rparr>)"
    by (blast intro: pool_reachable.step pool_step.push)
  then show ?case
    using s q size by (intro exI [of _ "(set_queue q ?t)\<lparr>main := Serving, posted := posted ?t @ [Some x]\<rparr>"])
      (simp add: set_queue_def replicate_append_same)
qed

text \<open>The state right after \<^verbatim>\<open>thread_pool_destroy\<close> has cleared the flag.\<close>

lemma calm_begin:
  assumes "pool_reachable n debug s" "main s = Posting 0" "qcapacity (queue_of s) = 128"
    "\<not> qlocked (queue_of s)" "qsize (queue_of s) + nat n \<le> 32"
  shows "calm s"
  using reachable_inv [OF assms(1)] reachable_pool_size [OF assms(1)]
    reachable_stuck_locked [OF assms(1)] assms(2-5)
  by (auto simp: calm_def)

lemma destroy_begin_reachable:
  fixes x :: 'a
  assumes "k \<le> 128"
  shows "\<exists>s. pool_reachable n debug s \<and> main s = Posting 0 \<and> qcapacity (queue_of s) = 128 \<and>
             \<not> qlocked (queue_of s) \<and> qsize (queue_of s) = k \<and> tasks s = replicate k x"
proof -
  obtain s where s: "pool_reachable n debug s" "main s = Serving" "qcapacity (queue_of s) = 128"
      "queue_inv (queue_of s)" "qsize (queue_of s) = k" "posted s = replicate k (Some x)"
    using push_many [OF assms, of n debug x] by auto
  let ?t = "s\<lparr>pool := (pool s)\<lparr>pool_running := False\<rparr>, main := Posting 0\<rparr>"
  have "pool_reachable n debug ?t"
    by (rule pool_reachable.step [OF s(1)]) (intro pool_step.destroy destroy_step.destroy_begin s(2))
  moreover have "tasks ?t = replicate k x" using s(6) by (simp add: tasks_def filter_replicate)
  moreover have "\<not> qlocked (queue_of ?t)" using s(4) by (simp add: queue_inv_def)
  ultimately show ?thesis using s(3,5) by (intro exI [of _ ?t]) simp
qed

lemma shutdown_calls:
  assumes "pool_reachable n debug s" "main s = Destroyed" "0 < n" "qcapacity (queue_of s) = 128"
  shows "mset (calls s) = mset (map (\<lambda>x. Item (Some x)) (tasks s)) \<and>
         (\<forall>k < nat n. threads s ! k = Exited)"
proof -
  have inv: "pool_inv s" "ring_inv s" and n: "workers_of s = nat n"
    using reachable_inv [OF assms(1)] reachable_pool_size [OF assms(1)] assms(4) by auto
  then obtain ts where ts: "posted s = map Some ts @ replicate (nat n) None"
    using assms(2) by (auto simp: pool_inv_def)
  have ex: "\<forall>k < nat n. threads s ! k = Exited" using inv(1) assms(2) n by (simp add: pool_inv_def)
  have "mset (calls s) + mset (replicate (nat n) (Item None)) = mset (taken s)"
    using inv held_all_exited [of s "nat n"] ex n by (auto simp: pool_inv_def ring_inv_def)
  also have "\<dots> = mset (map Item (posted s))"
    using shutdown_taken_all [OF inv assms(2)] assms(3) n by simp
  also have "\<dots> = mset (map (\<lambda>x. Item (Some x)) ts) + mset (replicate (nat n) (Item None))"
    by (simp add: ts comp_def)
  finally show ?thesis using ex tasks_posted [OF ts] by simp
qed

section \<open>Properties of the pool\<close>

text \<open>
  C4. Shutdown loses no task and runs none twice: whenever \<^verbatim>\<open>thread_pool_destroy\<close> has
  finished, with at least one worker and a queue that was never full, every worker has left its
  loop and the task function was called exactly once for every task pushed, and never with
  \<^verbatim>\<open>NULL\<close> or an uninitialised slot.
\<close>

theorem shutdown_runs_every_task_once:
  assumes "pool_reachable n debug s" "main s = Destroyed" "0 < n" "qcapacity (queue_of s) = 128"
  shows "mset (calls s) = mset (map (\<lambda>x. Item (Some x)) (tasks s)) \<and>
         (\<forall>k < nat n. threads s ! k = Exited)"
  using shutdown_calls [OF assms] .

theorem shutdown_runs_every_task_once_witness:
  "\<exists>s. pool_reachable 4 False s \<and> main s = Destroyed \<and> tasks s = replicate 3 (7::nat) \<and>
       mset (calls s) = mset (replicate 3 (Item (Some 7)))"
proof -
  obtain s :: "nat pool_state" where s: "pool_reachable 4 False s" "main s = Posting 0"
      "qcapacity (queue_of s) = 128" "\<not> qlocked (queue_of s)" "qsize (queue_of s) = 3"
      "tasks s = replicate 3 7"
    using destroy_begin_reachable [of 3 4 False 7] by auto
  then obtain t where t: "pool_step\<^sup>*\<^sup>* s t" "calm t" "main t = Destroyed" "tasks t = replicate 3 7"
    using calm_reaches_destroyed [OF calm_begin [OF s(1-4)]] by auto
  have "pool_reachable 4 False t" using reachable_run [OF t(1) s(1)] .
  from shutdown_runs_every_task_once [OF this t(3)] t(2-4) this show ?thesis
    by (intro exI [of _ t]) (simp add: calm_def)
qed



text \<open>
  C8. Shutdown terminates under every schedule: from the moment \<^verbatim>\<open>thread_pool_destroy\<close> has
  cleared \<^verbatim>\<open>running\<close>, with at most 32 items pending or still to be posted, no run is
  longer than a fixed bound, and a run that has not destroyed the pool can always go on.
\<close>

theorem shutdown_terminates:
  assumes "pool_reachable n debug s" "main s = Posting 0" "qcapacity (queue_of s) = 128"
    "\<not> qlocked (queue_of s)" "qsize (queue_of s) + nat n \<le> 32" "(pool_step ^^ k) s s'"
  shows "k \<le> shutdown_work s \<and> (main s' = Destroyed \<or> (\<exists>s''. pool_step s' s''))"
  using calm_run [OF assms(6) calm_begin [OF assms(1-5)]] calm_progress [of s'] by auto

theorem shutdown_terminates_witness:
  "\<exists>s :: nat pool_state. pool_reachable 4 False s \<and> main s = Posting 0 \<and>
     tasks s = replicate 28 0 \<and> (\<exists>s''. pool_step s s'')"
proof -
  obtain s :: "nat pool_state" where s: "pool_reachable 4 False s" "main s = Posting 0"
      "qcapacity (queue_of s) = 128" "\<not> qlocked (queue_of s)" "qsize (queue_of s) = 28"
      "tasks s = replicate 28 0"
    using destroy_begin_reachable [of 28 4 False 0] by auto
  with shutdown_terminates [OF s(1-4), of 0 s] show ?thesis by (intro exI [of _ s]) simp
qed



end
