(* ===== verification/HttpServer.thy ===== *)
theory HttpServer
  imports Middleware ThreadPool
begin

text \<open>
  The HTTP server of \<^verbatim>\<open>src/http-server.h\<close> and \<^verbatim>\<open>src/http-server.c\<close>: its configuration,
  the worker function \<^verbatim>\<open>handle_client\<close> and the life cycle of the server. What the
  operating system returns is a parameter: whether a tested allocation succeeds, the bytes
  \<^verbatim>\<open>read\<close> delivers (\<^const>\<open>None\<close> for an error), and the results of \<^verbatim>\<open>socket\<close>,
  \<^verbatim>\<open>bind\<close>, \<^verbatim>\<open>listen\<close>, \<^verbatim>\<open>accept\<close> and \<^verbatim>\<open>shutdown\<close>.
\<close>

section \<open>State\<close>

record ServerConfig =
  cfg_self :: ptr
  cfg_address :: string
  cfg_port :: int
  cfg_client_limit :: int
  cfg_worker_limit :: int
  cfg_buffer_size :: int
  cfg_middlewares :: ServerMiddlewares
  cfg_debug :: bool

record HandlerArg =
  ha_self :: ptr
  ha_config :: ServerConfig
  ha_client_sockfd :: int

section \<open>Configuration\<close>

definition server_config_create :: "bool \<Rightarrow> (world, ServerConfig) prog" where
  "server_config_create alloc_ok =
     (if alloc_ok then
        andthenM (malloc Struct) (\<lambda>self.
        andthenM server_middlewares_create (\<lambda>mws.
        return \<lparr>cfg_self = self, cfg_address = ''0.0.0.0'', cfg_port = 8080,
                cfg_client_limit = 4096 - 1, cfg_worker_limit = 4, cfg_buffer_size = 1024 * 1024,
                cfg_middlewares = mws, cfg_debug = False\<rparr>))
      else
        andthenM (emit (Stderr (''Failed to allocate memory for server config'' @ [LF]))) (\<lambda>_.
        fault ExitFailure))"

section \<open>Handling a client\<close>

definition debug_print :: "bool \<Rightarrow> string \<Rightarrow> (world, unit) prog" where
  "debug_print debug t = (if debug then emit (Stderr (t @ [LF])) else return ())"

text \<open>The loop over the middlewares.\<close>

fun run_middlewares :: "bool \<Rightarrow> ServerMiddleware list \<Rightarrow> Request \<Rightarrow> Response \<Rightarrow> (world, Response) prog" where
  "run_middlewares debug [] rq rs = return rs"
| "run_middlewares debug (m # ms) rq rs =
     andthenM (if debug then andthenM (load (mw_name m)) (\<lambda>n. debug_print debug (''Middleware: '' @ n))
               else return ()) (\<lambda>_.
     andthenM (mw_handler m rq rs) (\<lambda>(turn_over, rs).
     andthenM (debug_print debug (''  -> '' @ (if turn_over then ''next'' else ''stop'') @
       '' (stream: '' @ (if rs_body_stream rs \<noteq> None then ''set'' else ''unset'') @ '')'')) (\<lambda>_.
     if \<not> turn_over \<or> rs_body_stream rs \<noteq> None then return rs
     else run_middlewares debug ms rq rs)))"

text \<open>The loop of \<^verbatim>\<open>fread\<close> and \<^verbatim>\<open>write\<close> over the stream.\<close>

function send_stream :: "nat \<Rightarrow> int \<Rightarrow> string \<Rightarrow> (world, unit) prog" where
  "send_stream n sock bytes =
     (if n = 0 \<or> bytes = [] then return ()
      else andthenM (emit (SockWrite sock (take n bytes))) (\<lambda>_. send_stream n sock (drop n bytes)))"
  by pat_completeness auto
termination by (relation "measure (\<lambda>(n, sock, bytes). length bytes)") auto

declare send_stream.simps [simp del]

text \<open>
  Sending the response; the result is \<^const>\<open>False\<close> when the stream buffer cannot be allocated
  and the function returns without its clean-up.
\<close>

definition send_response :: "bool \<Rightarrow> ServerConfig \<Rightarrow> int \<Rightarrow> Response \<Rightarrow> (world, bool) prog" where
  "send_response alloc_ok config sock rs =
     (case rs_body_stream rs of
        Some f \<Rightarrow>
          andthenM (headers_to_string (rs_headers rs)) (\<lambda>headers_str.
          andthenM (load headers_str) (\<lambda>t.
          andthenM (emit (SockWrite sock t)) (\<lambda>_.
          andthenM (free headers_str) (\<lambda>_.
          if alloc_ok then
            andthenM (malloc Struct) (\<lambda>buffer.
            andthenM (send_stream (nat (cfg_buffer_size config)) sock (fl_rest f)) (\<lambda>_.
            andthenM (free buffer) (\<lambda>_.
            andthenM (free (fl_self f)) (\<lambda>_.
            return True))))
          else
            andthenM (emit (Stderr (''Failed to allocate memory for response buffer'' @ [LF]))) (\<lambda>_.
            andthenM (emit (SockClose sock)) (\<lambda>_.
            return False))))))
      | None \<Rightarrow>
          andthenM (response_to_string rs) (\<lambda>response_str.
          andthenM (load response_str) (\<lambda>t.
          andthenM (emit (SockWrite sock t)) (\<lambda>_.
          andthenM (free response_str) (\<lambda>_.
          return True)))))"

text \<open>
  \<^verbatim>\<open>read\<close> into the zeroed buffer: the bytes it stores, at most \<^verbatim>\<open>buffer_size - 1\<close> as an
  unsigned number of 64 bits.
\<close>

definition read_limit :: "ServerConfig \<Rightarrow> nat" where
  "read_limit config = nat ((cfg_buffer_size config - 1) mod 2 ^ 64)"

definition received :: "ServerConfig \<Rightarrow> string option \<Rightarrow> string" where
  "received config input = (case input of None \<Rightarrow> [] | Some bytes \<Rightarrow> take (read_limit config) bytes)"

definition request_buffer :: "ServerConfig \<Rightarrow> string \<Rightarrow> string" where
  "request_buffer config bytes =
     bytes @ replicate (nat (cfg_buffer_size config) - length bytes) NUL"

definition handle_client :: "bool \<Rightarrow> string option \<Rightarrow> bool \<Rightarrow> HandlerArg \<Rightarrow> (world, unit) prog" where
  "handle_client alloc_ok input stream_alloc_ok arg =
     (let config = ha_config arg; sock = ha_client_sockfd arg; debug = cfg_debug config in
     andthenM (free (ha_self arg)) (\<lambda>_.
     andthenM (debug_print debug ''Client connected'') (\<lambda>_.
     if \<not> alloc_ok then
       andthenM (emit (Stderr (''Failed to allocate memory for request buffer'' @ [LF]))) (\<lambda>_.
       emit (SockClose sock))
     else
       andthenM (malloc Struct) (\<lambda>buffer.
       let bytes = received config input in
       if bytes = [] then
         andthenM (emit (Stderr (''Failed to read from client or client disconnected'' @ [LF]))) (\<lambda>_.
         andthenM (free buffer) (\<lambda>_.
         emit (SockClose sock)))
       else if cfg_buffer_size config < int (length bytes) then fault BufferOverflow
       else
         let buf = request_buffer config bytes in
         andthenM (debug_print debug (''Request:'' @ [LF] @ cstr buf 0)) (\<lambda>_.
         andthenM (request_parse buf) (\<lambda>rq.
         andthenM response_create (\<lambda>rs.
         andthenM (run_middlewares debug (mws_list (cfg_middlewares config)) rq rs) (\<lambda>rs.
         andthenM (send_response stream_alloc_ok config sock rs) (\<lambda>sent.
         if \<not> sent then return ()
         else
           andthenM (response_destroy rs) (\<lambda>_.
           andthenM (request_destroy rq) (\<lambda>_.
           andthenM (free buffer) (\<lambda>_.
           emit (SockClose sock)))))))))))))"

section \<open>Running a chain of conforming handlers\<close>

lemma debug_print_run [simp]:
  "debug_print d t w = Inr ((), w\<lparr>events := events w @ (if d then [Stderr (t @ [LF])] else [])\<rparr>)"
  by (simp add: debug_print_def emit_run)

lemma handled_start:
  "handled n v rs w' rs' \<Longrightarrow> hp v = hp w \<Longrightarrow> clock v = clock w \<Longrightarrow>
   sock_events (events v) = sock_events (events w) \<Longrightarrow> handled n w rs w' rs'"
  by (simp add: handled_def)

lemma handled_end:
  "handled n w rs v rs' \<Longrightarrow> hp v = hp w' \<Longrightarrow> clock v = clock w' \<Longrightarrow>
   sock_events (events v) = sock_events (events w') \<Longrightarrow> handled n w rs w' rs'"
  by (simp add: handled_def)

text \<open>A string outside of the response stays there and outside of it.\<close>

definition outside :: "heap \<Rightarrow> Response \<Rightarrow> ptr \<Rightarrow> bool" where
  "outside h rs p \<longleftrightarrow> str_at h p \<noteq> None \<and> p \<notin> set (response_ptrs rs)"

lemma outside_handled:
  assumes "handled n w rs w' rs'" "outside (hp w) rs p"
  shows "outside (hp w') rs' p"
proof -
  have t: "transfer (hp w) (response_ptrs rs) (hp w') (response_ptrs rs')"
    and own: "owned (hp w') (response_ptrs rs')"
    using assms(1) by (auto simp: handled_def response_ok_def)
  obtain s where s: "str_at (hp w) p = Some s" "p \<notin> set (response_ptrs rs)"
    using assms(2) by (auto simp: outside_def)
  have "p \<notin> set (response_ptrs rs')"
  proof (cases p)
    case (Addr a)
    then show ?thesis using t s str_at_live [of "hp w" a s] by (auto simp: transfer_def simp del: str_at_Addr)
  next
    case (Lit l)
    then show ?thesis using own by (auto simp: owned_def list_all_iff)
  qed (use s(1) in simp)
  then show ?thesis using transfer_str_at [OF t s] by (simp add: outside_def)
qed

lemma run_Cons:
  fixes debug :: bool and name :: string
  defines "e \<equiv> if debug then [Stderr (''Middleware: '' @ name @ [LF])] else []"
  assumes "str_at (hp w) (mw_name m) = Some name"
    "mw_handler m rq rs (w\<lparr>events := events w @ e\<rparr>) = Inr ((b, rs'), w')" "rs_body_stream rs' = None"
  shows "\<exists>es. sock_events es = [] \<and>
    run_middlewares debug (m # ms) rq rs w =
      (if b then run_middlewares debug ms rq rs' (w'\<lparr>events := events w' @ es\<rparr>)
       else Inr (rs', w'\<lparr>events := events w' @ es\<rparr>))"
proof -
  have pre: "(if debug then andthenM (load (mw_name m)) (\<lambda>n. debug_print debug (''Middleware: '' @ n))
      else return ()) w = Inr ((), w\<lparr>events := events w @ e\<rparr>)"
    using assms(2) by (cases debug) (simp_all add: e_def andthenM_run load_str_at)
  obtain es where es: "debug_print debug (''  -> '' @ (if b then ''next'' else ''stop'') @
       '' (stream: '' @ (if rs_body_stream rs' \<noteq> None then ''set'' else ''unset'') @ '')'') w' =
       Inr ((), w'\<lparr>events := events w' @ es\<rparr>)" "sock_events es = []" by simp
  have "run_middlewares debug (m # ms) rq rs w =
      (if b then run_middlewares debug ms rq rs' (w'\<lparr>events := events w' @ es\<rparr>)
       else Inr (rs', w'\<lparr>events := events w' @ es\<rparr>))"
    unfolding run_middlewares.simps andthenM_run pre assms(3) es(1) andthen.simps prod.case
    using assms(4) by simp
  then show ?thesis using es(2) by blast
qed

locale middleware_chain =
  fixes chain :: "ServerMiddleware list"
  assumes members: "m \<in> set chain \<Longrightarrow> middleware_contract (mw_handler m)"
begin

lemma run_ok:
  assumes "set ms \<subseteq> set chain" "exchange_ok (hp w) rq rs" "rs_body rs = NULL"
    "rs_body_stream rs = None" "\<forall>i. tm_ok (clock w i)" "\<forall>m \<in> set ms. outside (hp w) rs (mw_name m)"
  shows "\<exists>rs' w'. run_middlewares debug ms rq rs w = Inr (rs', w') \<and>
    handled (4096 * length ms) w rs w' rs'"
  using assms
proof (induction ms arbitrary: rs w)
  case Nil
  then show ?case by (auto simp: exchange_ok_def intro!: handled_same)
next
  case (Cons m ms)
  obtain name where name: "str_at (hp w) (mw_name m) = Some name"
    using Cons.prems(6) by (auto simp: outside_def)
  define w1 where "w1 = w\<lparr>events := events w @ (if debug then [Stderr (''Middleware: '' @ name @ [LF])] else [])\<rparr>"
  have w1: "hp w1 = hp w" "clock w1 = clock w" "sock_events (events w1) = sock_events (events w)"
    by (simp_all add: w1_def)
  have "middleware_contract (mw_handler m)" using Cons.prems(1) members by simp
  from middleware_contract.conforms [OF this, of w1 rq rs] Cons.prems(2-5) w1
  obtain b rs1 w2 where 2: "mw_handler m rq rs w1 = Inr ((b, rs1), w2)" "handled 4096 w1 rs w2 rs1"
      "b \<longrightarrow> rs_body rs1 = NULL" by auto
  have stream: "rs_body_stream rs1 = None" using 2(2) by (simp add: handled_def)
  obtain es where es: "sock_events es = []" "run_middlewares debug (m # ms) rq rs w =
      (if b then run_middlewares debug ms rq rs1 (w2\<lparr>events := events w2 @ es\<rparr>)
       else Inr (rs1, w2\<lparr>events := events w2 @ es\<rparr>))"
    using run_Cons [OF name 2(1) [unfolded w1_def] stream] by blast
  note run = es(2)
  let ?w3 = "w2\<lparr>events := events w2 @ es\<rparr>"
  have h: "handled 4096 w rs ?w3 rs1"
    by (rule handled_end [OF handled_start [OF 2(2) w1]]) (use es(1) in simp_all)
  show ?case
  proof (cases b)
    case True
    have "response_ok (hp ?w3) rs1" "transfer (hp w) (response_ptrs rs) (hp ?w3) (response_ptrs rs1)"
      using h unfolding handled_def by blast+
    then have "exchange_ok (hp ?w3) rq rs1" by (rule exchange_step(1) [OF Cons.prems(2)])
    moreover have "\<forall>i. tm_ok (clock ?w3 i)" using h Cons.prems(5) by (simp add: handled_def)
    moreover have "\<forall>m \<in> set ms. outside (hp ?w3) rs1 (mw_name m)"
      using Cons.prems(6) outside_handled [OF h] by simp
    ultimately obtain rs' w' where "run_middlewares debug ms rq rs1 ?w3 = Inr (rs', w')"
        "handled (4096 * length ms) ?w3 rs1 w' rs'"
      using Cons.IH [of ?w3 rs1] Cons.prems(1) 2(3) True stream by auto
    then show ?thesis using run True handled_trans [OF h] by auto
  next
    case False
    then show ?thesis using run handled_mono [OF h] by simp
  qed
qed

end

section \<open>From the parsed request to the closed socket\<close>

lemma send_plain:
  assumes "response_ok (hp w) rs" "rs_body_stream rs = None" "length (response_text (hp w) rs) < BUFFER_SIZE"
  shows "send_response ok config sock rs w =
    Inr (True, w\<lparr>hp := hp w @ replicate 4 None,
                  events := events w @ [SockWrite sock (response_text (hp w) rs)]\<rparr>)"
proof -
  let ?t = "response_text (hp w) rs" and ?a = "length (hp w) + 3"
  let ?h = "hp w @ [None, None, None, Some (Bytes ?t)]"
  have "load (Addr ?a) (w\<lparr>hp := ?h\<rparr>) = Inr (?t, w\<lparr>hp := ?h\<rparr>)"
    by (rule load_str_at) (simp add: nth_append)
  moreover have "free (Addr ?a) (w\<lparr>hp := ?h, events := es\<rparr>) =
      Inr ((), w\<lparr>hp := hp w @ replicate 4 None, events := es\<rparr>)" for es
    by (subst free_live) (simp_all add: live_def nth_append list_update_append numeral_eq_Suc)
  ultimately show ?thesis
    using response_to_string_run [OF assms(1)] assms(2,3)
    by (simp add: send_response_def andthenM_run emit_run)
qed

lemma start_exchange:
  assumes "request_ok (hp w) rq" "response_create w = Inr (rs, w')"
  shows "exchange_ok (hp w') rq rs"
    "transfer (hp w) (request_ptrs rq) (hp w') (response_ptrs rs @ request_ptrs rq)"
    "length (response_text (hp w') rs) \<le> 60"
    "str_at (hp w) p \<noteq> None \<Longrightarrow> outside (hp w') rs p"
proof -
  note c = response_create_ok [OF assms(2)]
  have live: "Addr a \<in> set (request_ptrs rq) \<Longrightarrow> a \<in> live (hp w)" for a
    using request_ptr_live [OF assms(1)] by blast
  then have "Addr a \<in> set (request_ptrs rq) \<Longrightarrow> a < length (hp w') \<and> hp w' ! a = hp w ! a" for a
    using transfer_keeps [OF c(2)] by simp
  note rq = request_frame [OF assms(1) this]
  show "transfer (hp w) (request_ptrs rq) (hp w') (response_ptrs rs @ request_ptrs rq)"
    using transfer_frame [OF c(2), of "request_ptrs rq"] live by simp
  have "owned (hp w') (response_ptrs rs @ request_ptrs rq)"
    using owned_frame [OF c(2), of "request_ptrs rq"] assms(1) c(1)
    by (simp add: request_ok_def response_ok_def)
  then show "exchange_ok (hp w') rq rs" using rq(1) c(1) by (simp add: exchange_ok_def)
  have "length (show_int 200) \<le> 3" "length (show_nat 0) \<le> 1"
    by (simp_all add: length_show_int_le length_show_nat)
  then show "length (response_text (hp w') rs) \<le> 60"
    using c(3,4,5)
    by (simp add: response_text_def length_response_format body_view_def str_or_empty_def)
  show "outside (hp w') rs p" if valid: "str_at (hp w) p \<noteq> None"
  proof -
    obtain s where s: "str_at (hp w) p = Some s" using valid by auto
    have "p \<notin> set (response_ptrs rs)"
    proof (cases p)
      case (Addr a)
      then show ?thesis
        using c(2) s str_at_live [of "hp w" a s] by (auto simp: transfer_def simp del: str_at_Addr)
    next
      case (Lit l)
      then show ?thesis using c(1) by (auto simp: response_ok_def owned_def list_all_iff)
    qed (use s in simp)
    then show ?thesis using transfer_str_at [OF c(2) s] by (simp add: outside_def)
  qed
qed

lemma exchange_apart:
  assumes "exchange_ok h rq rs" "Addr a \<in> set (request_ptrs rq)"
  shows "a \<in> live h \<and> Addr a \<notin> set (response_ptrs rs)"
  using owned_apart assms unfolding exchange_ok_def by blast

lemma dispose_exchange:
  assumes "exchange_ok (hp w) rq rs"
  shows "\<exists>h1 h2. response_destroy rs w = Inr ((), w\<lparr>hp := h1\<rparr>) \<and>
    request_destroy rq (w\<lparr>hp := h1\<rparr>) = Inr ((), w\<lparr>hp := h2\<rparr>) \<and>
    transfer (hp w) (response_ptrs rs @ request_ptrs rq) h2 []"
proof -
  have r: "response_ok (hp w) rs" "request_ok (hp w) rq" "owned (hp w) (response_ptrs rs @ request_ptrs rq)"
    using assms by (simp_all add: exchange_ok_def)
  let ?h1 = "frees (addrs (response_ptrs rs)) (hp w)"
  have "a < length ?h1 \<and> ?h1 ! a = hp w ! a" if "Addr a \<in> set (request_ptrs rq)" for a
    using exchange_apart [OF assms that] by (simp add: frees_nth live_def)
  then have rq: "request_ok ?h1 rq" using request_frame(1) [OF r(2)] by blast
  have "transfer (hp w) (response_ptrs rs @ request_ptrs rq) ?h1 (request_ptrs rq)"
    using transfer_frame [OF response_destroy_run(2) [OF r(1)], of "request_ptrs rq"]
      exchange_apart [OF assms] by simp
  moreover have "transfer ?h1 (request_ptrs rq) (frees (addrs (request_ptrs rq)) ?h1) []"
    using request_destroy_run(2) [of "w\<lparr>hp := ?h1\<rparr>" rq] rq by simp
  ultimately have "transfer (hp w) (response_ptrs rs @ request_ptrs rq)
      (frees (addrs (request_ptrs rq)) ?h1) []" by (rule transfer_trans)
  then show ?thesis
    using response_destroy_run(1) [OF r(1)] request_destroy_run(1) [of "w\<lparr>hp := ?h1\<rparr>" rq] rq by auto
qed

text \<open>
  The part of \<^const>\<open>handle_client\<close> behind the parser, with what it emits on the socket. The
  hypothesis on the parser is discharged for well-formed requests below.
\<close>

definition answers :: "HandlerArg \<Rightarrow> world \<Rightarrow> world \<Rightarrow> string \<Rightarrow> bool" where
  "answers arg w w' reply \<longleftrightarrow>
     transfer (hp w) [ha_self arg] (hp w') [] \<and>
     sock_events (events w') =
       sock_events (events w) @ [SockWrite (ha_client_sockfd arg) reply, SockClose (ha_client_sockfd arg)] \<and>
     clock w' = clock w"

definition fresh_response :: "heap \<Rightarrow> Response \<Rightarrow> bool" where
  "fresh_response h rs \<longleftrightarrow>
     rs_body rs = NULL \<and> rs_body_stream rs = None \<and> headers_view h (rs_headers rs) = []"

text \<open>Every reply that the handlers produce for a path, from a new response, satisfies \<open>R\<close>.\<close>

definition replies ::
  "bool \<Rightarrow> ServerMiddleware list \<Rightarrow> string \<Rightarrow> world \<Rightarrow> (string \<Rightarrow> bool) \<Rightarrow> bool" where
  "replies debug ms p w R \<longleftrightarrow>
     (\<forall>rq rs w1 rs2 w2. exchange_ok (hp w1) rq rs \<and> fresh_response (hp w1) rs \<and>
        str_at (hp w1) (rq_path rq) = Some p \<and> clock w1 = clock w \<and> ticks w1 = ticks w \<and>
        (\<forall>m \<in> set ms. outside (hp w1) rs (mw_name m)) \<and>
        run_middlewares debug ms rq rs w1 = Inr (rs2, w2) \<longrightarrow>
        R (response_text (hp w2) rs2))"

lemma transfer_frees_nothing: "transfer h ps h' qs \<Longrightarrow> transfer h ps (h' @ replicate k None) qs"
proof -
  have "live (h' @ replicate k None) = live h'"
  proof (induction k)
    case (Suc k)
    have "h' @ replicate (Suc k) None = (h' @ replicate k None) @ [None]"
      by (simp add: replicate_append_same)
    then show ?case using Suc by (simp only: live_snoc_None)
  qed simp
  then show "transfer h ps h' qs \<Longrightarrow> transfer h ps (h' @ replicate k None) qs"
    using live_less [of _ h'] by (auto simp: transfer_def nth_append)
qed

lemma exchange_append:
  assumes "exchange_ok h rq rs"
  shows "exchange_ok (h @ replicate k None) rq rs"
proof -
  have r: "response_ok h rs" "owned h (response_ptrs rs)"
    using assms by (auto simp: exchange_ok_def response_ok_def)
  show ?thesis
    using exchange_step(1) [OF assms response_frame_append(1) [OF r(1)]]
      transfer_frees_nothing [OF transfer_owned_refl [OF r(2)]] by blast
qed

context middleware_chain
begin

lemma exchange_run:
  assumes "request_ok (hp w) rq" "\<forall>i. tm_ok (clock w i)" "\<forall>m \<in> set chain. str_at (hp w) (mw_name m) \<noteq> None"
    "length chain \<le> 200" "buffer \<in> live (hp w)" "Addr buffer \<notin> set (request_ptrs rq)"
    "str_at (hp w) (rq_path rq) = Some p" "replies debug chain p w R"
  shows "\<exists>rs w1 rs2 w2 w3 w4 h5 reply.
    response_create w = Inr (rs, w1) \<and> run_middlewares debug chain rq rs w1 = Inr (rs2, w2) \<and>
    send_response ok config sock rs2 w2 = Inr (True, w3) \<and> response_destroy rs2 w3 = Inr ((), w4) \<and>
    request_destroy rq w4 = Inr ((), w4\<lparr>hp := h5\<rparr>) \<and>
    free (Addr buffer) (w4\<lparr>hp := h5\<rparr>) = Inr ((), w4\<lparr>hp := h5[buffer := None]\<rparr>) \<and>
    transfer (hp w) (Addr buffer # request_ptrs rq) (h5[buffer := None]) [] \<and>
    sock_events (events w4) = sock_events (events w) @ [SockWrite sock reply] \<and> R reply \<and>
    clock w4 = clock w"
proof -
  obtain rs w1 where c: "response_create w = Inr (rs, w1)" by (simp add: response_create_run)
  note e = start_exchange [OF assms(1) c] and ok = response_create_ok [OF c]
  have w1: "events w1 = events w" "clock w1 = clock w" "ticks w1 = ticks w" by (subst ok(7), simp)+
  obtain rs2 w2 where run: "run_middlewares debug chain rq rs w1 = Inr (rs2, w2)"
      "handled (4096 * length chain) w1 rs w2 rs2"
    using run_ok [OF subset_refl e(1) ok(5,6), of debug] assms(2,3) w1 e(4) by auto
  have "str_at (hp w1) (rq_path rq) = Some p"
    by (rule transfer_str_at [OF ok(2) assms(7)]) simp
  then have R: "R (response_text (hp w2) rs2)"
    using assms(3,8) e(1,4) ok(3,5,6) w1 run(1) unfolding replies_def fresh_response_def by blast
  from run(2) have h: "response_ok (hp w2) rs2" "rs_body_stream rs2 = None"
      "transfer (hp w1) (response_ptrs rs) (hp w2) (response_ptrs rs2)"
      "sock_events (events w2) = sock_events (events w)"
      "length (response_text (hp w2) rs2) < BUFFER_SIZE" "clock w2 = clock w"
    using e(3) assms(4) w1 by (auto simp: handled_def BUFFER_SIZE_def)
  let ?w3 = "w2\<lparr>hp := hp w2 @ replicate 4 None,
      events := events w2 @ [SockWrite sock (response_text (hp w2) rs2)]\<rparr>"
  have e2: "exchange_ok (hp w2) rq rs2" by (rule exchange_step(1) [OF e(1) h(1,3)])
  then have "exchange_ok (hp ?w3) rq rs2" by (simp add: exchange_append)
  from dispose_exchange [OF this] obtain h4 h5 where d: "response_destroy rs2 ?w3 = Inr ((), ?w3\<lparr>hp := h4\<rparr>)"
      "request_destroy rq (?w3\<lparr>hp := h4\<rparr>) = Inr ((), ?w3\<lparr>hp := h5\<rparr>)"
      "transfer (hp ?w3) (response_ptrs rs2 @ request_ptrs rq) h5 []" by blast
  have "transfer (hp w1) (response_ptrs rs @ request_ptrs rq) (hp w2) (response_ptrs rs2 @ request_ptrs rq)"
    using exchange_apart [OF e(1)] by (intro transfer_frame [OF h(3)]) blast
  then have "transfer (hp w) (request_ptrs rq) (hp ?w3) (response_ptrs rs2 @ request_ptrs rq)"
    using transfer_trans [OF e(2)] transfer_frees_nothing by simp
  from transfer_trans [OF this d(3)] have t: "transfer (hp w) (request_ptrs rq) h5 []" .
  have b: "buffer \<in> live h5" by (rule transfer_live [OF t assms(5,6)])
  have "transfer (hp w) (request_ptrs rq @ [Addr buffer]) h5 [Addr buffer]"
    using transfer_frame [OF t, of "[Addr buffer]"] assms(5,6) by simp
  moreover have "transfer h5 [Addr buffer] (h5[buffer := None]) []"
    using transfer_frees [of h5 "[Addr buffer]"] b by (simp add: owned_def)
  ultimately have "transfer (hp w) (request_ptrs rq @ [Addr buffer]) (h5[buffer := None]) []"
    by (rule transfer_trans)
  then have "transfer (hp w) (Addr buffer # request_ptrs rq) (h5[buffer := None]) []"
    by (rule transfer_same) auto
  then show ?thesis
    using c run(1) send_plain [OF h(1,2,5)] d(1,2) h(4,6) b R
    by (intro exI [of _ rs] exI [of _ w1] exI [of _ rs2] exI [of _ w2] exI [of _ ?w3]
        exI [of _ "?w3\<lparr>hp := h4\<rparr>"] exI [of _ h5] exI [of _ "response_text (hp w2) rs2"])
      (simp add: free_live)
qed


lemma handle_ok:
  assumes "ha_self arg = Addr a" "a < length (hp w)" "hp w ! a = Some Struct"
    "mws_list (cfg_middlewares (ha_config arg)) = chain" "\<forall>i. tm_ok (clock w i)"
    "\<forall>m \<in> set chain. str_at (hp w) (mw_name m) \<noteq> None" "length chain \<le> 200"
    "received (ha_config arg) input = bytes" "bytes \<noteq> []"
    "int (length bytes) \<le> cfg_buffer_size (ha_config arg)"
    "\<And>v. \<exists>rq h. request_parse (request_buffer (ha_config arg) bytes) v = Inr (rq, v\<lparr>hp := h\<rparr>) \<and>
       request_ok h rq \<and> transfer (hp v) [] h (request_ptrs rq) \<and> str_at h (rq_path rq) = Some p"
    "replies (cfg_debug (ha_config arg)) chain p w R"
  shows "\<exists>w' reply. handle_client True input ok arg w = Inr ((), w') \<and> answers arg w w' reply \<and> R reply"
proof -
  let ?cfg = "ha_config arg" and ?sock = "ha_client_sockfd arg"
  let ?debug = "cfg_debug ?cfg" and ?buf = "request_buffer ?cfg bytes"
  let ?h1 = "(hp w)[a := None]"
  define e1 where "e1 = events w @ (if ?debug then [Stderr (''Client connected'' @ [LF])] else [])"
  define e2 where "e2 = e1 @ (if ?debug then [Stderr ((''Request:'' @ [LF] @ cstr ?buf 0) @ [LF])] else [])"
  let ?v = "w\<lparr>hp := ?h1 @ [Some Struct], events := e2\<rparr>"
  have a: "a \<in> live (hp w)" using assms(2,3) by (simp add: live_def)
  obtain rq h where p: "request_parse ?buf ?v = Inr (rq, ?v\<lparr>hp := h\<rparr>)" "request_ok h rq"
      "transfer (?h1 @ [Some Struct]) [] h (request_ptrs rq)" "str_at h (rq_path rq) = Some p"
    using assms(11) [of ?v] by auto
  let ?w = "w\<lparr>hp := h, events := e2\<rparr>" and ?b = "length (hp w)"
  have t0: "transfer (hp w) [Addr a] ?h1 []"
    using transfer_frees [of "hp w" "[Addr a]"] a by (simp add: owned_def)
  have t1: "transfer ?h1 [] (?h1 @ [Some Struct]) [Addr ?b]" using transfer_malloc [of ?h1] by simp
  have b: "?b \<in> live (?h1 @ [Some Struct])" by (simp add: live_def nth_append)
  have b2: "?b \<in> live h" by (rule transfer_live [OF p(3) b]) simp
  have b3: "Addr ?b \<notin> set (request_ptrs rq)" using p(3) b by (auto simp: transfer_def)
  have t2: "transfer (?h1 @ [Some Struct]) [Addr ?b] h (Addr ?b # request_ptrs rq)"
    using transfer_frame_left [OF p(3), of "[Addr ?b]"] b by simp
  have names: "str_at h (mw_name m) \<noteq> None" if m: "m \<in> set chain" for m
  proof -
    obtain s where s: "str_at (hp w) (mw_name m) = Some s" using assms(6) m by auto
    then have "mw_name m \<noteq> Addr a" using assms(3) by (auto simp: str_at.simps(3) split: if_splits)
    then have "str_at ?h1 (mw_name m) = Some s" using transfer_str_at [OF t0 s] by simp
    then have "str_at (?h1 @ [Some Struct]) (mw_name m) = Some s" by simp
    from transfer_str_at [OF p(3) this] show ?thesis by simp
  qed
  have R: "replies ?debug chain p ?w R" using assms(12) by (simp add: replies_def)
  obtain rs w1 rs2 w2 w3 w4 h5 reply where x: "response_create ?w = Inr (rs, w1)"
      "run_middlewares ?debug chain rq rs w1 = Inr (rs2, w2)"
      "send_response ok ?cfg ?sock rs2 w2 = Inr (True, w3)" "response_destroy rs2 w3 = Inr ((), w4)"
      "request_destroy rq w4 = Inr ((), w4\<lparr>hp := h5\<rparr>)"
      "free (Addr ?b) (w4\<lparr>hp := h5\<rparr>) = Inr ((), w4\<lparr>hp := h5[?b := None]\<rparr>)"
      "transfer h (Addr ?b # request_ptrs rq) (h5[?b := None]) []"
      "sock_events (events w4) = sock_events e2 @ [SockWrite ?sock reply]" "R reply" "clock w4 = clock w"
    using exchange_run [of ?w rq ?b p ?debug R ok ?cfg ?sock] p(2,4) assms(5,7) names b2 b3 R by auto
  let ?w' = "w4\<lparr>hp := h5[?b := None], events := events w4 @ [SockClose ?sock]\<rparr>"
  have d: "debug_print ?debug ''Client connected'' (w\<lparr>hp := ?h1\<rparr>) = Inr ((), w\<lparr>hp := ?h1, events := e1\<rparr>)"
      "debug_print ?debug (''Request:'' @ [LF] @ cstr ?buf 0) (w\<lparr>hp := ?h1 @ [Some Struct], events := e1\<rparr>) =
       Inr ((), ?v)"
    by (simp_all add: e1_def e2_def)
  have "handle_client True input ok arg w = Inr ((), ?w')"
    using assms(4,8,9,10) a p(1) x(1-6) d
    by (simp add: handle_client_def andthenM_run Let_def assms(1) free_live malloc_run emit_run
        del: debug_print_run)
  moreover have "transfer (hp w) [ha_self arg] (hp ?w') []"
    using transfer_trans [OF transfer_trans [OF transfer_trans [OF t0 t1] t2] x(7)] assms(1) by simp
  moreover have "sock_events e2 = sock_events (events w)" by (simp add: e2_def e1_def)
  ultimately show ?thesis
    using x(8-10) by (intro exI [of _ ?w'] exI [of _ reply]) (simp add: answers_def)
qed

end

section \<open>Life cycle of the server\<close>

record Server =
  srv_self :: ptr
  srv_sockfd :: int
  srv_config :: ServerConfig
  srv_pool :: "HandlerArg pool_state option"

definition fail :: "string \<Rightarrow> (world, 'a) prog" where
  "fail t = andthenM (emit (Stderr (t @ [LF]))) (\<lambda>_. fault ExitFailure)"

text \<open>
  \<^verbatim>\<open>htons(config->port)\<close> keeps the low 16 bits of the port; the byte order on the wire is left
  out.
\<close>

definition server_create :: "bool \<Rightarrow> int \<Rightarrow> int \<Rightarrow> ServerConfig \<Rightarrow> (world, Server) prog" where
  "server_create alloc_ok sock bound config =
     (if \<not> alloc_ok then fail ''Failed to allocate memory for server''
      else
        andthenM (malloc Struct) (\<lambda>self.
        if sock < 0 then fail ''Failed to create socket''
        else
          andthenM (emit (SockBind sock (word_of_int (cfg_port config)) (cfg_address config))) (\<lambda>_.
          if bound < 0 then fail ''Failed to bind socket''
          else return \<lparr>srv_self = self, srv_sockfd = sock, srv_config = config, srv_pool = None\<rparr>)))"

text \<open>\<^verbatim>\<open>thread_pool_push\<close> when no other thread uses the queue meanwhile.\<close>

definition push_now :: "'a pool_state \<Rightarrow> 'a \<Rightarrow> 'a pool_state res" where
  "push_now s x =
     (if pool_running (pool s) then
        andthen (safe_queue_enqueue (queue_of s) (Some x)) (\<lambda>q.
        Inr ((set_queue q s)\<lparr>posted := posted s @ [Some x]\<rparr>))
      else Inr s)"

text \<open>One iteration of the loop of \<^verbatim>\<open>server_start\<close>, with what \<^verbatim>\<open>accept\<close> returns.\<close>

definition accept_client :: "int \<Rightarrow> Server \<Rightarrow> (world, Server) prog" where
  "accept_client client srv =
     (if client = - 1 then
        andthenM (emit (Stderr (''Failed to accept client'' @ [LF]))) (\<lambda>_. return srv)
      else
        andthenM (malloc Struct) (\<lambda>p.
        let arg = \<lparr>ha_self = p, ha_config = srv_config srv, ha_client_sockfd = client\<rparr> in
        (case srv_pool srv of
           None \<Rightarrow> fault NullDeref
         | Some pl \<Rightarrow>
             andthenM (reading (push_now pl arg)) (\<lambda>pl.
             andthenM (debug_print (cfg_debug (srv_config srv))
               (''Socket ['' @ show_int client @ ''] queued.'')) (\<lambda>_.
             return (srv\<lparr>srv_pool := Some pl\<rparr>))))))"

fun accept_clients :: "int list \<Rightarrow> Server \<Rightarrow> (world, Server) prog" where
  "accept_clients [] srv = return srv"
| "accept_clients (c # cs) srv = andthenM (accept_client c srv) (\<lambda>srv. accept_clients cs srv)"

text \<open>
  \<^verbatim>\<open>server_start\<close> up to the connections accepted so far; the loop does not end.
\<close>

definition server_start :: "int \<Rightarrow> int list \<Rightarrow> Server \<Rightarrow> (world, Server) prog" where
  "server_start listening clients srv =
     andthenM (emit (SockListen (srv_sockfd srv) (cfg_client_limit (srv_config srv)))) (\<lambda>_.
     if listening < 0 then fail ''Failed to listen''
     else
       let pl = thread_pool_create (cfg_worker_limit (srv_config srv)) (cfg_debug (srv_config srv)) in
       andthenM (emit (Stdout (''Server started on port '' @ show_int (cfg_port (srv_config srv)) @ [LF]))) (\<lambda>_.
       accept_clients clients (srv\<lparr>srv_pool := Some pl\<rparr>)))"

text \<open>
  \<^verbatim>\<open>server_stop\<close> returns when the pool is destroyed; without a pool it passes \<^verbatim>\<open>NULL\<close> to
  \<^verbatim>\<open>thread_pool_destroy\<close>.
\<close>

definition stop_messages :: "int \<Rightarrow> bool \<Rightarrow> event list" where
  "stop_messages down debug =
     (if down < 0 then [Stderr (''Failed to shutdown server'' @ [LF])] else []) @
     [Stderr (''Waiting for workers to finish ...'' @ [LF]), Stderr (''Workers finished.'' @ [LF])] @
     (if debug then [Stderr (''Server stopped.'' @ [LF])] else [])"

inductive server_stop :: "int \<Rightarrow> Server \<Rightarrow> world \<Rightarrow> (Server \<times> world) res \<Rightarrow> bool" where
  stopped:
    "srv_pool srv = Some pl \<Longrightarrow> main pl = Serving \<Longrightarrow> destroy_step pl pl1 \<Longrightarrow>
     pool_step\<^sup>*\<^sup>* pl1 pl' \<Longrightarrow> main pl' = Destroyed \<Longrightarrow>
     server_stop down srv w
       (Inr (srv\<lparr>srv_pool := Some pl'\<rparr>,
             w\<lparr>events := events w @ stop_messages down (cfg_debug (srv_config srv))\<rparr>))"
| no_pool:
    "srv_pool srv = None \<Longrightarrow> server_stop down srv w (Inl NullDeref)"

definition server_destroy :: "Server \<Rightarrow> (world, unit) prog" where
  "server_destroy srv =
     andthenM (free (srv_self srv)) (\<lambda>_.
     debug_print (cfg_debug (srv_config srv)) ''Server destroyed.'')"

inductive_cases server_stop_Inr: "server_stop down srv w (Inr r)"

section \<open>Accepting connections\<close>

lemma push_now_steps:
  assumes "push_now s x = Inr s'" "main s = Serving"
  shows "pool_step\<^sup>*\<^sup>* s s' \<and> main s' = Serving"
proof (cases "pool_running (pool s)")
  case True
  then obtain q q' where q: "enqueue_reserve (queue_of s) = Inr q" "enqueue_insert q (Some x) = Inr q'"
      "s' = (set_queue q' s)\<lparr>posted := posted s @ [Some x]\<rparr>"
    using assms(1) by (auto simp: push_now_def safe_queue_enqueue_def andthen_eq_Inr)
  let ?t = "(set_queue q s)\<lparr>main := Pushing x\<rparr>"
  have "pool_step s ?t"
    by (intro pool_step.push push_step.push_reserve assms(2) True q(1))
  moreover have "pool_step ?t ((set_queue q' ?t)\<lparr>main := Serving, posted := posted ?t @ [Some x]\<rparr>)"
    by (intro pool_step.push push_step.push_insert) (simp_all add: set_queue_def q(2))
  moreover have "(set_queue q' ?t)\<lparr>main := Serving, posted := posted ?t @ [Some x]\<rparr> = s'"
    using q(3) assms(2) by (simp add: set_queue_def)
  ultimately have "pool_step\<^sup>*\<^sup>* s s'"
    by (metis converse_rtranclp_into_rtranclp r_into_rtranclp)
  then show ?thesis using q(3) assms(2) by (simp add: set_queue_def)
next
  case False
  then show ?thesis using assms by (simp add: push_now_def)
qed

text \<open>A pool whose owner is between two calls and whose queue has room.\<close>

definition pool_ready :: "'a pool_state \<Rightarrow> bool" where
  "pool_ready pl \<longleftrightarrow> main pl = Serving \<and> pool_running (pool pl) \<and> queue_inv (queue_of pl) \<and>
     qcapacity (queue_of pl) = 128"

lemma push_now_ready:
  assumes "pool_ready pl" "qsize (queue_of pl) < 128"
  shows "\<exists>pl'. push_now pl x = Inr pl' \<and> pool_ready pl' \<and> pool_step\<^sup>*\<^sup>* pl pl' \<and>
    contents (queue_of pl') = contents (queue_of pl) @ [Item (Some x)] \<and>
    posted pl' = posted pl @ [Some x]"
proof -
  obtain q where q: "safe_queue_enqueue (queue_of pl) (Some x) = Inr q" "queue_inv q"
      "contents q = contents (queue_of pl) @ [Item (Some x)]" "qcapacity q = 128"
    using enqueue_ok [of "queue_of pl" "Some x"] assms by (auto simp: pool_ready_def)
  let ?pl = "(set_queue q pl)\<lparr>posted := posted pl @ [Some x]\<rparr>"
  have "push_now pl x = Inr ?pl" using q(1) assms(1) by (simp add: push_now_def pool_ready_def)
  moreover from push_now_steps [OF this] have "pool_step\<^sup>*\<^sup>* pl ?pl" using assms(1) by (simp add: pool_ready_def)
  moreover have "pool_ready ?pl" using assms(1) q by (simp add: pool_ready_def set_queue_def)
  ultimately show ?thesis using q(3) by (auto simp: set_queue_def)
qed

text \<open>The argument blocks of queued clients.\<close>

definition arg_block :: "heap \<Rightarrow> HandlerArg \<Rightarrow> bool" where
  "arg_block h arg \<longleftrightarrow> (\<exists>a. ha_self arg = Addr a \<and> a < length h \<and> h ! a = Some Struct)"

lemma arg_block_live: "arg_block h arg \<Longrightarrow> \<exists>a. ha_self arg = Addr a \<and> a \<in> live h"
  by (auto simp: arg_block_def live_def)

lemma arg_block_keeps:
  "transfer h ps h' qs \<Longrightarrow> arg_block h arg \<Longrightarrow> ha_self arg \<notin> set ps \<Longrightarrow> arg_block h' arg"
  using transfer_keeps [of h ps h' qs] by (fastforce simp: arg_block_def live_def)

definition args_ok :: "ServerConfig \<Rightarrow> int list \<Rightarrow> HandlerArg list \<Rightarrow> bool" where
  "args_ok config clients args \<longleftrightarrow>
     map ha_client_sockfd args = filter (\<lambda>c. c \<noteq> - 1) clients \<and>
     (\<forall>arg \<in> set args. ha_config arg = config)"

lemma accept_clients_run:
  assumes "srv_pool srv = Some pl" "pool_ready pl"
    "qsize (queue_of pl) + length (filter (\<lambda>c. c \<noteq> - 1) clients) \<le> 128"
  shows "\<exists>w' pl' args. accept_clients clients srv w = Inr (srv\<lparr>srv_pool := Some pl'\<rparr>, w') \<and>
    pool_ready pl' \<and> pool_step\<^sup>*\<^sup>* pl pl' \<and> args_ok (srv_config srv) clients args \<and>
    contents (queue_of pl') = contents (queue_of pl) @ map (\<lambda>x. Item (Some x)) args \<and>
    transfer (hp w) [] (hp w') (map ha_self args) \<and>
    owned (hp w') (map ha_self args) \<and> (\<forall>arg \<in> set args. arg_block (hp w') arg) \<and>
    clock w' = clock w \<and> sock_events (events w') = sock_events (events w) \<and>
    posted pl' = posted pl @ map Some args"
  using assms
proof (induction clients arbitrary: srv pl w)
  case Nil
  have "srv\<lparr>srv_pool := Some pl\<rparr> = srv" using Nil.prems(1) by (cases srv) simp
  then show ?case
    using Nil.prems
    by (intro exI [of _ w] exI [of _ pl] exI [of _ "[]"]) (simp add: args_ok_def owned_def)
next
  case (Cons c cs)
  show ?case
  proof (cases "c = - 1")
    case True
    let ?w = "w\<lparr>events := events w @ [Stderr (''Failed to accept client'' @ [LF])]\<rparr>"
    have "accept_client c srv w = Inr (srv, ?w)"
      using True by (simp add: accept_client_def andthenM_run emit_run)
    moreover obtain w' pl' args where "accept_clients cs srv ?w = Inr (srv\<lparr>srv_pool := Some pl'\<rparr>, w')"
        "pool_ready pl'" "pool_step\<^sup>*\<^sup>* pl pl'" "args_ok (srv_config srv) cs args"
        "contents (queue_of pl') = contents (queue_of pl) @ map (\<lambda>x. Item (Some x)) args"
        "transfer (hp ?w) [] (hp w') (map ha_self args)" "owned (hp w') (map ha_self args)"
        "\<forall>arg \<in> set args. arg_block (hp w') arg" "clock w' = clock ?w"
        "sock_events (events w') = sock_events (events ?w)" "posted pl' = posted pl @ map Some args"
      using Cons.IH [OF Cons.prems(1,2), of ?w] Cons.prems(3) True by auto
    ultimately show ?thesis
      using True by (intro exI [of _ w'] exI [of _ pl'] exI [of _ args]) (simp add: andthenM_run args_ok_def)
  next
    case False
    let ?cfg = "srv_config srv"
    let ?arg = "\<lparr>ha_self = Addr (length (hp w)), ha_config = ?cfg, ha_client_sockfd = c\<rparr>"
    obtain pl1 where p: "push_now pl ?arg = Inr pl1" "pool_ready pl1" "pool_step\<^sup>*\<^sup>* pl pl1"
        "contents (queue_of pl1) = contents (queue_of pl) @ [Item (Some ?arg)]"
        "posted pl1 = posted pl @ [Some ?arg]"
      using push_now_ready [OF Cons.prems(2), of ?arg] Cons.prems(3) False by auto
    have size: "qsize (queue_of pl1) = Suc (qsize (queue_of pl))"
      using p(4) by (metis length_append_singleton length_contents)
    let ?srv = "srv\<lparr>srv_pool := Some pl1\<rparr>"
    obtain w1 where a: "accept_client c srv w = Inr (?srv, w1)" "hp w1 = hp w @ [Some Struct]"
        "clock w1 = clock w" "sock_events (events w1) = sock_events (events w)"
      using False p(1) Cons.prems(1) by (simp add: accept_client_def andthenM_run malloc_run Let_def)
    obtain w' pl' args where b: "accept_clients cs ?srv w1 = Inr (?srv\<lparr>srv_pool := Some pl'\<rparr>, w')"
        "pool_ready pl'" "pool_step\<^sup>*\<^sup>* pl1 pl'" "args_ok ?cfg cs args"
        "contents (queue_of pl') = contents (queue_of pl1) @ map (\<lambda>x. Item (Some x)) args"
        "transfer (hp w1) [] (hp w') (map ha_self args)" "owned (hp w') (map ha_self args)"
        "\<forall>arg \<in> set args. arg_block (hp w') arg" "clock w' = clock w1"
        "sock_events (events w') = sock_events (events w1)" "posted pl' = posted pl1 @ map Some args"
      using Cons.IH [of ?srv pl1 w1] p(2) size Cons.prems(3) False by auto
    have new: "arg_block (hp w') ?arg"
      by (rule arg_block_keeps [OF b(6)]) (simp_all add: arg_block_def a(2))
    have "owned (hp w1) ([] @ [Addr (length (hp w))])" by (simp add: owned_def a(2))
    from owned_frame [OF b(6) this b(7)] have "owned (hp w') (Addr (length (hp w)) # map ha_self args)"
      by (auto simp: owned_def)
    have "transfer (hp w1) [Addr (length (hp w))] (hp w') (Addr (length (hp w)) # map ha_self args)"
      using transfer_frame_left [OF b(6), of "[Addr (length (hp w))]"] by (simp add: a(2))
    then have "transfer (hp w) [] (hp w') (Addr (length (hp w)) # map ha_self args)"
      using transfer_trans [OF transfer_malloc [of "hp w" Struct]] a(2) by simp
    then show ?thesis
      using a b p(3-5) False new \<open>owned (hp w') (Addr (length (hp w)) # map ha_self args)\<close>
      by (intro exI [of _ w'] exI [of _ pl'] exI [of _ "?arg # args"])
        (auto simp: andthenM_run args_ok_def)
  qed
qed

lemma pool_ready_create: "pool_ready (thread_pool_create n debug)"
  using sq.empty by (simp add: pool_ready_def thread_pool_create_def)

lemma create_contents: "contents (queue_of (thread_pool_create n debug)) = []"
  by (simp add: thread_pool_create_def contents_create)

lemma server_start_run:
  assumes "0 \<le> listening" "length (filter (\<lambda>c. c \<noteq> - 1) clients) \<le> 128"
  shows "\<exists>w' pl args. server_start listening clients srv w = Inr (srv\<lparr>srv_pool := Some pl\<rparr>, w') \<and>
    pool_reachable (cfg_worker_limit (srv_config srv)) (cfg_debug (srv_config srv)) pl \<and> pool_ready pl \<and>
    args_ok (srv_config srv) clients args \<and>
    contents (queue_of pl) = map (\<lambda>x. Item (Some x)) args \<and>
    transfer (hp w) [] (hp w') (map ha_self args) \<and>
    owned (hp w') (map ha_self args) \<and> (\<forall>arg \<in> set args. arg_block (hp w') arg) \<and>
    clock w' = clock w \<and> sock_events (events w') = sock_events (events w) \<and> tasks pl = args"
proof -
  let ?n = "cfg_worker_limit (srv_config srv)" and ?d = "cfg_debug (srv_config srv)"
  let ?pl = "thread_pool_create ?n ?d :: HandlerArg pool_state" and ?w = "w\<lparr>events := events w @
    [SockListen (srv_sockfd srv) (cfg_client_limit (srv_config srv)),
     Stdout (''Server started on port '' @ show_int (cfg_port (srv_config srv)) @ [LF])]\<rparr>"
  have size: "qsize (queue_of ?pl) = 0" using length_contents create_contents by (metis list.size(3))
  obtain w' pl args where "accept_clients clients (srv\<lparr>srv_pool := Some ?pl\<rparr>) ?w =
        Inr (srv\<lparr>srv_pool := Some pl\<rparr>, w')" "pool_ready pl" "pool_step\<^sup>*\<^sup>* ?pl pl"
      "args_ok (srv_config srv) clients args"
      "contents (queue_of pl) = map (\<lambda>x. Item (Some x)) args" "transfer (hp w) [] (hp w') (map ha_self args)"
      "owned (hp w') (map ha_self args)" "\<forall>arg \<in> set args. arg_block (hp w') arg" "clock w' = clock w"
      "sock_events (events w') = sock_events (events w)" "posted pl = posted ?pl @ map Some args"
    using accept_clients_run [of "srv\<lparr>srv_pool := Some ?pl\<rparr>" ?pl clients ?w] assms(2) size
    by (auto simp: pool_ready_create create_contents)
  moreover from this(11) have "tasks pl = args"
    by (simp add: tasks_def thread_pool_create_def filter_map comp_def map_idI)
  moreover from calculation(3) have "pool_reachable ?n ?d pl"
    using reachable_run pool_reachable.init by blast
  ultimately show ?thesis
    using assms(1) by (intro exI [of _ w'] exI [of _ pl] exI [of _ args])
      (simp add: server_start_def andthenM_run emit_run Let_def)
qed

section \<open>Stopping\<close>

lemma calm_steps: "pool_step\<^sup>*\<^sup>* s s' \<Longrightarrow> calm s \<Longrightarrow> calm s' \<and> tasks s' = tasks s"
  by (induction rule: rtranclp_induct) (auto simp: calm_step calm_tasks)

lemma destroy_from_serving:
  assumes "destroy_step s s'" "main s = Serving"
  shows "s' = s\<lparr>pool := (pool s)\<lparr>pool_running := False\<rparr>, main := Posting 0\<rparr>"
  using assms by cases auto

lemma stop_calm:
  assumes "pool_reachable n debug pl" "main pl = Serving" "qcapacity (queue_of pl) = 128"
    "\<not> qlocked (queue_of pl)" "qsize (queue_of pl) + nat n \<le> 32" "destroy_step pl pl1"
  shows "calm pl1" "pool_reachable n debug pl1" "tasks pl1 = tasks pl"
proof -
  have pl1: "pl1 = pl\<lparr>pool := (pool pl)\<lparr>pool_running := False\<rparr>, main := Posting 0\<rparr>"
    by (rule destroy_from_serving [OF assms(6,2)])
  show r: "pool_reachable n debug pl1"
    by (rule pool_reachable.step [OF assms(1) pool_step.destroy [OF assms(6)]])
  show "calm pl1" by (rule calm_begin [OF r]) (use pl1 assms(3-5) in simp_all)
  show "tasks pl1 = tasks pl" by (simp add: pl1 tasks_def)
qed

lemma server_stop_run:
  assumes "srv_pool srv = Some pl" "pool_reachable n debug pl" "main pl = Serving" "0 < n"
    "qcapacity (queue_of pl) = 128" "\<not> qlocked (queue_of pl)" "qsize (queue_of pl) + nat n \<le> 32"
  shows "(\<exists>srv' w'. server_stop down srv w (Inr (srv', w'))) \<and>
    (\<forall>srv' w'. server_stop down srv w (Inr (srv', w')) \<longrightarrow>
       (\<exists>pl'. srv_pool srv' = Some pl' \<and> main pl' = Destroyed \<and>
          mset (calls pl') = mset (map (\<lambda>x. Item (Some x)) (tasks pl))) \<and>
       events w' = events w @ stop_messages down (cfg_debug (srv_config srv)))"
proof (intro conjI allI impI)
  obtain pl1 where d: "destroy_step pl pl1" using destroy_step.destroy_begin [OF assms(3)] by blast
  note calm1 = stop_calm [OF assms(2,3,5,6,7) d]
  obtain pl2 where "pool_step\<^sup>*\<^sup>* pl1 pl2" "main pl2 = Destroyed"
    using calm_reaches_destroyed [OF calm1(1)] by blast
  then show "\<exists>srv' w'. server_stop down srv w (Inr (srv', w'))"
    using server_stop.stopped [OF assms(1,3) d] by blast
  fix srv' w'
  assume "server_stop down srv w (Inr (srv', w'))"
  then obtain p pl1 pl' where s: "srv_pool srv = Some p" "destroy_step p pl1" "pool_step\<^sup>*\<^sup>* pl1 pl'"
      "main pl' = Destroyed" "srv' = srv\<lparr>srv_pool := Some pl'\<rparr>"
      "w' = w\<lparr>events := events w @ stop_messages down (cfg_debug (srv_config srv))\<rparr>"
    by (auto elim: server_stop_Inr)
  then have p: "destroy_step pl pl1" using assms(1) by simp
  note calm1 = stop_calm [OF assms(2,3,5,6,7) p]
  have c: "calm pl'" "tasks pl' = tasks pl" using calm_steps [OF s(3) calm1(1)] calm1(3) by auto
  have "mset (calls pl') = mset (map (\<lambda>x. Item (Some x)) (tasks pl'))"
    using shutdown_calls [OF reachable_run [OF s(3) calm1(2)] s(4) assms(4)] c(1) by (simp add: calm_def)
  then show "\<exists>pl'. srv_pool srv' = Some pl' \<and> main pl' = Destroyed \<and>
      mset (calls pl') = mset (map (\<lambda>x. Item (Some x)) (tasks pl))"
    using s(4,5) c(2) by simp
  show "events w' = events w @ stop_messages down (cfg_debug (srv_config srv))" using s(6) by simp
qed

section \<open>Streams\<close>

lemma send_stream_run:
  assumes "0 < n"
  shows "\<exists>chunks. send_stream n sock bytes w =
      Inr ((), w\<lparr>events := events w @ map (SockWrite sock) chunks\<rparr>) \<and> concat chunks = bytes \<and>
    (\<forall>c \<in> set chunks. length c \<le> n)"
proof (induction "length bytes" arbitrary: bytes w rule: less_induct)
  case less
  show ?case
  proof (cases "bytes = []")
    case True
    then show ?thesis by (subst send_stream.simps) (intro exI [of _ "[]"], simp)
  next
    case False
    let ?w = "w\<lparr>events := events w @ [SockWrite sock (take n bytes)]\<rparr>"
    have "length (drop n bytes) < length bytes" using False assms by simp
    from less.hyps [OF this, of ?w] obtain cs where
      "send_stream n sock (drop n bytes) ?w = Inr ((), ?w\<lparr>events := events ?w @ map (SockWrite sock) cs\<rparr>)"
      "concat cs = drop n bytes" "\<forall>c \<in> set cs. length c \<le> n" by blast
    then show ?thesis
      using False assms
      by (subst send_stream.simps) (intro exI [of _ "take n bytes # cs"], simp add: andthenM_run emit_run)
  qed
qed

section \<open>Properties of the server\<close>


definition sample_config :: ServerConfig where
  "sample_config = \<lparr>cfg_self = NULL, cfg_address = ''0.0.0.0'', cfg_port = 8080,
     cfg_client_limit = 4095, cfg_worker_limit = 4, cfg_buffer_size = 1048576,
     cfg_middlewares = \<lparr>mws_self = NULL, mws_array = NULL, mws_list = []\<rparr>, cfg_debug = False\<rparr>"

definition sample_server :: Server where
  "sample_server = \<lparr>srv_self = NULL, srv_sockfd = 3, srv_config = sample_config, srv_pool = None\<rparr>"




text \<open>
  C21. A connection without a request, because the peer sends nothing, reading fails or the
  receive buffer cannot be allocated, is closed without an answer and leaks nothing.
\<close>

theorem handle_client_no_request:
  assumes "ha_self arg = Addr a" "a \<in> live (hp w)"
    "\<not> alloc_ok \<or> input = None \<or> input = Some []"
  shows "\<exists>w'. handle_client alloc_ok input stream_ok arg w = Inr ((), w') \<and>
    transfer (hp w) [ha_self arg] (hp w') [] \<and>
    sock_events (events w') = sock_events (events w) @ [SockClose (ha_client_sockfd arg)]"
proof -
  let ?h1 = "(hp w)[a := None]"
  define w1 where "w1 = w\<lparr>hp := ?h1, events := events w @
    (if cfg_debug (ha_config arg) then [Stderr (''Client connected'' @ [LF])] else [])\<rparr>"
  have w1: "hp w1 = ?h1" "sock_events (events w1) = sock_events (events w)" by (simp_all add: w1_def)
  have start: "debug_print (cfg_debug (ha_config arg)) ''Client connected'' (w\<lparr>hp := ?h1\<rparr>) = Inr ((), w1)"
    by (simp add: w1_def)
  have t0: "transfer (hp w) [Addr a] ?h1 []"
    using transfer_frees [of "hp w" "[Addr a]"] assms(2) by (simp add: owned_def)
  show ?thesis
  proof (cases alloc_ok)
    case False
    then show ?thesis
      using start w1 t0 assms(1,2)
      by (simp add: handle_client_def andthenM_run Let_def free_live emit_run del: debug_print_run)
  next
    case True
    then have "received (ha_config arg) input = []" using assms(3) by (auto simp: received_def)
    moreover have "transfer (hp w) [Addr a] (?h1 @ [None]) []"
      using transfer_frees_nothing [OF t0, of 1] by simp
    moreover have "free (Addr (length ?h1)) (w1\<lparr>hp := ?h1 @ [Some Struct], events := es\<rparr>) =
        Inr ((), w1\<lparr>hp := ?h1 @ [None], events := es\<rparr>)" for es
      by (subst free_live) (simp_all add: live_def nth_append list_update_append)
    ultimately show ?thesis
      using True start w1 assms(1,2)
      by (simp add: handle_client_def andthenM_run Let_def free_live malloc_run emit_run del: debug_print_run)
  qed
qed

definition sample_arg :: HandlerArg where
  "sample_arg = \<lparr>ha_self = Addr 0, ha_config = sample_config, ha_client_sockfd = 4\<rparr>"

theorem handle_client_no_request_witness:
  "\<exists>w'. handle_client True None True sample_arg sample_world = Inr ((), w') \<and>
     sock_events (events w') = [SockClose 4]"
  using handle_client_no_request [of sample_arg 0 sample_world True None True]
  by (auto simp: sample_arg_def live_def sample_world_def)

text \<open>
  C22. A streamed file reaches the client complete and in order, in chunks of at most the buffer
  size, behind the header lines; neither a status line nor a blank line is sent before it. The
  file is closed and nothing is leaked.
\<close>

theorem stream_reply:
  assumes "response_ok (hp w) rs" "rs_body_stream rs = Some f" "fl_self f = Addr b" "b \<in> live (hp w)"
    "0 < cfg_buffer_size config"
    "length (render_headers (headers_view (hp w) (rs_headers rs))) < BUFFER_SIZE"
  shows "\<exists>w' chunks. send_response True config sock rs w = Inr (True, w') \<and>
    events w' = events w @
      SockWrite sock (render_headers (headers_view (hp w) (rs_headers rs))) # map (SockWrite sock) chunks \<and>
    concat chunks = fl_rest f \<and> (\<forall>c \<in> set chunks. int (length c) \<le> cfg_buffer_size config) \<and>
    transfer (hp w) [fl_self f] (hp w') []"
proof -
  let ?t = "render_headers (headers_view (hp w) (rs_headers rs))"
  let ?n = "nat (cfg_buffer_size config)" and ?l = "length (hp w)"
  let ?w1 = "w\<lparr>hp := hp w @ [None, Some (Bytes ?t)]\<rparr>"
  let ?w2 = "w\<lparr>hp := hp w @ [None, None, Some Struct], events := events w @ [SockWrite sock ?t]\<rparr>"
  have print: "headers_to_string (rs_headers rs) w = Inr (Addr (?l + 1), ?w1)"
    using headers_to_string_run [of w "rs_headers rs"] assms(1,6) by (simp add: response_ok_def Let_def)
  have l1: "load (Addr (?l + 1)) ?w1 = Inr (?t, ?w1)" by (rule load_str_at) (simp add: nth_append)
  have f1: "free (Addr (?l + 1)) (w\<lparr>hp := hp w @ [None, Some (Bytes ?t)], events := es\<rparr>) =
      Inr ((), w\<lparr>hp := hp w @ [None, None], events := es\<rparr>)" for es
    by (subst free_live) (simp_all add: live_def nth_append list_update_append)
  obtain cs where cs: "send_stream ?n sock (fl_rest f) ?w2 =
      Inr ((), ?w2\<lparr>events := events ?w2 @ map (SockWrite sock) cs\<rparr>)" "concat cs = fl_rest f"
      "\<forall>c \<in> set cs. length c \<le> ?n"
    using send_stream_run [of ?n sock "fl_rest f" ?w2] assms(5) by auto
  have f2: "free (Addr (?l + 2)) (w\<lparr>hp := hp w @ [None, None, Some Struct], events := es\<rparr>) =
      Inr ((), w\<lparr>hp := hp w @ replicate 3 None, events := es\<rparr>)" for es
    by (subst free_live) (simp_all add: live_def nth_append list_update_append numeral_3_eq_3)
  have b: "b < ?l" using assms(4) by (rule live_less)
  have f3: "free (Addr b) (w\<lparr>hp := hp w @ replicate 3 None, events := es\<rparr>) =
      Inr ((), w\<lparr>hp := (hp w)[b := None] @ replicate 3 None, events := es\<rparr>)" for es
    using assms(4) b by (subst free_live) (simp_all add: live_def nth_append list_update_append)
  have "transfer (hp w) [Addr b] ((hp w)[b := None] @ replicate 3 None) []"
    using transfer_frees [of "hp w" "[Addr b]"] assms(4)
    by (intro transfer_frees_nothing) (simp add: owned_def)
  moreover have "int (length c) \<le> cfg_buffer_size config" if "c \<in> set cs" for c
    using cs(3) that assms(5) by (simp add: le_nat_iff)
  ultimately show ?thesis
    using print l1 f1 cs f2 f3 assms(2,3)
    by (intro exI [of _ "w\<lparr>hp := (hp w)[b := None] @ replicate 3 None,
        events := events ?w2 @ map (SockWrite sock) cs\<rparr>"] exI [of _ cs])
      (auto simp: send_response_def andthenM_run emit_run malloc_run)
qed

theorem stream_reply_witness:
  "\<exists>rs w w' chunks. response_create sample_world = Inr (rs, w) \<and>
     send_response True sample_config 4 (rs\<lparr>rs_body_stream := Some \<lparr>fl_self = Addr 0, fl_rest = ''abc''\<rparr>\<rparr>) w =
       Inr (True, w') \<and>
     events w' = SockWrite 4 '''' # map (SockWrite 4) chunks \<and> concat chunks = ''abc''"
proof -
  let ?f = "\<lparr>fl_self = Addr 0, fl_rest = ''abc''\<rparr>"
  obtain r w where c: "response_create sample_world = Inr (r, w)" by (simp add: response_create_run)
  note r = response_create_ok [OF c]
  let ?r = "r\<lparr>rs_body_stream := Some ?f\<rparr>"
  have ok: "response_ok (hp w) ?r" using r(1) by (simp add: response_ok_def response_ptrs_def)
  have ev: "events w = []" using c by (auto simp: response_create_run sample_world_def)
  have "0 \<in> live (hp sample_world)" by (simp add: live_def sample_world_def)
  from transfer_live [OF r(2) this] have "0 \<in> live (hp w)" by simp
  moreover have view: "headers_view (hp w) (rs_headers ?r) = []" using r(3) by simp
  moreover have "0 < cfg_buffer_size sample_config" by (simp add: sample_config_def)
  ultimately show ?thesis
    using stream_reply [OF ok, of ?f 0 sample_config 4] ev c by (auto simp: BUFFER_SIZE_def)
qed

end
