(* ===== verification/ChatServer.thy ===== *)
theory ChatServer
  imports Middleware
begin

text \<open>
  The chat server of \<^verbatim>\<open>src/chat-server.h\<close> and \<^verbatim>\<open>src/chat-server.c\<close>. The array of client
  pointers is the list of the addresses of the client structs, so \<^verbatim>\<open>client_count\<close> is its
  length; what the structs contain is kept beside it by address. A critical section of the
  server's mutex is one step, and so is the code of a client thread between two calls of
  \<^verbatim>\<open>recv\<close>, which touches no other client outside of such a section.
\<close>

section \<open>State\<close>

record ChatClient =
  cl_name :: ptr
  cl_socket :: int

record ChatServerConfig =
  max_name_length :: nat
  max_clients :: nat
  message_buffer_size :: nat
  server_port :: "16 word"

record ChatServer =
  cs_self :: ptr
  cs_clients :: ptr
  cs_table :: "nat list"
  cs_cells :: "nat \<Rightarrow> ChatClient"
  cs_client_increment :: nat
  cs_config :: ChatServerConfig
  cs_socket :: int

section \<open>Configuration\<close>

text \<open>
  \<^verbatim>\<open>strtol\<close> in base ten as \<^verbatim>\<open>atol\<close> and \<^verbatim>\<open>atoi\<close> use it: leading white space, a sign,
  digits, with the result kept in the range of \<^verbatim>\<open>long\<close>.
\<close>

definition is_space :: "char \<Rightarrow> bool" where
  "is_space c \<longleftrightarrow> c = CHR '' '' \<or> (9 \<le> (of_char c :: nat) \<and> (of_char c :: nat) \<le> 13)"

definition is_digit :: "char \<Rightarrow> bool" where
  "is_digit c \<longleftrightarrow> 48 \<le> (of_char c :: nat) \<and> (of_char c :: nat) \<le> 57"

definition digits_value :: "string \<Rightarrow> int" where
  "digits_value ds = foldl (\<lambda>n c. 10 * n + (int (of_char c) - 48)) 0 ds"

definition strtol :: "string \<Rightarrow> int" where
  "strtol s =
     (let t = dropWhile is_space s;
          neg = (t \<noteq> [] \<and> hd t = CHR ''-'');
          u = (if t \<noteq> [] \<and> hd t \<in> {CHR ''-'', CHR ''+''} then tl t else t);
          n = digits_value (takeWhile is_digit u)
      in max (- (2 ^ 63)) (min (2 ^ 63 - 1) (if neg then - n else n)))"

text \<open>The conversions to \<^verbatim>\<open>size_t\<close>, and over \<^verbatim>\<open>int\<close> to the 16 bits of \<^verbatim>\<open>in_port_t\<close>.\<close>

definition env_size :: "string option \<Rightarrow> nat \<Rightarrow> nat" where
  "env_size v old = (case v of None \<Rightarrow> old | Some s \<Rightarrow> nat (strtol s mod 2 ^ 64))"

definition env_port :: "string option \<Rightarrow> 16 word \<Rightarrow> 16 word" where
  "env_port v old = (case v of None \<Rightarrow> old | Some s \<Rightarrow> word_of_int (strtol s))"

definition parse_chat_config_from_env ::
  "(string \<Rightarrow> string option) \<Rightarrow> ChatServerConfig \<Rightarrow> ChatServerConfig" where
  "parse_chat_config_from_env getenv config =
     config\<lparr>max_clients := env_size (getenv ''CHAT_SERVER_MAX_CLIENTS'') (max_clients config),
            message_buffer_size :=
              env_size (getenv ''CHAT_SERVER_MESSAGE_BUFFER_SIZE'') (message_buffer_size config),
            max_name_length :=
              env_size (getenv ''CHAT_SERVER_MAX_NAME_LENGTH'') (max_name_length config),
            server_port := env_port (getenv ''CHAT_SERVER_PORT'') (server_port config)\<rparr>"

section \<open>Clients\<close>

text \<open>Reading a client struct through a pointer.\<close>

definition client_at :: "ChatServer \<Rightarrow> nat \<Rightarrow> (world, ChatClient) prog" where
  "client_at srv a w =
     (if a < length (hp w) \<and> hp w ! a \<noteq> None then Inr (cs_cells srv a, w) else Inl UseAfterFree)"

text \<open>\<^verbatim>\<open>sprintf(name, "Client #%03zu", server->client_increment++)\<close>.\<close>

definition default_name :: "nat \<Rightarrow> string" where
  "default_name n = ''Client #'' @ pad (CHR ''0'') 3 (show_nat n)"

text \<open>The critical section of \<^verbatim>\<open>add_chat_client\<close>, and its return value after the unlock.\<close>

definition add_locked :: "ChatServer \<Rightarrow> int \<Rightarrow> (world, ChatServer) prog" where
  "add_locked srv socket =
     andthenM (realloc (cs_clients srv) Struct) (\<lambda>arr.
     andthenM (malloc Struct) (\<lambda>c.
     let name = default_name (cs_client_increment srv) in
     if max_name_length (cs_config srv) < length name + 1 then fault BufferOverflow
     else
       andthenM (malloc (Bytes name)) (\<lambda>n.
       (case c of
          Addr a \<Rightarrow>
            return (srv\<lparr>cs_clients := arr, cs_table := cs_table srv @ [a],
                        cs_cells := (cs_cells srv)(a := \<lparr>cl_name = n, cl_socket = socket\<rparr>),
                        cs_client_increment := szt (cs_client_increment srv + 1)\<rparr>)
        | _ \<Rightarrow> fault NullDeref))))"

definition add_result :: "ChatServer \<Rightarrow> (world, nat) prog" where
  "add_result srv = (if cs_table srv = [] then fault OutOfBounds else return (last (cs_table srv)))"

definition add_chat_client :: "ChatServer \<Rightarrow> int \<Rightarrow> (world, nat \<times> ChatServer) prog" where
  "add_chat_client srv socket =
     andthenM (add_locked srv socket) (\<lambda>srv.
     andthenM (add_result srv) (\<lambda>c. return (c, srv)))"

text \<open>The loop of \<^verbatim>\<open>remove_chat_client\<close>: the first client with the same socket goes, the last
  one takes its place.\<close>

fun remove_loop :: "ChatServer \<Rightarrow> nat \<Rightarrow> nat list \<Rightarrow> (world, ChatServer) prog" where
  "remove_loop srv c [] = return srv"
| "remove_loop srv c (i # is) =
     andthenM (client_at srv (cs_table srv ! i)) (\<lambda>ci.
     andthenM (client_at srv c) (\<lambda>cl.
     if cl_socket ci = cl_socket cl then
       andthenM (free (cl_name ci)) (\<lambda>_.
       andthenM (free (Addr (cs_table srv ! i))) (\<lambda>_.
       return (srv\<lparr>cs_table := butlast ((cs_table srv)[i := last (cs_table srv)])\<rparr>)))
     else remove_loop srv c is))"

definition remove_chat_client :: "ChatServer \<Rightarrow> nat \<Rightarrow> (world, ChatServer) prog" where
  "remove_chat_client srv c =
     andthenM (client_at srv c) (\<lambda>cl.
     andthenM (emit (SockClose (cl_socket cl))) (\<lambda>_.
     remove_loop srv c [0..<length (cs_table srv)]))"

section \<open>The server\<close>

definition init_chat_server :: "ptr \<Rightarrow> int \<Rightarrow> ChatServerConfig \<Rightarrow> ChatServer" where
  "init_chat_server self sock config =
     \<lparr>cs_self = self, cs_clients = NULL, cs_table = [], cs_cells = (\<lambda>_. \<lparr>cl_name = NULL, cl_socket = 0\<rparr>),
      cs_client_increment = 0, cs_config = config, cs_socket = sock\<rparr>"

text \<open>\<^verbatim>\<open>start_chat_server\<close> ignores the result of \<^verbatim>\<open>bind\<close>; \<open>listening\<close> is that of
  \<^verbatim>\<open>listen\<close>. The loop it starts is \<open>chat_accept\<close> below.\<close>

definition start_chat_server :: "int \<Rightarrow> ChatServer \<Rightarrow> (world, int) prog" where
  "start_chat_server listening srv =
     andthenM (emit (SockBind (cs_socket srv) (server_port (cs_config srv)) ''0.0.0.0'')) (\<lambda>_.
     andthenM (emit (SockListen (cs_socket srv) 64)) (\<lambda>_.
     return (if listening \<noteq> 0 then listening else 0)))"

text \<open>One iteration of \<^verbatim>\<open>_start_chat_server\<close>: the new client thread gets the returned client
  and its argument block.\<close>

definition chat_accept :: "int \<Rightarrow> ChatServer \<Rightarrow> (world, (nat \<times> ptr) \<times> ChatServer) prog" where
  "chat_accept socket srv =
     andthenM (add_chat_client srv socket) (\<lambda>(c, srv).
     andthenM (malloc Struct) (\<lambda>arg.
     return ((c, arg), srv)))"

text \<open>\<^verbatim>\<open>stop_chat_server\<close>, with the result of \<^verbatim>\<open>shutdown\<close>; the program never calls it.\<close>

definition stop_chat_server :: "int \<Rightarrow> ChatServer \<Rightarrow> (world, int) prog" where
  "stop_chat_server result srv =
     andthenM (emit (SockShutdown (cs_socket srv))) (\<lambda>_. return result)"

fun free_clients :: "ChatServer \<Rightarrow> nat list \<Rightarrow> (world, unit) prog" where
  "free_clients srv [] = return ()"
| "free_clients srv (a # as) =
     andthenM (client_at srv a) (\<lambda>cl.
     andthenM (free (cl_name cl)) (\<lambda>_.
     andthenM (free (Addr a)) (\<lambda>_.
     free_clients srv as)))"

definition destroy_chat_server :: "ChatServer \<Rightarrow> (world, unit) prog" where
  "destroy_chat_server srv =
     andthenM (free_clients srv (cs_table srv)) (\<lambda>_.
     andthenM (free (cs_clients srv)) (\<lambda>_.
     andthenM (emit (SockClose (cs_socket srv))) (\<lambda>_.
     free (cs_self srv))))"

section \<open>Client threads\<close>

text \<open>
  The new name after \<^verbatim>\<open>strtok(new_name, "\n")\<close>, whose result is not used: leading line feeds
  stay, the text is cut at the first one behind them.
\<close>

definition cut_line :: "string \<Rightarrow> string" where
  "cut_line s = takeWhile (\<lambda>c. c = LF) s @ takeWhile (\<lambda>c. c \<noteq> LF) (dropWhile (\<lambda>c. c = LF) s)"

definition RENAME :: string where "RENAME = ''/rename ''"

fun send_all :: "ChatServer \<Rightarrow> nat list \<Rightarrow> string \<Rightarrow> (world, unit) prog" where
  "send_all srv [] t = return ()"
| "send_all srv (a # as) t =
     andthenM (client_at srv a) (\<lambda>cl.
     andthenM (emit (SockWrite (cl_socket cl) t)) (\<lambda>_.
     send_all srv as t))"

definition rename_client :: "ChatServer \<Rightarrow> nat \<Rightarrow> string \<Rightarrow> (world, ChatServer) prog" where
  "rename_client srv c new_name =
     andthenM (client_at srv c) (\<lambda>cl.
     if max_name_length (cs_config srv) < length new_name then
       andthenM (emit (SockWrite (cl_socket cl) ''Server: Name too long.'')) (\<lambda>_. return srv)
     else
       andthenM (malloc (Bytes new_name)) (\<lambda>n.
       andthenM (free (cl_name cl)) (\<lambda>_.
       andthenM (emit (SockWrite (cl_socket cl) ''Server: Name changed.'')) (\<lambda>_.
       return (srv\<lparr>cs_cells := (cs_cells srv)(c := cl\<lparr>cl_name := n\<rparr>)\<rparr>)))))"

definition broadcast :: "ChatServer \<Rightarrow> nat \<Rightarrow> string \<Rightarrow> (world, unit) prog" where
  "broadcast srv c msg =
     andthenM (malloc (Bytes '''')) (\<lambda>b.
     andthenM (client_at srv c) (\<lambda>cl.
     andthenM (load (cl_name cl)) (\<lambda>name.
     let t = name @ '': '' @ msg in
     if szt (message_buffer_size (cs_config srv) + max_name_length (cs_config srv) + 3) < length t + 1
     then fault BufferOverflow
     else
       andthenM (emit (Stderr (''Broadcasting: '' @ t @ [LF]))) (\<lambda>_.
       andthenM (send_all srv (cs_table srv) t) (\<lambda>_.
       free b)))))"

text \<open>
  One iteration of the loop of \<^verbatim>\<open>handle_chat_client\<close>, with what \<^verbatim>\<open>recv\<close> delivers
  (\<^const>\<open>None\<close> for an error): whether the thread goes on, and the server.
\<close>

definition chat_iteration :: "ChatServer \<Rightarrow> nat \<Rightarrow> string option \<Rightarrow> (world, bool \<times> ChatServer) prog" where
  "chat_iteration srv c input =
     andthenM (client_at srv c) (\<lambda>_.
     let bytes = (case input of None \<Rightarrow> [] | Some b \<Rightarrow> take (message_buffer_size (cs_config srv)) b) in
     if bytes = [] then
       andthenM (remove_chat_client srv c) (\<lambda>srv. return (False, srv))
     else
       let msg = takeWhile (\<lambda>ch. ch \<noteq> NUL) bytes in
       if take 8 msg = RENAME then
         andthenM (rename_client srv c (cut_line (drop 8 msg))) (\<lambda>srv. return (True, srv))
       else
         andthenM (broadcast srv c msg) (\<lambda>_. return (True, srv)))"

section \<open>Invariant\<close>

definition client_ptrs :: "ChatServer \<Rightarrow> nat list \<Rightarrow> ptr list" where
  "client_ptrs srv as = concat (map (\<lambda>a. [cl_name (cs_cells srv a), Addr a]) as)"

text \<open>Everything \<^verbatim>\<open>destroy_chat_server\<close> frees.\<close>

definition chat_ptrs :: "ChatServer \<Rightarrow> ptr list" where
  "chat_ptrs srv = client_ptrs srv (cs_table srv) @ [cs_clients srv, cs_self srv]"

definition sockets :: "ChatServer \<Rightarrow> int list" where
  "sockets srv = map (\<lambda>a. cl_socket (cs_cells srv a)) (cs_table srv)"

definition name_of :: "heap \<Rightarrow> ChatServer \<Rightarrow> nat \<Rightarrow> string" where
  "name_of h srv a = the (str_at h (cl_name (cs_cells srv a)))"

definition named :: "heap \<Rightarrow> ChatServer \<Rightarrow> nat \<Rightarrow> bool" where
  "named h srv a \<longleftrightarrow> str_at h (cl_name (cs_cells srv a)) = Some (name_of h srv a) \<and>
     length (name_of h srv a) \<le> max_name_length (cs_config srv)"

definition chat_inv :: "heap \<Rightarrow> ChatServer \<Rightarrow> bool" where
  "chat_inv h srv \<longleftrightarrow>
     owned h (chat_ptrs srv) \<and> (\<forall>a \<in> set (cs_table srv). named h srv a) \<and>
     distinct (sockets srv) \<and> (\<exists>a. cs_self srv = Addr a) \<and> cs_client_increment srv < 2 ^ 64"

text \<open>Bounds under which the two fixed buffers of the chat server suffice.\<close>

definition config_ok :: "ChatServerConfig \<Rightarrow> bool" where
  "config_ok config \<longleftrightarrow>
     29 \<le> max_name_length config \<and> max_name_length config + message_buffer_size config + 3 < 2 ^ 64"

lemma client_ptrs_simps [simp]:
  "client_ptrs srv [] = []"
  "client_ptrs srv (a # as) = cl_name (cs_cells srv a) # Addr a # client_ptrs srv as"
  "client_ptrs srv (as @ bs) = client_ptrs srv as @ client_ptrs srv bs"
  by (simp_all add: client_ptrs_def)

lemma mset_concat_map: "mset (concat (map f xs)) = (\<Sum>x\<in>#mset xs. mset (f x))"
  by (induction xs) simp_all

lemma addrs_concat: "addrs ps = concat (map (\<lambda>p. case p of Addr a \<Rightarrow> [a] | _ \<Rightarrow> []) ps)"
  by (induction ps rule: addrs.induct) simp_all

lemma owned_mset:
  assumes "mset ps = mset qs"
  shows "owned h ps = owned h qs"
proof -
  have "mset (addrs ps) = mset (addrs qs)" using assms by (simp add: addrs_concat mset_concat_map)
  then have "distinct (addrs ps) = distinct (addrs qs)" "set (addrs ps) = set (addrs qs)"
    by (auto dest: mset_eq_setD mset_eq_imp_distinct_iff)
  moreover have "set ps = set qs" using assms by (rule mset_eq_setD)
  ultimately show ?thesis by (simp add: owned_def list_all_iff)
qed

lemma client_ptrs_mset: "mset as = mset bs \<Longrightarrow> mset (client_ptrs srv as) = mset (client_ptrs srv bs)"
  by (simp add: client_ptrs_def mset_concat_map)

lemma client_ptrs_set: "set (client_ptrs srv as) = (\<Union>a \<in> set as. {cl_name (cs_cells srv a), Addr a})"
  by (auto simp: client_ptrs_def)

lemma client_ptrs_cong:
  "(\<And>a. a \<in> set as \<Longrightarrow> cs_cells srv a = cs_cells srv' a) \<Longrightarrow> client_ptrs srv as = client_ptrs srv' as"
  by (induction as) simp_all

lemma named_ptr: "named h srv a \<Longrightarrow> owned h (cl_name (cs_cells srv a) # ps) \<Longrightarrow> \<exists>b. cl_name (cs_cells srv a) = Addr b"
  by (cases "cl_name (cs_cells srv a)") (auto simp: named_def owned_def)

lemma chat_live:
  assumes "chat_inv h srv" "a \<in> set (cs_table srv)"
  shows "a \<in> live h"
proof -
  have "Addr a \<in> set (chat_ptrs srv)" using assms(2) by (auto simp: chat_ptrs_def client_ptrs_set)
  then show ?thesis using assms(1) ownedD unfolding chat_inv_def by blast
qed

lemma client_at_run [simp]: "a \<in> live (hp w) \<Longrightarrow> client_at srv a w = Inr (cs_cells srv a, w)"
  by (simp add: client_at_def live_def)

lemma chat_table_distinct: "chat_inv h srv \<Longrightarrow> distinct (cs_table srv)"
  by (auto simp: chat_inv_def sockets_def distinct_map)

text \<open>A new server in a block of its own.\<close>

lemma init_inv:
  assumes "self \<in> live h"
  shows "chat_inv h (init_chat_server (Addr self) sock config)"
  using assms by (simp add: chat_inv_def init_chat_server_def chat_ptrs_def owned_def sockets_def)

section \<open>Adding a client\<close>

lemma length_default_name: "n < 2 ^ 64 \<Longrightarrow> length (default_name n) \<le> 28"
proof -
  assume "n < 2 ^ 64"
  then have "n < 10 ^ 20" by simp
  then have "length (show_nat n) \<le> 20" by (rule length_show_nat) simp
  then show ?thesis by (simp add: default_name_def)
qed

definition added :: "heap \<Rightarrow> ChatServer \<Rightarrow> int \<Rightarrow> ChatServer" where
  "added h srv socket =
     srv\<lparr>cs_clients := Addr (length h), cs_table := cs_table srv @ [length h + 1],
         cs_cells := (cs_cells srv)(length h + 1 := \<lparr>cl_name = Addr (length h + 2), cl_socket = socket\<rparr>),
         cs_client_increment := szt (cs_client_increment srv + 1)\<rparr>"

definition add_heap :: "heap \<Rightarrow> ChatServer \<Rightarrow> heap" where
  "add_heap h srv = frees (addrs [cs_clients srv]) h @
     [Some Struct, Some Struct, Some (Bytes (default_name (cs_client_increment srv)))]"

lemma array_owned:
  assumes "chat_inv h srv"
  shows "owned h ([cs_clients srv] @ (client_ptrs srv (cs_table srv) @ [cs_self srv]))"
proof -
  have "mset (chat_ptrs srv) = mset ([cs_clients srv] @ (client_ptrs srv (cs_table srv) @ [cs_self srv]))"
    by (simp add: chat_ptrs_def)
  then show ?thesis using assms owned_mset unfolding chat_inv_def by blast
qed

lemma owned_left: "owned h (ps @ qs) \<Longrightarrow> owned h ps"
  by (auto simp: owned_def)

lemma chat_add_run:
  assumes "chat_inv (hp w) srv" "config_ok (cs_config srv)"
  shows "add_chat_client srv socket w =
    Inr ((length (hp w) + 1, added (hp w) srv socket), w\<lparr>hp := add_heap (hp w) srv\<rparr>)"
proof -
  have "length (default_name (cs_client_increment srv)) + 1 \<le> max_name_length (cs_config srv)"
    using length_default_name assms by (fastforce simp: chat_inv_def config_ok_def)
  moreover have "free (cs_clients srv) w = Inr ((), w\<lparr>hp := frees (addrs [cs_clients srv]) (hp w)\<rparr>)"
    using free_all_owned [OF owned_left [OF array_owned [OF assms(1)]]] by (simp add: andthenM_run)
  ultimately show ?thesis
    by (simp add: add_chat_client_def add_locked_def add_result_def andthenM_run realloc_def malloc_run
        Let_def added_def add_heap_def)
qed

lemma add_blocks:
  assumes "chat_inv h srv"
  shows "transfer h [cs_clients srv] (add_heap h srv)
    [Addr (length h), Addr (length h + 1), Addr (length h + 2)]"
  using transfer_append [OF transfer_frees [OF owned_left [OF array_owned [OF assms]]], of
      "[Some Struct, Some Struct, Some (Bytes (default_name (cs_client_increment srv)))]"]
  by (simp add: add_heap_def upt_rec)

lemma add_transfer:
  assumes "chat_inv h srv"
  shows "transfer h (chat_ptrs srv) (add_heap h srv) (chat_ptrs (added h srv socket))"
    "owned (add_heap h srv) (chat_ptrs (added h srv socket))"
proof -
  let ?rest = "client_ptrs srv (cs_table srv) @ [cs_self srv]"
  let ?new = "[Addr (length h), Addr (length h + 1), Addr (length h + 2)]"
  note own = array_owned [OF assms]
  note t = add_blocks [OF assms]
  have old: "client_ptrs (added h srv socket) (cs_table srv) = client_ptrs srv (cs_table srv)"
    using chat_live [OF assms] live_less by (intro client_ptrs_cong) (fastforce simp: added_def)
  have ms: "mset (chat_ptrs (added h srv socket)) = mset (?new @ ?rest)"
    using old by (simp add: chat_ptrs_def added_def)
  have "transfer h ([cs_clients srv] @ ?rest) (add_heap h srv) (?new @ ?rest)"
    by (rule transfer_frame [OF t owned_apart [OF own]])
  then show "transfer h (chat_ptrs srv) (add_heap h srv) (chat_ptrs (added h srv socket))"
  proof (rule transfer_same)
    show "Addr a \<in> set ([cs_clients srv] @ ?rest) \<longleftrightarrow> Addr a \<in> set (chat_ptrs srv)" for a
      by (auto simp: chat_ptrs_def)
    show "Addr a \<in> set (?new @ ?rest) \<longleftrightarrow> Addr a \<in> set (chat_ptrs (added h srv socket))" for a
      using mset_eq_setD [OF ms] by blast
  qed
  have "owned (add_heap h srv) ?new"
    by (auto simp: owned_def live_def add_heap_def nth_append)
  from owned_frame [OF t own this] show "owned (add_heap h srv) (chat_ptrs (added h srv socket))"
    using owned_mset [OF ms] by blast
qed

text \<open>A name survives every step that leaves its block alone.\<close>

lemma named_transfer:
  assumes "transfer h ps h' qs" "named h srv a" "cl_name (cs_cells srv a) \<notin> set ps"
    "cs_cells srv' a = cs_cells srv a" "cs_config srv' = cs_config srv"
  shows "named h' srv' a" "name_of h' srv' a = name_of h srv a"
  using transfer_str_at [OF assms(1) _ assms(3)] assms(2,4,5) by (auto simp: named_def name_of_def)

lemma name_block:
  assumes "chat_inv h srv" "a \<in> set (cs_table srv)"
  shows "\<exists>b. cl_name (cs_cells srv a) = Addr b"
proof -
  have "cl_name (cs_cells srv a) \<in> set (chat_ptrs srv)"
    using assms(2) by (auto simp: chat_ptrs_def client_ptrs_set)
  then have "freeable (cl_name (cs_cells srv a))"
    using assms(1) by (auto simp: chat_inv_def owned_def list_all_iff)
  moreover have "str_at h (cl_name (cs_cells srv a)) \<noteq> None"
    using assms by (auto simp: chat_inv_def named_def)
  ultimately show ?thesis by (cases "cl_name (cs_cells srv a)") auto
qed

lemma name_not_in:
  assumes "chat_inv h srv" "a \<in> set as" "a \<in> set (cs_table srv)" "owned h (ps @ (client_ptrs srv as @ qs))"
  shows "cl_name (cs_cells srv a) \<notin> set ps"
proof -
  obtain b where b: "cl_name (cs_cells srv a) = Addr b" using name_block [OF assms(1,3)] by blast
  have "cl_name (cs_cells srv a) \<in> set (client_ptrs srv as)" using assms(2) by (auto simp: client_ptrs_set)
  then have "Addr b \<in> set (client_ptrs srv as @ qs)" using b by simp
  from owned_apart [OF assms(4) this] b show ?thesis by simp
qed

lemma chat_add_inv:
  assumes "chat_inv h srv" "config_ok (cs_config srv)" "socket \<notin> set (sockets srv)"
  shows "chat_inv (add_heap h srv) (added h srv socket)"
    "sockets (added h srv socket) = sockets srv @ [socket]"
    "\<And>a. a \<in> set (cs_table srv) \<Longrightarrow> name_of (add_heap h srv) (added h srv socket) a = name_of h srv a"
    "name_of (add_heap h srv) (added h srv socket) (length h + 1) = default_name (cs_client_increment srv)"
proof -
  let ?h = "add_heap h srv" and ?srv = "added h srv socket"
  have cells: "cs_cells ?srv a = cs_cells srv a" if "a \<in> set (cs_table srv)" for a
    using live_less [OF chat_live [OF assms(1) that]] by (simp add: added_def)
  have cfg: "cs_config ?srv = cs_config srv" by (simp add: added_def)
  have old: "named ?h ?srv a \<and> name_of ?h ?srv a = name_of h srv a" if a: "a \<in> set (cs_table srv)" for a
  proof -
    have "named h srv a" using assms(1) a by (simp add: chat_inv_def)
    with named_transfer [OF add_blocks [OF assms(1)], of srv a ?srv] show ?thesis
      using name_not_in [OF assms(1) a a array_owned [OF assms(1)]] cells [OF a] cfg by simp
  qed
  then show "\<And>a. a \<in> set (cs_table srv) \<Longrightarrow> name_of ?h ?srv a = name_of h srv a" by blast
  have "str_at ?h (Addr (length h + 2)) = Some (default_name (cs_client_increment srv))"
    by (simp add: add_heap_def nth_append)
  then show new: "name_of ?h ?srv (length h + 1) = default_name (cs_client_increment srv)"
    by (simp add: name_of_def added_def)
  have "length (default_name (cs_client_increment srv)) \<le> max_name_length (cs_config srv)"
    using length_default_name [of "cs_client_increment srv"] assms(1,2)
    by (simp add: chat_inv_def config_ok_def)
  with \<open>str_at ?h (Addr (length h + 2)) = _\<close> new have "named ?h ?srv (length h + 1)"
    by (simp add: named_def added_def)
  moreover show socks: "sockets ?srv = sockets srv @ [socket]"
    using cells by (simp add: sockets_def) (simp add: added_def)
  moreover have "cs_table ?srv = cs_table srv @ [length h + 1]" "cs_self ?srv = cs_self srv"
      "cs_client_increment ?srv < 2 ^ 64"
    by (simp_all add: added_def szt_def)
  ultimately show "chat_inv ?h ?srv"
    using add_transfer(2) [OF assms(1)] old assms(1,3) by (simp add: chat_inv_def)
qed

section \<open>Removing a client\<close>

text \<open>The table without the client at position \<open>i\<close>.\<close>

definition drop_client :: "nat list \<Rightarrow> nat \<Rightarrow> nat list" where
  "drop_client t i = butlast (t[i := last t])"

lemma mset_drop_client:
  assumes "i < length t"
  shows "add_mset (t ! i) (mset (drop_client t i)) = mset t"
proof (cases t rule: rev_cases)
  case (snoc xs x)
  show ?thesis
  proof (cases "i = length xs")
    case False
    then have i: "i < length xs" using assms snoc by simp
    then have "mset (xs[i := x]) = add_mset x (mset xs - {#xs ! i#})" by (simp add: mset_update)
    moreover have "xs ! i \<in># mset xs" using i by simp
    ultimately show ?thesis
      using snoc i by (simp add: drop_client_def list_update_append nth_append butlast_append)
  qed (simp add: snoc drop_client_def list_update_append)
qed (use assms in simp)

lemma remove_loop_find:
  assumes "chat_inv (hp w) srv" "c \<in> set (cs_table srv)" "is = [k..<length (cs_table srv)]"
    "\<forall>j < k. cs_table srv ! j \<noteq> c" "i < length (cs_table srv)" "cs_table srv ! i = c" "k \<le> i"
  shows "remove_loop srv c is w =
    andthenM (free (cl_name (cs_cells srv c))) (\<lambda>_.
    andthenM (free (Addr c)) (\<lambda>_.
    return (srv\<lparr>cs_table := drop_client (cs_table srv) i\<rparr>))) w"
  using assms(3,4,7)
proof (induction "is" arbitrary: k)
  case Nil
  have "length (cs_table srv) \<le> k \<or> length (cs_table srv) = 0"
    using Nil.prems(1) [symmetric] by (auto simp: upt_eq_Nil_conv)
  then show ?case using Nil.prems(3) assms(5) by simp
next
  case (Cons j js)
  have k: "k < length (cs_table srv)" using Cons.prems(3) assms(5) by simp
  then have j: "j = k" "js = [Suc k..<length (cs_table srv)]"
    using Cons.prems(1) by (simp_all add: upt_conv_Cons)
  have live: "cs_table srv ! k \<in> live (hp w)" "c \<in> live (hp w)"
    using chat_live [OF assms(1)] k assms(2) by simp_all
  have same: "cl_socket (cs_cells srv (cs_table srv ! k)) = cl_socket (cs_cells srv c) \<longleftrightarrow> k = i"
    using assms(1,5,6) k nth_eq_iff_index_eq [of "sockets srv" k i]
    by (simp add: chat_inv_def sockets_def)
  show ?case
  proof (cases "k = i")
    case True
    then show ?thesis using live same j assms(6) by (simp add: andthenM_run drop_client_def)
  next
    case False
    have "\<forall>j < Suc k. cs_table srv ! j \<noteq> c"
      using Cons.prems(2) False assms(5,6) k chat_table_distinct [OF assms(1)]
      by (auto simp: less_Suc_eq nth_eq_iff_index_eq)
    then show ?thesis
      using Cons.IH [of "Suc k"] Cons.prems(3) False j live same by (simp add: andthenM_run)
  qed
qed

text \<open>Taking one client out of the server's blocks.\<close>

lemma split_client:
  assumes "chat_inv h srv" "mset (cs_table srv) = add_mset c (mset as)"
  shows "owned h ([cl_name (cs_cells srv c), Addr c] @ (client_ptrs srv as @ [cs_clients srv, cs_self srv]))"
    "c \<in> set (cs_table srv)" "c \<notin> set as" "set (cs_table srv) = insert c (set as)"
proof -
  have ms: "mset (cs_table srv) = mset (c # as)" using assms(2) by simp
  have "mset (chat_ptrs srv) =
      mset ([cl_name (cs_cells srv c), Addr c] @ (client_ptrs srv as @ [cs_clients srv, cs_self srv]))"
    using client_ptrs_mset [OF ms, of srv] by (simp add: chat_ptrs_def)
  then show "owned h ([cl_name (cs_cells srv c), Addr c] @ (client_ptrs srv as @ [cs_clients srv, cs_self srv]))"
    using assms(1) owned_mset unfolding chat_inv_def by blast
  have "distinct (c # as)" using chat_table_distinct [OF assms(1)] mset_eq_imp_distinct_iff [OF ms] by blast
  then show "c \<notin> set as" by simp
  show "set (cs_table srv) = insert c (set as)" using mset_eq_setD [OF ms] by simp
  then show "c \<in> set (cs_table srv)" by simp
qed

lemma transfer_same_set:
  "transfer h ps h' qs \<Longrightarrow> set ps = set ps' \<Longrightarrow> set qs = set qs' \<Longrightarrow> transfer h ps' h' qs'"
  by (simp add: transfer_def set_addrs)

lemma chat_remove:
  assumes "chat_inv (hp w) srv" "i < length (cs_table srv)" "cs_table srv ! i = c"
  defines "srv' \<equiv> srv\<lparr>cs_table := drop_client (cs_table srv) i\<rparr>"
    and "h \<equiv> frees (addrs [cl_name (cs_cells srv c), Addr c]) (hp w)"
  shows "remove_chat_client srv c w =
      Inr (srv', w\<lparr>hp := h, events := events w @ [SockClose (cl_socket (cs_cells srv c))]\<rparr>)"
    "chat_inv h srv'" "transfer (hp w) (chat_ptrs srv) h (chat_ptrs srv')"
    "\<And>a. a \<in> set (cs_table srv') \<Longrightarrow> name_of h srv' a = name_of (hp w) srv a"
    "mset (cs_table srv) = add_mset c (mset (cs_table srv'))"
proof -
  let ?as = "drop_client (cs_table srv) i" and ?ps = "[cl_name (cs_cells srv c), Addr c]"
  let ?rest = "client_ptrs srv ?as @ [cs_clients srv, cs_self srv]"
  let ?w = "w\<lparr>events := events w @ [SockClose (cl_socket (cs_cells srv c))]\<rparr>"
  have ms: "mset (cs_table srv) = add_mset c (mset ?as)" using mset_drop_client [OF assms(2)] assms(3) by simp
  then show "mset (cs_table srv) = add_mset c (mset (cs_table srv'))" by (simp add: srv'_def)
  note c = split_client [OF assms(1) ms]
  have rest: "chat_ptrs srv' = ?rest"
    using client_ptrs_cong [of ?as srv srv'] by (simp add: chat_ptrs_def srv'_def)
  have own: "owned (hp ?w) ?ps" using owned_left [OF c(1)] by simp
  from free_all_owned [OF this] have "andthenM (free (cl_name (cs_cells srv c))) (\<lambda>_. andthenM (free (Addr c)) (\<lambda>_.
      return srv')) ?w = Inr (srv', ?w\<lparr>hp := h\<rparr>)"
    by (auto simp: andthenM_run h_def andthen_eq_Inr split: sum.splits)
  moreover have "chat_inv (hp ?w) srv" using assms(1) by simp
  ultimately show "remove_chat_client srv c w =
      Inr (srv', w\<lparr>hp := h, events := events w @ [SockClose (cl_socket (cs_cells srv c))]\<rparr>)"
    using remove_loop_find [of ?w srv c _ 0 i] assms(2,3) c(2) chat_live [OF assms(1) c(2)]
    by (simp add: remove_chat_client_def andthenM_run emit_run srv'_def)
  have t: "transfer (hp w) ?ps h []" using transfer_frees [of "hp w" ?ps] own by (simp add: h_def)
  have t1: "transfer (hp w) (?ps @ ?rest) h ([] @ ?rest)" by (rule transfer_frame [OF t owned_apart [OF c(1)]])
  show "transfer (hp w) (chat_ptrs srv) h (chat_ptrs srv')"
    unfolding rest by (rule transfer_same_set [OF t1]) (auto simp: chat_ptrs_def client_ptrs_set c(4))
  have names: "named h srv' a \<and> name_of h srv' a = name_of (hp w) srv a" if a: "a \<in> set ?as" for a
  proof -
    have "named (hp w) srv a" "a \<in> set (cs_table srv)" using assms(1) a c(4) by (auto simp: chat_inv_def)
    then show ?thesis
      using named_transfer [OF t, of srv a srv'] name_not_in [OF assms(1) a _ c(1)] by (simp add: srv'_def)
  qed
  then show "\<And>a. a \<in> set (cs_table srv') \<Longrightarrow> name_of h srv' a = name_of (hp w) srv a" by (simp add: srv'_def)
  have "mset (sockets srv) = mset (cl_socket (cs_cells srv c) # sockets srv')"
    using ms by (simp add: sockets_def srv'_def)
  then have "distinct (sockets srv')"
    using assms(1) mset_eq_imp_distinct_iff unfolding chat_inv_def by fastforce
  moreover have "owned h (chat_ptrs srv')" using owned_frame [OF t c(1)] rest by (simp add: owned_def [of _ "[]"])
  ultimately show "chat_inv h srv'" using assms(1) names by (simp add: chat_inv_def srv'_def)
qed

section \<open>Messages\<close>

lemma send_all_run:
  "\<forall>a \<in> set as. a \<in> live (hp w) \<Longrightarrow>
   send_all srv as t w =
     Inr ((), w\<lparr>events := events w @ map (\<lambda>a. SockWrite (cl_socket (cs_cells srv a)) t) as\<rparr>)"
  by (induction as arbitrary: w) (simp_all add: andthenM_run emit_run)

lemma broadcast_run:
  assumes "chat_inv (hp w) srv" "config_ok (cs_config srv)" "c \<in> set (cs_table srv)"
    "length msg \<le> message_buffer_size (cs_config srv)"
  defines "t \<equiv> name_of (hp w) srv c @ '': '' @ msg"
  shows "broadcast srv c msg w =
    Inr ((), w\<lparr>hp := hp w @ [None],
               events := events w @ Stderr (''Broadcasting: '' @ t @ [LF]) # map (\<lambda>s. SockWrite s t) (sockets srv)\<rparr>)"
proof -
  let ?h = "hp w @ [Some (Bytes '''')]"
  have n: "named (hp w) srv c" using assms(1,3) by (simp add: chat_inv_def)
  then have "load (cl_name (cs_cells srv c)) (w\<lparr>hp := ?h\<rparr>) = Inr (name_of (hp w) srv c, w\<lparr>hp := ?h\<rparr>)"
    by (intro load_str_at) (simp add: named_def)
  moreover have "length t + 1 \<le> szt (message_buffer_size (cs_config srv) + max_name_length (cs_config srv) + 3)"
    using n assms(2,4) by (simp add: t_def named_def config_ok_def)
  moreover have live: "a \<in> live ?h" if "a \<in> set (cs_table srv)" for a
    using chat_live [OF assms(1) that] by simp
  moreover have "send_all srv (cs_table srv) t (w\<lparr>hp := ?h, events := es\<rparr>) =
      Inr ((), w\<lparr>hp := ?h, events := es @ map (\<lambda>s. SockWrite s t) (sockets srv)\<rparr>)" for es
    using send_all_run [of "cs_table srv" "w\<lparr>hp := ?h, events := es\<rparr>" srv t] live by (simp add: sockets_def comp_def)
  moreover have "free (Addr (length (hp w))) (w\<lparr>hp := ?h, events := es\<rparr>) =
      Inr ((), w\<lparr>hp := hp w @ [None], events := es\<rparr>)" for es
    by (subst free_live) simp_all
  ultimately show ?thesis
    using assms(3)
    by (simp add: broadcast_def andthenM_run malloc_run emit_run Let_def t_def)
qed

definition renamed :: "ChatServer \<Rightarrow> nat \<Rightarrow> ptr \<Rightarrow> ChatServer" where
  "renamed srv c n = srv\<lparr>cs_cells := (cs_cells srv)(c := (cs_cells srv c)\<lparr>cl_name := n\<rparr>)\<rparr>"

lemma sockets_renamed: "sockets (renamed srv c n) = sockets srv"
  by (simp add: sockets_def renamed_def)

lemma rename_run:
  assumes "chat_inv (hp w) srv" "c \<in> set (cs_table srv)" "length new \<le> max_name_length (cs_config srv)"
  shows "\<exists>h. rename_client srv c new w =
      Inr (renamed srv c (Addr (length (hp w))),
           w\<lparr>hp := h, events := events w @ [SockWrite (cl_socket (cs_cells srv c)) ''Server: Name changed.'']\<rparr>) \<and>
    chat_inv h (renamed srv c (Addr (length (hp w)))) \<and>
    transfer (hp w) (chat_ptrs srv) h (chat_ptrs (renamed srv c (Addr (length (hp w))))) \<and>
    name_of h (renamed srv c (Addr (length (hp w)))) c = new \<and>
    (\<forall>a \<in> set (cs_table srv). a \<noteq> c \<longrightarrow>
       name_of h (renamed srv c (Addr (length (hp w)))) a = name_of (hp w) srv a)"
proof -
  let ?l = "length (hp w)" and ?as = "remove1 c (cs_table srv)" and ?old = "cl_name (cs_cells srv c)"
  let ?srv = "renamed srv c (Addr ?l)" and ?rest = "Addr c # client_ptrs srv ?as @ [cs_clients srv, cs_self srv]"
  have ms: "mset (cs_table srv) = add_mset c (mset ?as)" using assms(2) by simp
  note c = split_client [OF assms(1) ms]
  have own: "owned (hp w) ([?old] @ ?rest)" using c(1) by simp
  obtain b where b: "?old = Addr b" using name_block [OF assms(1,2)] by blast
  have "Addr b \<in> set ([?old] @ ?rest)" using b by simp
  from ownedD [OF own this] have live: "b \<in> live (hp w)" "b < ?l" by (simp_all add: live_less)
  let ?h = "(hp w)[b := None] @ [Some (Bytes new)]"
  have t: "transfer (hp w) [?old] ?h [Addr ?l]"
    using transfer_append [OF transfer_frees [OF owned_left [OF own]], of "[Some (Bytes new)]"] b by simp
  have other: "client_ptrs ?srv ?as = client_ptrs srv ?as"
    using c(3) by (intro client_ptrs_cong) (auto simp: renamed_def)
  have "mset (client_ptrs ?srv (cs_table srv)) = mset (client_ptrs ?srv (c # ?as))"
    by (rule client_ptrs_mset) (simp add: assms(2))
  then have ms': "mset (chat_ptrs ?srv) = mset ([Addr ?l] @ ?rest)"
    using other by (simp add: chat_ptrs_def) (simp add: renamed_def)
  have "transfer (hp w) ([?old] @ ?rest) ?h ([Addr ?l] @ ?rest)"
    by (rule transfer_frame [OF t owned_apart [OF own]])
  then have t1: "transfer (hp w) (chat_ptrs srv) ?h (chat_ptrs ?srv)"
  proof (rule transfer_same_set)
    show "set ([?old] @ ?rest) = set (chat_ptrs srv)" by (auto simp: chat_ptrs_def client_ptrs_set c(4))
    show "set ([Addr ?l] @ ?rest) = set (chat_ptrs ?srv)" using mset_eq_setD [OF ms'] by simp
  qed
  have "owned ?h [Addr ?l]" by (simp add: owned_def live_def nth_append)
  then have own1: "owned ?h (chat_ptrs ?srv)" using owned_frame [OF t own] owned_mset [OF ms'] by blast
  have new: "str_at ?h (cl_name (cs_cells ?srv c)) = Some new" by (simp add: renamed_def nth_append)
  have names: "named ?h ?srv a \<and> name_of ?h ?srv a = name_of (hp w) srv a" if a: "a \<in> set ?as" for a
  proof -
    have m: "named (hp w) srv a" "a \<in> set (cs_table srv)" using assms(1) a c(4) by (auto simp: chat_inv_def)
    have "owned (hp w) ([?old, Addr c] @ (client_ptrs srv ?as @ [cs_clients srv, cs_self srv]))" by (rule c(1))
    from name_not_in [OF assms(1) a m(2) this] have "cl_name (cs_cells srv a) \<notin> set [?old]" by simp
    moreover have "a \<noteq> c" using a c(3) by blast
    then have "cs_cells ?srv a = cs_cells srv a" "cs_config ?srv = cs_config srv" by (simp_all add: renamed_def)
    ultimately show ?thesis using named_transfer [OF t m(1), of ?srv] by blast
  qed
  have "named ?h ?srv c" "name_of ?h ?srv c = new"
    using new assms(3) by (auto simp: named_def name_of_def) (simp_all add: renamed_def)
  moreover from this have inv: "chat_inv ?h ?srv"
    using own1 names assms(1) c(4) sockets_renamed [of srv c "Addr ?l"]
    by (auto simp: chat_inv_def) (auto simp: renamed_def)
  moreover have free: "free (Addr b) (w\<lparr>hp := hp w @ [Some (Bytes new)]\<rparr>) = Inr ((), w\<lparr>hp := ?h\<rparr>)"
    using live by (subst free_live) (simp_all add: live_def nth_append list_update_append)
  have "rename_client srv c new w = Inr (?srv,
      w\<lparr>hp := ?h, events := events w @ [SockWrite (cl_socket (cs_cells srv c)) ''Server: Name changed.'']\<rparr>)"
    using assms(3) chat_live [OF assms(1,2)] b free
    by (simp add: rename_client_def andthenM_run malloc_run emit_run renamed_def)
  moreover have "\<forall>a \<in> set (cs_table srv). a \<noteq> c \<longrightarrow> name_of ?h ?srv a = name_of (hp w) srv a"
    using names c(4) by blast
  ultimately show ?thesis using t1 by blast
qed

lemma rename_refused:
  assumes "chat_inv (hp w) srv" "c \<in> set (cs_table srv)" "max_name_length (cs_config srv) < length new"
  shows "rename_client srv c new w =
    Inr (srv, w\<lparr>events := events w @ [SockWrite (cl_socket (cs_cells srv c)) ''Server: Name too long.'']\<rparr>)"
  using chat_live [OF assms(1,2)] assms(3) by (simp add: rename_client_def andthenM_run emit_run)

section \<open>Destroying the server\<close>

lemma free_clients_run:
  assumes "owned (hp w) (client_ptrs srv as @ ps)"
  shows "free_clients srv as w = free_all (client_ptrs srv as) w"
  using assms
proof (induction as arbitrary: w)
  case (Cons a as)
  let ?ps = "[cl_name (cs_cells srv a), Addr a]"
  have own: "owned (hp w) (?ps @ (client_ptrs srv as @ ps))" using Cons.prems by simp
  have "Addr a \<in> set (?ps @ (client_ptrs srv as @ ps))" by simp
  then have a: "a \<in> live (hp w)" using ownedD [OF own] by blast
  let ?w = "w\<lparr>hp := frees (addrs ?ps) (hp w)\<rparr>"
  have f: "free_all ?ps w = Inr ((), ?w)" by (rule free_all_owned [OF owned_left [OF own]])
  have "owned (hp ?w) (client_ptrs srv as @ ps)"
    using owned_frame [OF transfer_frees [OF owned_left [OF own]] own] by (simp add: owned_def [of _ "[]"])
  note ih = Cons.IH [OF this]
  have "free_clients srv (a # as) w = andthenM (free_all ?ps) (\<lambda>_. free_clients srv as) w"
    using a by (simp add: andthenM_run andthen_assoc split_def)
  also have "\<dots> = andthenM (free_all ?ps) (\<lambda>_. free_all (client_ptrs srv as)) w"
    using f ih by (simp only: andthenM_Inr)
  also have "\<dots> = free_all (client_ptrs srv (a # as)) w"
    using free_all_append [of ?ps "client_ptrs srv as"] by simp
  finally show ?case .
qed simp

lemma destroy_run:
  assumes "chat_inv (hp w) srv"
  shows "\<exists>h. destroy_chat_server srv w = Inr ((), w\<lparr>hp := h, events := events w @ [SockClose (cs_socket srv)]\<rparr>) \<and>
    transfer (hp w) (chat_ptrs srv) h []"
proof -
  let ?c = "client_ptrs srv (cs_table srv)"
  have own: "owned (hp w) (?c @ ([cs_clients srv] @ [cs_self srv]))"
    using assms by (simp add: chat_inv_def chat_ptrs_def)
  let ?h1 = "frees (addrs ?c) (hp w)"
  let ?h2 = "frees (addrs [cs_clients srv]) ?h1"
  let ?h3 = "frees (addrs [cs_self srv]) ?h2"
  have f1: "free_clients srv (cs_table srv) w = Inr ((), w\<lparr>hp := ?h1\<rparr>)"
    using free_clients_run [OF own] free_all_owned [OF owned_left [OF own]] by simp
  have own1: "owned ?h1 ([cs_clients srv] @ [cs_self srv])"
    using owned_frame [OF transfer_frees [OF owned_left [OF own]] own] by (simp add: owned_def [of _ "[]"])
  then have f2: "free (cs_clients srv) (w\<lparr>hp := ?h1\<rparr>) = Inr ((), w\<lparr>hp := ?h2\<rparr>)"
    using free_all_owned [of "w\<lparr>hp := ?h1\<rparr>" "[cs_clients srv]"] owned_left by (auto simp: andthenM_run)
  have own2: "owned ?h2 [cs_self srv]"
    using owned_frame [OF transfer_frees [OF owned_left [OF own1]] own1] by (simp add: owned_def [of _ "[]"])
  then have f3: "free (cs_self srv) (w\<lparr>hp := ?h2, events := es\<rparr>) = Inr ((), w\<lparr>hp := ?h3, events := es\<rparr>)" for es
    using free_all_owned [of "w\<lparr>hp := ?h2, events := es\<rparr>" "[cs_self srv]"] by (simp add: andthenM_run)
  have "transfer (hp w) (chat_ptrs srv) (frees (addrs (chat_ptrs srv)) (hp w)) []"
    using assms by (intro transfer_frees) (simp add: chat_inv_def)
  moreover have "frees (addrs (chat_ptrs srv)) (hp w) = ?h3"
    using addrs_append [of ?c "[cs_clients srv] @ [cs_self srv]"] addrs_append [of "[cs_clients srv]" "[cs_self srv]"]
    by (simp add: chat_ptrs_def)
  ultimately show ?thesis
    using f1 f2 f3 by (intro exI [of _ ?h3]) (simp add: destroy_chat_server_def andthenM_run emit_run)
qed

section \<open>One iteration of a client thread\<close>

text \<open>The text of a message as the C string in the buffer.\<close>

definition message :: "ChatServer \<Rightarrow> string option \<Rightarrow> string" where
  "message srv input =
     (case input of None \<Rightarrow> [] | Some b \<Rightarrow> take (message_buffer_size (cs_config srv)) b)"

definition msg_text :: "ChatServer \<Rightarrow> string option \<Rightarrow> string" where
  "msg_text srv input = takeWhile (\<lambda>ch. ch \<noteq> NUL) (message srv input)"

lemma length_msg_text: "length (msg_text srv input) \<le> message_buffer_size (cs_config srv)"
  using length_takeWhile_le [of "\<lambda>ch. ch \<noteq> NUL" "message srv input"]
  by (auto simp: msg_text_def message_def split: option.splits)

lemma iteration_cases:
  assumes "c \<in> live (hp w)"
  shows "chat_iteration srv c input w =
    (if message srv input = [] then andthenM (remove_chat_client srv c) (\<lambda>srv. return (False, srv)) w
     else if take 8 (msg_text srv input) = RENAME
     then andthenM (rename_client srv c (cut_line (drop 8 (msg_text srv input)))) (\<lambda>srv. return (True, srv)) w
     else andthenM (broadcast srv c (msg_text srv input)) (\<lambda>_. return (True, srv)) w)"
  using assms by (simp add: chat_iteration_def andthenM_run message_def msg_text_def Let_def)

text \<open>What every step of the server keeps, and which blocks it exchanges.\<close>

definition chat_keeps :: "world \<Rightarrow> ChatServer \<Rightarrow> world \<Rightarrow> ChatServer \<Rightarrow> bool" where
  "chat_keeps w srv w' srv' \<longleftrightarrow>
     chat_inv (hp w') srv' \<and> cs_config srv' = cs_config srv \<and> cs_self srv' = cs_self srv \<and>
     cs_socket srv' = cs_socket srv \<and>
     transfer (hp w) (chat_ptrs srv) (hp w') (chat_ptrs srv')"

lemma chat_keeps_refl: "chat_inv (hp w) srv \<Longrightarrow> hp w' = hp w \<Longrightarrow> chat_keeps w srv w' srv"
  by (simp add: chat_keeps_def chat_inv_def transfer_owned_refl)

lemma chat_keeps_trans:
  "chat_keeps w srv w' srv' \<Longrightarrow> chat_keeps w' srv' w'' srv'' \<Longrightarrow> chat_keeps w srv w'' srv''"
  unfolding chat_keeps_def by (auto intro: transfer_trans)

lemma chat_inv_frame_None:
  assumes "chat_inv h srv"
  shows "chat_inv (h @ [None]) srv"
proof -
  have "owned (h @ [None]) (chat_ptrs srv)" using assms by (simp add: chat_inv_def owned_def)
  then show ?thesis using assms by (auto simp: chat_inv_def named_def name_of_def)
qed

lemma transfer_snoc_None: "transfer h ps h' qs \<Longrightarrow> transfer h ps (h' @ [None]) qs"
  using live_less [of _ h'] by (auto simp: transfer_def nth_append)

lemma iteration_ok:
  assumes "chat_inv (hp w) srv" "config_ok (cs_config srv)" "c \<in> set (cs_table srv)"
  shows "\<exists>srv' w'. chat_iteration srv c input w = Inr ((message srv input \<noteq> [], srv'), w') \<and>
    chat_keeps w srv w' srv' \<and>
    mset (cs_table srv) = mset (cs_table srv') + (if message srv input = [] then {#c#} else {#})"
proof -
  note it = iteration_cases [OF chat_live [OF assms(1,3)], of srv input]
  consider (bye) "message srv input = []"
    | (rename) "message srv input \<noteq> []" "take 8 (msg_text srv input) = RENAME"
    | (talk) "message srv input \<noteq> []" "take 8 (msg_text srv input) \<noteq> RENAME" by blast
  then show ?thesis
  proof cases
    case bye
    obtain i where i: "i < length (cs_table srv)" "cs_table srv ! i = c"
      using assms(3) by (auto simp: in_set_conv_nth)
    note r = chat_remove [OF assms(1) i]
    show ?thesis
      using bye it r(1,2,3,5) by (auto simp: chat_keeps_def andthenM_run)
  next
    case rename
    let ?new = "cut_line (drop 8 (msg_text srv input))"
    show ?thesis
    proof (cases "length ?new \<le> max_name_length (cs_config srv)")
      case True
      from rename_run [OF assms(1,3) this] obtain h where
        "rename_client srv c ?new w = Inr (renamed srv c (Addr (length (hp w))), w\<lparr>hp := h,
           events := events w @ [SockWrite (cl_socket (cs_cells srv c)) ''Server: Name changed.'']\<rparr>)"
        "chat_inv h (renamed srv c (Addr (length (hp w))))"
        "transfer (hp w) (chat_ptrs srv) h (chat_ptrs (renamed srv c (Addr (length (hp w)))))" by blast
      then show ?thesis using rename it by (auto simp: chat_keeps_def andthenM_run renamed_def)
    next
      case False
      then show ?thesis
        using rename it rename_refused [OF assms(1,3), of ?new] chat_keeps_refl [OF assms(1)]
        by (auto simp: andthenM_run)
    qed
  next
    case talk
    note b = broadcast_run [OF assms length_msg_text, of input]
    have "chat_keeps w srv (w\<lparr>hp := hp w @ [None], events := es\<rparr>) srv" for es
      using assms(1) chat_inv_frame_None transfer_snoc_None [OF transfer_owned_refl]
      by (auto simp: chat_keeps_def chat_inv_def)
    then show ?thesis using talk it b by (auto simp: andthenM_run)
  qed
qed

section \<open>The chat server as a state machine\<close>

text \<open>
  The state of the process: the server, the rest of the memory and the clients the running
  threads handle. Descriptors that \<^verbatim>\<open>accept\<close> returns differ from those in use.
\<close>

record chat_state =
  ch_srv :: ChatServer
  ch_world :: world
  ch_threads :: "nat list"

text \<open>
  A connection: the iteration of the accepting thread, and the start of the new thread, which
  frees its argument.
\<close>

definition connect :: "int \<Rightarrow> ChatServer \<Rightarrow> (world, nat \<times> ChatServer) prog" where
  "connect socket srv =
     andthenM (chat_accept socket srv) (\<lambda>((c, arg), srv).
     andthenM (free arg) (\<lambda>_.
     return (c, srv)))"

inductive chat_step :: "chat_state \<Rightarrow> chat_state \<Rightarrow> bool" where
  accept:
    "socket \<notin> set (sockets (ch_srv s)) \<Longrightarrow>
     connect socket (ch_srv s) (ch_world s) = Inr ((c, srv'), w') \<Longrightarrow>
     chat_step s \<lparr>ch_srv = srv', ch_world = w', ch_threads = ch_threads s @ [c]\<rparr>"
| iterate:
    "c \<in> set (ch_threads s) \<Longrightarrow>
     chat_iteration (ch_srv s) c input (ch_world s) = Inr ((alive, srv'), w') \<Longrightarrow>
     chat_step s \<lparr>ch_srv = srv', ch_world = w',
       ch_threads = (if alive then ch_threads s else remove1 c (ch_threads s))\<rparr>"

text \<open>A server in its own block, before the first connection.\<close>

definition chat_start :: "int \<Rightarrow> ChatServerConfig \<Rightarrow> world \<Rightarrow> chat_state" where
  "chat_start sock config w =
     \<lparr>ch_srv = init_chat_server (Addr (length (hp w))) sock config,
      ch_world = w\<lparr>hp := hp w @ [Some Struct]\<rparr>, ch_threads = []\<rparr>"

inductive chat_reachable :: "int \<Rightarrow> ChatServerConfig \<Rightarrow> world \<Rightarrow> chat_state \<Rightarrow> bool"
  for sock config w where
  start: "chat_reachable sock config w (chat_start sock config w)"
| step: "chat_reachable sock config w s \<Longrightarrow> chat_step s s' \<Longrightarrow> chat_reachable sock config w s'"

definition chat_ok :: "ChatServerConfig \<Rightarrow> heap \<Rightarrow> chat_state \<Rightarrow> bool" where
  "chat_ok config h s \<longleftrightarrow>
     chat_inv (hp (ch_world s)) (ch_srv s) \<and> cs_config (ch_srv s) = config \<and>
     mset (ch_threads s) = mset (cs_table (ch_srv s)) \<and>
     transfer h [] (hp (ch_world s)) (chat_ptrs (ch_srv s))"

lemma connect_run:
  assumes "chat_inv (hp w) srv" "config_ok (cs_config srv)" "socket \<notin> set (sockets srv)"
  shows "connect socket srv w = Inr ((length (hp w) + 1, added (hp w) srv socket),
      w\<lparr>hp := add_heap (hp w) srv @ [None]\<rparr>)"
    "chat_keeps w srv (w\<lparr>hp := add_heap (hp w) srv @ [None]\<rparr>) (added (hp w) srv socket)"
proof -
  let ?h = "add_heap (hp w) srv"
  have "free (Addr (length ?h)) (w\<lparr>hp := ?h @ [Some Struct]\<rparr>) = Inr ((), w\<lparr>hp := ?h @ [None]\<rparr>)"
    by (subst free_live) simp_all
  then show "connect socket srv w = Inr ((length (hp w) + 1, added (hp w) srv socket), w\<lparr>hp := ?h @ [None]\<rparr>)"
    using chat_add_run [OF assms(1,2), of socket]
    by (simp add: connect_def chat_accept_def andthenM_run malloc_run)
  show "chat_keeps w srv (w\<lparr>hp := ?h @ [None]\<rparr>) (added (hp w) srv socket)"
    using chat_inv_frame_None [OF chat_add_inv(1) [OF assms]]
      transfer_snoc_None [OF add_transfer(1) [OF assms(1), of socket]]
    by (simp add: chat_keeps_def) (simp add: added_def)
qed

lemma chat_ok_start: "chat_ok config (hp w) (chat_start sock config w)"
proof -
  let ?srv = "init_chat_server (Addr (length (hp w))) sock config"
  have "chat_inv (hp w @ [Some Struct]) ?srv" by (rule init_inv) simp
  moreover have "transfer (hp w) [] (hp w @ [Some Struct]) (chat_ptrs ?srv)"
    by (rule transfer_same [OF transfer_malloc]) (auto simp: chat_ptrs_def init_chat_server_def)
  moreover have "cs_config ?srv = config" "cs_table ?srv = []" by (simp_all add: init_chat_server_def)
  ultimately show ?thesis by (simp add: chat_ok_def chat_start_def)
qed

lemma chat_ok_keeps:
  assumes "chat_ok config h s" "chat_keeps (ch_world s) (ch_srv s) w' srv'" "mset ts = mset (cs_table srv')"
  shows "chat_ok config h \<lparr>ch_srv = srv', ch_world = w', ch_threads = ts\<rparr>"
  using assms unfolding chat_ok_def chat_keeps_def by (auto intro: transfer_trans)

lemma chat_ok_step:
  assumes "chat_step s s'" "chat_ok config h s" "config_ok config"
  shows "chat_ok config h s'"
  using assms(1)
proof cases
  case (accept socket c srv' w')
  have inv: "chat_inv (hp (ch_world s)) (ch_srv s)" "config_ok (cs_config (ch_srv s))"
    using assms(2,3) by (auto simp: chat_ok_def)
  have r: "c = length (hp (ch_world s)) + 1" "srv' = added (hp (ch_world s)) (ch_srv s) socket"
      "chat_keeps (ch_world s) (ch_srv s) w' srv'"
    using connect_run [OF inv accept(2)] accept(3) by auto
  then have "mset (ch_threads s @ [c]) = mset (cs_table srv')"
    using assms(2) by (simp add: chat_ok_def added_def)
  then show ?thesis unfolding accept(1) by (rule chat_ok_keeps [OF assms(2) r(3)])
next
  case (iterate c input alive srv' w')
  have inv: "chat_inv (hp (ch_world s)) (ch_srv s)" "config_ok (cs_config (ch_srv s))"
      "mset (ch_threads s) = mset (cs_table (ch_srv s))" using assms(2,3) by (auto simp: chat_ok_def)
  then have c: "c \<in> set (cs_table (ch_srv s))" using iterate(2) mset_eq_setD by blast
  have "alive = (message (ch_srv s) input \<noteq> [])" "chat_keeps (ch_world s) (ch_srv s) w' srv'"
      "mset (cs_table (ch_srv s)) =
         mset (cs_table srv') + (if message (ch_srv s) input = [] then {#c#} else {#})"
    using iteration_ok [OF inv(1,2) c, of input] iterate(3) by auto
  then show ?thesis
    using iterate(1) inv(3) by (auto intro!: chat_ok_keeps [OF assms(2)])
qed

lemma chat_reachable_ok: "chat_reachable sock config w s \<Longrightarrow> config_ok config \<Longrightarrow> chat_ok config (hp w) s"
  by (induction rule: chat_reachable.induct) (auto simp: chat_ok_start intro: chat_ok_step)

section \<open>Numbers from the environment\<close>

lemma digit_code: "n < 10 \<Longrightarrow> of_char (digit n) = (48 + n :: nat)"
  by (simp add: digit_def)

lemma digit_is_digit: "n < 10 \<Longrightarrow> is_digit (digit n)"
  by (simp add: is_digit_def digit_code)

lemma show_nat_digits: "\<forall>c \<in> set (show_nat n). is_digit c"
proof (induction n rule: show_nat.induct)
  case (1 n)
  then show ?case by (subst show_nat.simps) (auto simp: digit_is_digit)
qed

lemma show_nat_nonempty: "show_nat n \<noteq> []"
  by (subst show_nat.simps) simp

lemma digits_value_snoc: "digits_value (ds @ [c]) = 10 * digits_value ds + (int (of_char c) - 48)"
  by (simp add: digits_value_def)

lemma digits_value_show: "digits_value (show_nat n) = int n"
proof (induction n rule: show_nat.induct)
  case (1 n)
  show ?case
  proof (cases "n < 10")
    case True
    then show ?thesis by (subst show_nat.simps) (simp add: digits_value_def digit_code)
  next
    case False
    have "show_nat n = show_nat (n div 10) @ [digit (n mod 10)]" using False by (subst show_nat.simps) simp
    then have "digits_value (show_nat n) = 10 * int (n div 10) + int (n mod 10)"
      using 1 [OF False] by (simp add: digits_value_snoc digit_code)
    also have "\<dots> = int (10 * (n div 10) + n mod 10)" by (simp only: of_nat_add of_nat_mult of_nat_numeral)
    finally show ?thesis by simp
  qed
qed

lemma digit_no_space: "is_digit c \<Longrightarrow> \<not> is_space c \<and> c \<noteq> CHR ''-'' \<and> c \<noteq> CHR ''+''"
  by (auto simp: is_digit_def is_space_def)

lemma strtol_show: "n < 2 ^ 63 \<Longrightarrow> strtol (show_nat n) = int n"
proof -
  assume n: "n < 2 ^ 63"
  obtain c cs where s: "show_nat n = c # cs" using show_nat_nonempty [of n] by (cases "show_nat n") auto
  have c: "is_digit c" "\<not> is_space c" "c \<noteq> CHR ''-''" "c \<noteq> CHR ''+''"
    using show_nat_digits [of n] digit_no_space [of c] s by auto
  have tw: "takeWhile is_digit (c # cs) = c # cs" using takeWhile_all [OF show_nat_digits [of n]] s by simp
  have "digits_value (c # cs) = int n" using digits_value_show [of n] s by simp
  moreover have "takeWhile is_digit cs = cs" using tw c(1) by (simp only: takeWhile.simps if_True list.inject)
  ultimately show ?thesis unfolding strtol_def s using n c by (simp add: Let_def del: takeWhile_eq_all_conv)
qed

section \<open>Properties of the chat server\<close>


definition default_chat_config :: ChatServerConfig where
  "default_chat_config = \<lparr>max_name_length = 32, max_clients = 256, message_buffer_size = 1024,
     server_port = 30001\<rparr>"

lemma default_config_ok: "config_ok default_chat_config"
  by (simp add: config_ok_def default_chat_config_def)

lemma two_clients:
  "\<exists>s. chat_reachable 3 default_chat_config sample_world s \<and> sockets (ch_srv s) = [4, 5]"
proof -
  let ?s0 = "chat_start 3 default_chat_config sample_world"
  have ok0: "chat_ok default_chat_config (hp sample_world) ?s0" by (rule chat_ok_start)
  have more: "\<exists>s'. chat_step s s' \<and> sockets (ch_srv s') = sockets (ch_srv s) @ [x]"
    if "chat_ok default_chat_config h s" "x \<notin> set (sockets (ch_srv s))" for s h x
  proof -
    have inv: "chat_inv (hp (ch_world s)) (ch_srv s)" "config_ok (cs_config (ch_srv s))"
      using that(1) default_config_ok by (auto simp: chat_ok_def)
    from chat_step.accept [OF that(2) connect_run(1) [OF inv that(2)]]
    show ?thesis using chat_add_inv(2) [OF inv that(2)] by fastforce
  qed
  have "sockets (ch_srv ?s0) = []" by (simp add: chat_start_def init_chat_server_def sockets_def)
  with more [OF ok0, of 4] obtain s1 where s1: "chat_step ?s0 s1" "sockets (ch_srv s1) = [4]" by auto
  have "chat_ok default_chat_config (hp sample_world) s1" by (rule chat_ok_step [OF s1(1) ok0 default_config_ok])
  with more [of _ s1 5] s1(2) obtain s2 where "chat_step s1 s2" "sockets (ch_srv s2) = [4, 5]" by auto
  then show ?thesis using s1(1) chat_reachable.start chat_reachable.step by metis
qed


text \<open>
  C15. Shutting the chat server down in any reachable state, with any clients connected, closes
  the listening socket and leaves exactly the blocks that were allocated before the server was.
\<close>

theorem chat_destroy_no_leak:
  assumes "chat_reachable sock config w s" "config_ok config"
  shows "\<exists>w'. destroy_chat_server (ch_srv s) (ch_world s) = Inr ((), w') \<and>
    events w' = events (ch_world s) @ [SockClose (cs_socket (ch_srv s))] \<and>
    transfer (hp w) [] (hp w') []"
proof -
  have ok: "chat_inv (hp (ch_world s)) (ch_srv s)"
      "transfer (hp w) [] (hp (ch_world s)) (chat_ptrs (ch_srv s))"
    using chat_reachable_ok [OF assms] by (auto simp: chat_ok_def)
  obtain h where "destroy_chat_server (ch_srv s) (ch_world s) =
      Inr ((), (ch_world s)\<lparr>hp := h, events := events (ch_world s) @ [SockClose (cs_socket (ch_srv s))]\<rparr>)"
      "transfer (hp (ch_world s)) (chat_ptrs (ch_srv s)) h []"
    using destroy_run [OF ok(1)] by blast
  then show ?thesis using transfer_trans [OF ok(2)] by auto
qed

theorem chat_destroy_no_leak_witness:
  "\<exists>(s :: chat_state) w'. sockets (ch_srv s) = [4, 5] \<and> destroy_chat_server (ch_srv s) (ch_world s) = Inr ((), w') \<and>
     transfer (hp sample_world) [] (hp w') []"
proof -
  obtain s where s: "chat_reachable 3 default_chat_config sample_world s" "sockets (ch_srv s) = [4, 5]"
    using two_clients by blast
  with chat_destroy_no_leak [OF s(1) default_config_ok] show ?thesis by blast
qed

lemma reachable_invs:
  assumes "chat_reachable sock config w s" "config_ok config"
  shows "chat_inv (hp (ch_world s)) (ch_srv s)" "config_ok (cs_config (ch_srv s))"
    "set (ch_threads s) = set (cs_table (ch_srv s))"
  using chat_reachable_ok [OF assms] assms(2) mset_eq_setD unfolding chat_ok_def by auto

text \<open>
  C18. A message reaches everybody once: in every reachable state, a text that is no rename
  command is sent to exactly the connected sockets, the sender's included, once each and in the
  order of the table, preceded by the sender's name; nothing else changes.
\<close>

theorem chat_message_reaches_all:
  assumes "chat_reachable sock config w s" "config_ok config" "c \<in> set (ch_threads s)"
    "input = Some msg" "msg \<noteq> []" "NUL \<notin> set msg" "length msg \<le> message_buffer_size config"
    "take 8 msg \<noteq> RENAME"
  shows "\<exists>w'. chat_iteration (ch_srv s) c input (ch_world s) = Inr ((True, ch_srv s), w') \<and>
    sock_events (events w') = sock_events (events (ch_world s)) @
      map (\<lambda>k. SockWrite k (name_of (hp (ch_world s)) (ch_srv s) c @ '': '' @ msg)) (sockets (ch_srv s)) \<and>
    transfer (hp (ch_world s)) [] (hp w') []"
proof -
  note inv = reachable_invs [OF assms(1,2)]
  have cfg: "cs_config (ch_srv s) = config" using chat_reachable_ok [OF assms(1,2)] by (simp add: chat_ok_def)
  have c: "c \<in> set (cs_table (ch_srv s))" using assms(3) inv(3) by simp
  have m: "message (ch_srv s) input = msg" using assms(4,7) cfg by (simp add: message_def)
  then have t: "msg_text (ch_srv s) input = msg"
    using assms(6) takeWhile_all [of msg "\<lambda>ch. ch \<noteq> NUL"] by (auto simp: msg_text_def)
  have socks: "sock_events (map (\<lambda>k. SockWrite k x) ks) = map (\<lambda>k. SockWrite k x) ks" for x ks
    by (induction ks) simp_all
  show ?thesis
    using broadcast_run [OF inv(1,2) c, of msg] iteration_cases [OF chat_live [OF inv(1) c], of "ch_srv s" input]
      assms(5,7,8) m t cfg transfer_snoc_None [OF transfer_refl [of "hp (ch_world s)"]]
    by (simp add: andthenM_run socks)
qed

theorem chat_message_reaches_all_witness:
  "\<exists>(s :: chat_state) c w' t. chat_iteration (ch_srv s) c (Some ''hi'') (ch_world s) = Inr ((True, ch_srv s), w') \<and>
     sock_events (events w') = sock_events (events (ch_world s)) @ [SockWrite 4 t, SockWrite 5 t]"
proof -
  obtain s where s: "chat_reachable 3 default_chat_config sample_world s" "sockets (ch_srv s) = [4, 5]"
    using two_clients by blast
  have "cs_table (ch_srv s) \<noteq> []" using s(2) by (auto simp: sockets_def)
  then obtain c where c: "c \<in> set (ch_threads s)"
    using reachable_invs(3) [OF s(1) default_config_ok] by (metis list.set_intros(1) neq_Nil_conv)
  have "take 8 ''hi'' \<noteq> RENAME" "NUL \<notin> set ''hi''" "length ''hi'' \<le> message_buffer_size default_chat_config"
    by (simp_all add: RENAME_def NUL_def default_chat_config_def)
  from chat_message_reaches_all [OF s(1) default_config_ok c refl _ this(2,3,1)] s(2)
  show ?thesis by auto
qed

text \<open>
  C37. The return value of \<^verbatim>\<open>add_chat_client\<close> is read after the mutex is unlocked. If a client
  that is not the last one disconnects in between, the accepting thread gets another, already
  connected client: that one is handled by two threads and the new one by none.
\<close>

theorem add_chat_client_race:
  assumes "chat_inv (hp w) srv" "config_ok (cs_config srv)" "socket \<notin> set (sockets srv)"
    "cs_table srv = x # ys @ [y]"
  shows "\<exists>srv1 w1 srv2 w2. add_locked srv socket w = Inr (srv1, w1) \<and>
    remove_chat_client srv1 x w1 = Inr (srv2, w2) \<and> add_result srv2 w2 = Inr (y, w2) \<and>
    cl_socket (cs_cells srv2 y) \<noteq> socket \<and> y \<in> set (cs_table srv) \<and> socket \<in> set (sockets srv2)"
proof -
  let ?srv = "added (hp w) srv socket" and ?w = "w\<lparr>hp := add_heap (hp w) srv\<rparr>" and ?n = "length (hp w) + 1"
  have run: "add_locked srv socket w = Inr (?srv, ?w)"
  proof -
    have "add_chat_client srv socket w = Inr ((?n, ?srv), ?w)" by (rule chat_add_run [OF assms(1,2)])
    then show ?thesis
      by (auto simp: add_chat_client_def andthenM_run andthen_eq_Inr add_result_def split: if_splits)
  qed
  note inv = chat_add_inv(1,2) [OF assms(1-3)]
  have table: "cs_table ?srv = x # (ys @ [y, ?n])" by (simp add: added_def assms(4))
  have inv': "chat_inv (hp ?w) ?srv" using inv(1) by simp
  have "remove_chat_client ?srv x ?w = Inr (?srv\<lparr>cs_table := drop_client (cs_table ?srv) 0\<rparr>,
      ?w\<lparr>hp := frees (addrs [cl_name (cs_cells ?srv x), Addr x]) (hp ?w),
         events := events ?w @ [SockClose (cl_socket (cs_cells ?srv x))]\<rparr>)"
    by (rule chat_remove(1) [OF inv']) (simp_all add: table)
  moreover have drop: "drop_client (cs_table ?srv) 0 = ?n # ys @ [y]"
    by (simp add: table drop_client_def butlast_append)
  moreover have "y \<noteq> ?n" using chat_table_distinct [OF inv(1)] table by simp
  then have "cl_socket (cs_cells ?srv y) = cl_socket (cs_cells srv y)" by (simp add: added_def)
  moreover have "cl_socket (cs_cells srv y) \<in> set (sockets srv)" by (simp add: sockets_def assms(4))
  moreover have "cl_socket (cs_cells ?srv ?n) = socket" by (simp add: added_def)
  ultimately show ?thesis
    using run assms(3,4) by (auto simp: add_result_def sockets_def)
qed

theorem add_chat_client_race_witness:
  "\<exists>srv w srv1 w1 srv2 w2 x y. add_locked srv 6 w = Inr (srv1, w1) \<and>
     remove_chat_client srv1 x w1 = Inr (srv2, w2) \<and> add_result srv2 w2 = Inr (y, w2) \<and>
     cl_socket (cs_cells srv2 y) \<noteq> 6 \<and> 6 \<in> set (sockets srv2)"
proof -
  obtain s where s: "chat_reachable 3 default_chat_config sample_world s" "sockets (ch_srv s) = [4, 5]"
    using two_clients by blast
  note inv = reachable_invs [OF s(1) default_config_ok]
  obtain x y where "cs_table (ch_srv s) = x # [] @ [y]" using s(2) by (auto simp: sockets_def)
  moreover have "6 \<notin> set (sockets (ch_srv s))" using s(2) by simp
  ultimately show ?thesis using add_chat_client_race [OF inv(1,2), of 6 x "[]" y] by blast
qed

text \<open>
  C38. The name of a new client is printed into a block of \<^verbatim>\<open>max_name_length\<close> bytes, a value of
  the environment: below 12 bytes every connection overflows it.
\<close>

theorem small_name_limit_overflows:
  assumes "chat_inv (hp w) srv" "max_name_length (cs_config srv) < 12"
  shows "add_chat_client srv socket w = Inl BufferOverflow"
proof -
  have "free (cs_clients srv) w = Inr ((), w\<lparr>hp := frees (addrs [cs_clients srv]) (hp w)\<rparr>)"
    using free_all_owned [OF owned_left [OF array_owned [OF assms(1)]]] by (simp add: andthenM_run)
  moreover have "11 \<le> length (default_name (cs_client_increment srv))" by (simp add: default_name_def)
  ultimately show ?thesis
    using assms(2)
    by (simp add: add_chat_client_def add_locked_def andthenM_run realloc_def malloc_run Let_def)
qed

theorem small_name_limit_overflows_witness:
  "add_chat_client (init_chat_server (Addr 0) 3 (default_chat_config\<lparr>max_name_length := 8\<rparr>)) 4 sample_world =
   Inl BufferOverflow"
proof (rule small_name_limit_overflows)
  show "chat_inv (hp sample_world) (init_chat_server (Addr 0) 3 (default_chat_config\<lparr>max_name_length := 8\<rparr>))"
    by (rule init_inv) (simp add: live_def sample_world_def)
qed (simp add: init_chat_server_def)

text \<open>
  C39. Reading back a configuration from the environment: sizes printed in decimal below
  \<open>2 ^ 63\<close> are read exactly, the port is taken modulo \<open>2 ^ 16\<close>, and every variable that is not
  set leaves its field as it was.
\<close>

theorem chat_config_roundtrip:
  assumes "\<forall>k n. env k = Some n \<longrightarrow> n < 2 ^ 63"
  shows "parse_chat_config_from_env (\<lambda>k. map_option show_nat (env k)) config =
    config\<lparr>max_clients := (case env ''CHAT_SERVER_MAX_CLIENTS'' of None \<Rightarrow> max_clients config | Some n \<Rightarrow> n),
      message_buffer_size :=
        (case env ''CHAT_SERVER_MESSAGE_BUFFER_SIZE'' of None \<Rightarrow> message_buffer_size config | Some n \<Rightarrow> n),
      max_name_length :=
        (case env ''CHAT_SERVER_MAX_NAME_LENGTH'' of None \<Rightarrow> max_name_length config | Some n \<Rightarrow> n),
      server_port := (case env ''CHAT_SERVER_PORT'' of None \<Rightarrow> server_port config | Some n \<Rightarrow> of_nat n)\<rparr>"
proof -
  have "env_size (map_option show_nat (env k)) old = (case env k of None \<Rightarrow> old | Some n \<Rightarrow> n)" for k old
  proof (cases "env k")
    case (Some n)
    then have "n < 2 ^ 63" using assms by blast
    then have "int n mod 2 ^ 64 = int n" by (intro mod_pos_pos_trivial) simp_all
    then show ?thesis using Some strtol_show [OF \<open>n < 2 ^ 63\<close>] by (simp add: env_size_def)
  qed (simp add: env_size_def)
  moreover have "env_port (map_option show_nat (env k)) old = (case env k of None \<Rightarrow> old | Some n \<Rightarrow> of_nat n)"
    for k old using assms by (cases "env k") (auto simp: env_port_def strtol_show)
  ultimately show ?thesis by (simp add: parse_chat_config_from_env_def)
qed

theorem chat_config_roundtrip_witness:
  "server_port (parse_chat_config_from_env
     (\<lambda>k. map_option show_nat (if k = ''CHAT_SERVER_PORT'' then Some 65537 else None)) default_chat_config) = 1"
proof -
  have "\<forall>k n. (if k = ''CHAT_SERVER_PORT'' then Some 65537 else None) = Some n \<longrightarrow> n < (2 ^ 63 :: nat)"
    by simp
  from chat_config_roundtrip [OF this, of default_chat_config] show ?thesis by simp
qed

end
