(* ===== verification/ChatRoom.thy ===== *)
theory ChatRoom
  imports ChatServer
begin

text \<open>
  What the chat server promises, as an abstract room: who is in it under which name, and what
  every member reads. The locale \<open>room_server\<close> is the contract of a server for such a room;
  the chat server of \<^verbatim>\<open>src/chat-server.c\<close> is an instance of it, so that any sequence of
  connections, messages and disconnections shows each client exactly the transcript of the room.
\<close>

section \<open>The abstract room\<close>

datatype chat_event = Join int | Receive int "string option"

datatype command = Leave | Rename string | Talk string

record room =
  members :: "int \<rightharpoonup> string"
  joined :: nat

text \<open>How the received bytes are understood.\<close>

definition command :: "ChatServerConfig \<Rightarrow> string option \<Rightarrow> command" where
  "command config input =
     (let bytes = (case input of None \<Rightarrow> [] | Some b \<Rightarrow> take (message_buffer_size config) b);
          msg = takeWhile (\<lambda>ch. ch \<noteq> NUL) bytes
      in if bytes = [] then Leave
         else if take 8 msg = RENAME then Rename (cut_line (drop 8 msg))
         else Talk msg)"

definition empty_room :: room where
  "empty_room = \<lparr>members = (\<lambda>_. None), joined = 0\<rparr>"

fun room_legal :: "room \<Rightarrow> chat_event \<Rightarrow> bool" where
  "room_legal r (Join k) \<longleftrightarrow> members r k = None"
| "room_legal r (Receive k input) \<longleftrightarrow> members r k \<noteq> None"

fun room_next :: "ChatServerConfig \<Rightarrow> room \<Rightarrow> chat_event \<Rightarrow> room" where
  "room_next config r (Join k) =
     \<lparr>members = (members r)(k \<mapsto> default_name (joined r)), joined = szt (joined r + 1)\<rparr>"
| "room_next config r (Receive k input) =
     (case command config input of
        Leave \<Rightarrow> r\<lparr>members := (members r)(k := None)\<rparr>
      | Rename n \<Rightarrow>
          if length n \<le> max_name_length config then r\<lparr>members := (members r)(k \<mapsto> n)\<rparr> else r
      | Talk t \<Rightarrow> r)"

text \<open>What the member \<open>j\<close> reads because of an event.\<close>

fun room_out :: "ChatServerConfig \<Rightarrow> room \<Rightarrow> chat_event \<Rightarrow> int \<Rightarrow> string list" where
  "room_out config r (Join k) j = []"
| "room_out config r (Receive k input) j =
     (case command config input of
        Leave \<Rightarrow> []
      | Rename n \<Rightarrow>
          if j = k
          then [if length n \<le> max_name_length config then ''Server: Name changed.'' else ''Server: Name too long.'']
          else []
      | Talk t \<Rightarrow> if members r j = None then [] else [the (members r k) @ '': '' @ t])"

text \<open>A run of the room: its last state, and the transcript of every member.\<close>

fun room_run :: "ChatServerConfig \<Rightarrow> room \<Rightarrow> chat_event list \<Rightarrow> (room \<times> (int \<Rightarrow> string list)) option" where
  "room_run config r [] = Some (r, \<lambda>j. [])"
| "room_run config r (e # es) =
     (if room_legal r e then
        map_option (\<lambda>(r', out). (r', \<lambda>j. room_out config r e j @ out j))
          (room_run config (room_next config r e) es)
      else None)"

section \<open>The contract of a server for the room\<close>

fun run_events :: "('e \<Rightarrow> 's \<Rightarrow> 's res) \<Rightarrow> 'e list \<Rightarrow> 's \<Rightarrow> 's res" where
  "run_events exec [] s = Inr s"
| "run_events exec (e # es) s = andthen (exec e s) (run_events exec es)"

locale room_server =
  fixes config :: ChatServerConfig
    and valid :: "'s \<Rightarrow> bool"
    and view :: "'s \<Rightarrow> room"
    and sent :: "'s \<Rightarrow> int \<Rightarrow> string list"
    and exec :: "chat_event \<Rightarrow> 's \<Rightarrow> 's res"
  assumes exec_ok: "valid s \<Longrightarrow> room_legal (view s) e \<Longrightarrow>
    \<exists>s'. exec e s = Inr s' \<and> valid s' \<and> view s' = room_next config (view s) e \<and>
      (\<forall>j. sent s' j = sent s j @ room_out config (view s) e j)"
begin

lemma run_refines:
  "valid s \<Longrightarrow> room_run config (view s) es = Some (r, out) \<Longrightarrow>
   \<exists>s'. run_events exec es s = Inr s' \<and> valid s' \<and> view s' = r \<and> (\<forall>j. sent s' j = sent s j @ out j)"
proof (induction es arbitrary: s r out)
  case (Cons e es)
  from Cons.prems(2) obtain out' where legal: "room_legal (view s) e"
      and run: "room_run config (room_next config (view s) e) es = Some (r, out')"
      and out: "out = (\<lambda>j. room_out config (view s) e j @ out' j)"
    by (auto split: if_splits)
  obtain s1 where s1: "exec e s = Inr s1" "valid s1" "view s1 = room_next config (view s) e"
      "\<forall>j. sent s1 j = sent s j @ room_out config (view s) e j"
    using exec_ok [OF Cons.prems(1) legal] by blast
  from Cons.IH [OF s1(2)] run s1(3) obtain s' where "run_events exec es s1 = Inr s'" "valid s'" "view s' = r"
      "\<forall>j. sent s' j = sent s1 j @ out' j" by auto
  then show ?case using s1 out by auto
qed simp

end

section \<open>The chat server as a server for the room\<close>

definition entries :: "heap \<Rightarrow> ChatServer \<Rightarrow> (int \<times> string) list" where
  "entries h srv = map (\<lambda>a. (cl_socket (cs_cells srv a), name_of h srv a)) (cs_table srv)"

definition room_of :: "chat_state \<Rightarrow> room" where
  "room_of s = \<lparr>members = map_of (entries (hp (ch_world s)) (ch_srv s)),
     joined = cs_client_increment (ch_srv s)\<rparr>"

text \<open>The texts written to a socket, in order.\<close>

fun texts_to :: "int \<Rightarrow> event list \<Rightarrow> string list" where
  "texts_to j [] = []"
| "texts_to j (e # es) =
     (case e of SockWrite k t \<Rightarrow> if k = j then [t] else [] | _ \<Rightarrow> []) @ texts_to j es"

definition transcript :: "chat_state \<Rightarrow> int \<Rightarrow> string list" where
  "transcript s j = texts_to j (events (ch_world s))"

text \<open>An event at the chat server: a connection, or bytes that the thread of a socket receives.\<close>

fun chat_exec :: "chat_event \<Rightarrow> chat_state \<Rightarrow> chat_state res" where
  "chat_exec (Join k) s =
     andthen (connect k (ch_srv s) (ch_world s)) (\<lambda>((c, srv'), w').
     Inr \<lparr>ch_srv = srv', ch_world = w', ch_threads = ch_threads s @ [c]\<rparr>)"
| "chat_exec (Receive k input) s =
     (case find (\<lambda>c. cl_socket (cs_cells (ch_srv s) c) = k) (ch_threads s) of
        None \<Rightarrow> Inr s
      | Some c \<Rightarrow>
          andthen (chat_iteration (ch_srv s) c input (ch_world s)) (\<lambda>((alive, srv'), w').
          Inr \<lparr>ch_srv = srv', ch_world = w',
               ch_threads = (if alive then ch_threads s else remove1 c (ch_threads s))\<rparr>))"

lemma texts_to_append [simp]: "texts_to j (es @ fs) = texts_to j es @ texts_to j fs"
  by (induction es) auto

lemma texts_to_sends:
  "distinct ks \<Longrightarrow> texts_to j (map (\<lambda>k. SockWrite k t) ks) = (if j \<in> set ks then [t] else [])"
  by (induction ks) auto

lemma entries_keys: "map fst (entries h srv) = sockets srv"
  by (simp add: entries_def sockets_def comp_def)

lemma members_iff:
  assumes "distinct (sockets srv)"
  shows "map_of (entries h srv) k = Some n \<longleftrightarrow>
    (\<exists>a \<in> set (cs_table srv). cl_socket (cs_cells srv a) = k \<and> name_of h srv a = n)"
  using map_of_eq_Some_iff [of "entries h srv" k n] assms
  by (auto simp: entries_keys) (auto simp: entries_def)

lemma member_None: "map_of (entries h srv) k = None \<longleftrightarrow> k \<notin> set (sockets srv)"
proof -
  have "fst ` set (entries h srv) = set (sockets srv)" by (metis entries_keys list.set_map)
  then show ?thesis by (simp add: map_of_eq_None_iff)
qed

lemma member_name:
  assumes "distinct (sockets srv)" "c \<in> set (cs_table srv)"
  shows "map_of (entries h srv) (cl_socket (cs_cells srv c)) = Some (name_of h srv c)"
  using assms by (auto simp: members_iff)

lemma same_socket:
  "distinct (sockets srv) \<Longrightarrow> a \<in> set (cs_table srv) \<Longrightarrow> c \<in> set (cs_table srv) \<Longrightarrow>
   cl_socket (cs_cells srv a) = cl_socket (cs_cells srv c) \<longleftrightarrow> a = c"
  unfolding sockets_def distinct_map inj_on_def by blast

lemma map_eqI: "(\<And>k v. m k = Some v \<longleftrightarrow> n k = Some v) \<Longrightarrow> m = n"
  by (metis option.exhaust ext)

text \<open>The three kinds of change of the table.\<close>

lemma entries_join:
  assumes "chat_inv h srv" "config_ok (cs_config srv)" "k \<notin> set (sockets srv)"
  shows "map_of (entries (add_heap h srv @ [None]) (added h srv k)) =
    (map_of (entries h srv))(k \<mapsto> default_name (cs_client_increment srv))"
proof -
  let ?h = "add_heap h srv" and ?srv = "added h srv k"
  note add = chat_add_inv [OF assms]
  have str: "name_of (?h @ [None]) ?srv a = name_of ?h ?srv a" if "a \<in> set (cs_table ?srv)" for a
    using add(1) that by (auto simp: chat_inv_def named_def name_of_def)
  have cells: "cs_cells ?srv a = cs_cells srv a" if "a \<in> set (cs_table srv)" for a
    using live_less [OF chat_live [OF assms(1) that]] by (simp add: added_def)
  have table: "cs_table ?srv = cs_table srv @ [length h + 1]" by (simp add: added_def)
  have "entries (?h @ [None]) ?srv = entries h srv @ [(k, default_name (cs_client_increment srv))]"
    unfolding entries_def table map_append
    using str add(3,4) cells table by (auto simp: added_def)
  moreover have "map_of (entries h srv) k = None" using assms(3) by (simp add: member_None)
  ultimately show ?thesis by (auto simp: map_add_def split: option.splits)
qed

lemma entries_leave:
  assumes "distinct (sockets srv)" "mset (cs_table srv) = add_mset c (mset (cs_table srv'))"
    "cs_cells srv' = cs_cells srv" "\<And>a. a \<in> set (cs_table srv') \<Longrightarrow> name_of h' srv' a = name_of h srv a"
  shows "map_of (entries h' srv') = (map_of (entries h srv))(cl_socket (cs_cells srv c) := None)"
proof -
  have ms: "mset (cs_table srv) = mset (c # cs_table srv')" using assms(2) by simp
  have t: "set (cs_table srv) = insert c (set (cs_table srv'))" using mset_eq_setD [OF ms] by simp
  have "distinct (c # cs_table srv')"
    using assms(1) mset_eq_imp_distinct_iff [OF ms] by (auto simp: sockets_def distinct_map)
  then have c: "c \<notin> set (cs_table srv')" by simp
  have "inj_on (\<lambda>a. cl_socket (cs_cells srv a)) (set (cs_table srv))"
    using assms(1) by (simp add: sockets_def distinct_map)
  then have d: "distinct (sockets srv')"
    using \<open>distinct (c # cs_table srv')\<close> t assms(3) by (auto simp: sockets_def distinct_map inj_on_def)
  show ?thesis
  proof (rule map_eqI)
    fix k v
    show "map_of (entries h' srv') k = Some v \<longleftrightarrow>
        ((map_of (entries h srv))(cl_socket (cs_cells srv c) := None)) k = Some v"
      using members_iff [OF d] members_iff [OF assms(1)] t c assms(3,4) same_socket [OF assms(1)]
      by auto
  qed
qed

lemma entries_rename:
  assumes "distinct (sockets srv)" "c \<in> set (cs_table srv)" "name_of h' (renamed srv c p) c = n"
    "\<forall>a \<in> set (cs_table srv). a \<noteq> c \<longrightarrow> name_of h' (renamed srv c p) a = name_of h srv a"
  shows "map_of (entries h' (renamed srv c p)) = (map_of (entries h srv))(cl_socket (cs_cells srv c) \<mapsto> n)"
proof (rule map_eqI)
  fix k v
  have "distinct (sockets (renamed srv c p))" using assms(1) by (simp add: sockets_renamed)
  moreover have "cs_table (renamed srv c p) = cs_table srv"
      "\<And>a. cl_socket (cs_cells (renamed srv c p) a) = cl_socket (cs_cells srv a)"
    by (simp_all add: renamed_def)
  ultimately show "map_of (entries h' (renamed srv c p)) k = Some v \<longleftrightarrow>
      ((map_of (entries h srv))(cl_socket (cs_cells srv c) \<mapsto> n)) k = Some v"
    using members_iff [of "renamed srv c p" h' k v] members_iff [OF assms(1), of h k v]
      assms same_socket [OF assms(1)] by auto
qed

section \<open>The chat server keeps the contract\<close>

lemma command_message:
  "command (cs_config srv) input =
     (if message srv input = [] then Leave
      else if take 8 (msg_text srv input) = RENAME then Rename (cut_line (drop 8 (msg_text srv input)))
      else Talk (msg_text srv input))"
  by (simp add: command_def message_def msg_text_def Let_def)

text \<open>One iteration of a thread, seen by the room.\<close>

definition seen :: "ChatServerConfig \<Rightarrow> world \<Rightarrow> ChatServer \<Rightarrow> chat_event \<Rightarrow> world \<Rightarrow> ChatServer \<Rightarrow> bool" where
  "seen config w srv e w' srv' \<longleftrightarrow>
     \<lparr>members = map_of (entries (hp w') srv'), joined = cs_client_increment srv'\<rparr> =
       room_next config \<lparr>members = map_of (entries (hp w) srv), joined = cs_client_increment srv\<rparr> e \<and>
     (\<forall>j. texts_to j (events w') = texts_to j (events w) @
       room_out config \<lparr>members = map_of (entries (hp w) srv), joined = cs_client_increment srv\<rparr> e j)"

lemma leave_seen:
  assumes "chat_inv (hp w) srv" "c \<in> set (cs_table srv)" "message srv input = []"
    "chat_iteration srv c input w = Inr ((alive, srv'), w')"
  shows "seen (cs_config srv) w srv (Receive (cl_socket (cs_cells srv c)) input) w' srv'"
proof -
  obtain i where i: "i < length (cs_table srv)" "cs_table srv ! i = c"
    using assms(2) by (auto simp: in_set_conv_nth)
  note r = chat_remove [OF assms(1) i]
  have res: "srv' = srv\<lparr>cs_table := drop_client (cs_table srv) i\<rparr>"
      "hp w' = frees (addrs [cl_name (cs_cells srv c), Addr c]) (hp w)"
      "events w' = events w @ [SockClose (cl_socket (cs_cells srv c))]"
    using assms(3,4) iteration_cases [OF chat_live [OF assms(1,2)], of srv input] r(1)
    by (auto simp: andthenM_run)
  have d: "distinct (sockets srv)" using assms(1) by (simp add: chat_inv_def)
  have "map_of (entries (hp w') srv') = (map_of (entries (hp w) srv))(cl_socket (cs_cells srv c) := None)"
    by (rule entries_leave [OF d]) (use r(4,5) res(1,2) in simp_all)
  moreover have "command (cs_config srv) input = Leave" by (simp add: command_message assms(3))
  ultimately show ?thesis using res(1,3) by (simp add: seen_def)
qed

lemma rename_seen:
  assumes "chat_inv (hp w) srv" "c \<in> set (cs_table srv)" "message srv input \<noteq> []"
    "take 8 (msg_text srv input) = RENAME" "chat_iteration srv c input w = Inr ((alive, srv'), w')"
  shows "seen (cs_config srv) w srv (Receive (cl_socket (cs_cells srv c)) input) w' srv'"
proof -
  let ?new = "cut_line (drop 8 (msg_text srv input))"
  have d: "distinct (sockets srv)" using assms(1) by (simp add: chat_inv_def)
  have cmd: "command (cs_config srv) input = Rename ?new" using assms(3,4) by (simp add: command_message)
  have it: "andthenM (rename_client srv c ?new) (\<lambda>srv. return (True, srv)) w = Inr ((alive, srv'), w')"
    using iteration_cases [OF chat_live [OF assms(1,2)], of srv input] assms(3-5) by simp
  show ?thesis
  proof (cases "length ?new \<le> max_name_length (cs_config srv)")
    case True
    let ?srv = "renamed srv c (Addr (length (hp w)))"
    obtain h where r: "rename_client srv c ?new w = Inr (?srv, w\<lparr>hp := h,
           events := events w @ [SockWrite (cl_socket (cs_cells srv c)) ''Server: Name changed.'']\<rparr>)"
        "name_of h ?srv c = ?new"
        "\<forall>a \<in> set (cs_table srv). a \<noteq> c \<longrightarrow> name_of h ?srv a = name_of (hp w) srv a"
      using rename_run [OF assms(1,2) True] by blast
    have "srv' = ?srv" "hp w' = h"
        "events w' = events w @ [SockWrite (cl_socket (cs_cells srv c)) ''Server: Name changed.'']"
      using it r(1) by auto
    then show ?thesis
      using entries_rename [OF d assms(2) r(2,3)] cmd True by (simp add: seen_def) (simp add: renamed_def)
  next
    case False
    then have "srv' = srv" "hp w' = hp w"
        "events w' = events w @ [SockWrite (cl_socket (cs_cells srv c)) ''Server: Name too long.'']"
      using it rename_refused [OF assms(1,2), of ?new] by auto
    then show ?thesis using cmd False by (simp add: seen_def)
  qed
qed

lemma talk_seen:
  assumes "chat_inv (hp w) srv" "config_ok (cs_config srv)" "c \<in> set (cs_table srv)"
    "message srv input \<noteq> []" "take 8 (msg_text srv input) \<noteq> RENAME"
    "chat_iteration srv c input w = Inr ((alive, srv'), w')"
  shows "seen (cs_config srv) w srv (Receive (cl_socket (cs_cells srv c)) input) w' srv'"
proof -
  let ?t = "name_of (hp w) srv c @ '': '' @ msg_text srv input"
  have d: "distinct (sockets srv)" using assms(1) by (simp add: chat_inv_def)
  have cmd: "command (cs_config srv) input = Talk (msg_text srv input)"
    using assms(4,5) by (simp add: command_message)
  have res: "srv' = srv" "hp w' = hp w @ [None]"
      "events w' = events w @ Stderr (''Broadcasting: '' @ ?t @ [LF]) # map (\<lambda>s. SockWrite s ?t) (sockets srv)"
    using iteration_cases [OF chat_live [OF assms(1,3)], of srv input] assms(4-6)
      broadcast_run [OF assms(1-3) length_msg_text, of input] by (auto simp: andthenM_run)
  have "name_of (hp w @ [None]) srv a = name_of (hp w) srv a" if "a \<in> set (cs_table srv)" for a
    using assms(1) that by (auto simp: chat_inv_def named_def name_of_def)
  then have "entries (hp w') srv' = entries (hp w) srv" by (simp add: entries_def res(1,2))
  moreover have "texts_to j (events w') = texts_to j (events w) @ (if j \<in> set (sockets srv) then [?t] else [])" for j
    using texts_to_sends [OF d, of j ?t] res(3) by simp
  ultimately show ?thesis
    using cmd res(1) member_None [of "hp w" srv] member_name [OF d assms(3), of "hp w"]
    by (auto simp: seen_def)
qed

lemma iteration_seen:
  assumes "chat_inv (hp w) srv" "config_ok (cs_config srv)" "c \<in> set (cs_table srv)"
    "chat_iteration srv c input w = Inr ((alive, srv'), w')"
  shows "seen (cs_config srv) w srv (Receive (cl_socket (cs_cells srv c)) input) w' srv'"
  using leave_seen [OF assms(1,3) _ assms(4)] rename_seen [OF assms(1,3) _ _ assms(4)]
    talk_seen [OF assms(1-3) _ _ assms(4)] by blast

lemma join_seen:
  assumes "chat_inv (hp w) srv" "config_ok (cs_config srv)" "k \<notin> set (sockets srv)"
  shows "seen (cs_config srv) w srv (Join k) (w\<lparr>hp := add_heap (hp w) srv @ [None]\<rparr>) (added (hp w) srv k)"
  using entries_join [OF assms] by (simp add: seen_def) (simp add: added_def)

text \<open>Every legal event is a step of the server that the room follows.\<close>

lemma chat_exec_ok:
  assumes "chat_ok config h s" "config_ok config" "room_legal (room_of s) e"
  shows "\<exists>s'. chat_exec e s = Inr s' \<and> chat_step s s' \<and> room_of s' = room_next config (room_of s) e \<and>
    (\<forall>j. transcript s' j = transcript s j @ room_out config (room_of s) e j)"
proof -
  let ?srv = "ch_srv s" and ?w = "ch_world s"
  have inv: "chat_inv (hp ?w) ?srv" "config_ok (cs_config ?srv)" "cs_config ?srv = config"
      and threads: "set (ch_threads s) = set (cs_table ?srv)"
    using assms(1,2) mset_eq_setD unfolding chat_ok_def by auto
  show ?thesis
  proof (cases e)
    case (Join k)
    then have k: "k \<notin> set (sockets ?srv)" using assms(3) by (simp add: room_of_def member_None)
    note c = connect_run(1) [OF inv(1,2) k]
    show ?thesis
      using chat_step.accept [OF k c] c join_seen [OF inv(1,2) k] inv(3)
      by (simp add: Join seen_def room_of_def transcript_def)
  next
    case (Receive k input)
    obtain c where c: "find (\<lambda>c. cl_socket (cs_cells ?srv c) = k) (ch_threads s) = Some c"
        "c \<in> set (ch_threads s)" "cl_socket (cs_cells ?srv c) = k"
    proof -
      have "k \<in> set (sockets ?srv)" using assms(3) Receive by (simp add: room_of_def member_None)
      then have "\<exists>c \<in> set (ch_threads s). cl_socket (cs_cells ?srv c) = k"
        by (auto simp: sockets_def threads)
      then show thesis
        using that by (cases "find (\<lambda>c. cl_socket (cs_cells ?srv c) = k) (ch_threads s)")
          (auto simp: find_None_iff find_Some_iff)
    qed
    then have ct: "c \<in> set (cs_table ?srv)" using threads by simp
    obtain alive srv' w' where it: "chat_iteration ?srv c input ?w = Inr ((alive, srv'), w')"
      using iteration_ok [OF inv(1,2) ct] by blast
    show ?thesis
      using chat_step.iterate [OF c(2) it] it c(1) iteration_seen [OF inv(1,2) ct it] c(3) inv(3)
      by (simp add: Receive seen_def room_of_def transcript_def)
  qed
qed

interpretation chat: room_server config "\<lambda>s. chat_reachable sock config w s \<and> config_ok config"
  room_of transcript chat_exec for config sock w
proof
  fix s e
  assume a: "chat_reachable sock config w s \<and> config_ok config" "room_legal (room_of s) e"
  then have "chat_ok config (hp w) s" using chat_reachable_ok by blast
  from chat_exec_ok [OF this _ a(2)] a(1)
  show "\<exists>s'. chat_exec e s = Inr s' \<and> (chat_reachable sock config w s' \<and> config_ok config) \<and>
      room_of s' = room_next config (room_of s) e \<and>
      (\<forall>j. transcript s' j = transcript s j @ room_out config (room_of s) e j)"
    by (meson chat_reachable.step)
qed

text \<open>The same from any state in which the server owns its blocks.\<close>

interpretation running: room_server config "\<lambda>s. chat_ok config h s \<and> config_ok config"
  room_of transcript chat_exec for config h
proof
  fix s e
  assume a: "chat_ok config h s \<and> config_ok config" "room_legal (room_of s) e"
  then have ok: "chat_ok config h s" "config_ok config" by blast+
  from chat_exec_ok [OF ok a(2)]
  show "\<exists>s'. chat_exec e s = Inr s' \<and> (chat_ok config h s' \<and> config_ok config) \<and>
      room_of s' = room_next config (room_of s) e \<and>
      (\<forall>j. transcript s' j = transcript s j @ room_out config (room_of s) e j)"
    using chat_ok_step [OF _ ok] ok(2) by blast
qed

lemma room_of_start: "room_of (chat_start sock config w) = empty_room"
  by (simp add: room_of_def chat_start_def init_chat_server_def entries_def empty_room_def)

lemma transcript_start: "transcript (chat_start sock config w) j = texts_to j (events w)"
  by (simp add: transcript_def chat_start_def)

section \<open>A chat server beside the rest of the process\<close>

text \<open>Code that leaves the blocks of the chat server alone keeps its invariant.\<close>

lemma chat_inv_apart:
  assumes "chat_inv h srv" "transfer h ps h' qs" "owned h (ps @ chat_ptrs srv)" "owned h' qs"
  shows "chat_inv h' srv"
proof -
  have "owned h' (qs @ chat_ptrs srv)" by (rule owned_frame [OF assms(2-4)])
  then have own: "owned h' (chat_ptrs srv)" by (auto simp: owned_def)
  have "named h' srv a" if a: "a \<in> set (cs_table srv)" for a
  proof -
    obtain b where b: "cl_name (cs_cells srv a) = Addr b" using name_block [OF assms(1) a] by blast
    have "cl_name (cs_cells srv a) \<in> set (chat_ptrs srv)" using a by (auto simp: chat_ptrs_def client_ptrs_set)
    then have "cl_name (cs_cells srv a) \<notin> set ps" using owned_apart [OF assms(3)] b by simp
    moreover have "named h srv a" using assms(1) a by (simp add: chat_inv_def)
    ultimately show ?thesis using named_transfer(1) [OF assms(2)] by blast
  qed
  then show ?thesis using assms(1) own by (simp add: chat_inv_def)
qed

text \<open>A new server at work in a process that has allocated more meanwhile.\<close>

lemma chat_session:
  fixes sock :: int
  assumes "config_ok config" "l \<in> live (hp w)" "room_run config empty_room es = Some (r, out)"
  defines "srv \<equiv> init_chat_server (Addr l) sock config"
  shows "\<exists>s. run_events chat_exec es \<lparr>ch_srv = srv, ch_world = w, ch_threads = []\<rparr> = Inr s \<and>
    room_of s = r \<and> (\<forall>j. texts_to j (events (ch_world s)) = texts_to j (events w) @ out j) \<and>
    chat_inv (hp (ch_world s)) (ch_srv s) \<and>
    transfer (hp w) (chat_ptrs srv) (hp (ch_world s)) (chat_ptrs (ch_srv s))"
proof -
  let ?s = "\<lparr>ch_srv = srv, ch_world = w, ch_threads = []\<rparr>"
  let ?h = "frees (addrs (chat_ptrs srv)) (hp w)"
  have inv: "chat_inv (hp w) srv" unfolding srv_def by (rule init_inv [OF assms(2)])
  then have own: "owned (hp w) (chat_ptrs srv)" by (simp add: chat_inv_def)
  have before: "transfer ?h [] (hp w) (chat_ptrs srv)"
    using own by (auto simp: transfer_def owned_def frees_nth)
  then have ok: "chat_ok config ?h ?s \<and> config_ok config"
    using inv assms(1) by (simp add: chat_ok_def) (simp add: srv_def init_chat_server_def)
  have "room_of ?s = empty_room"
    by (simp add: room_of_def srv_def init_chat_server_def entries_def empty_room_def)
  then have "room_run config (room_of ?s) es = Some (r, out)" using assms(3) by simp
  from running.run_refines [OF ok this] obtain s where s: "run_events chat_exec es ?s = Inr s" "chat_ok config ?h s" "room_of s = r"
      "\<forall>j. transcript s j = transcript ?s j @ out j" by blast
  have "transfer (hp w) (chat_ptrs srv) (hp (ch_world s)) (chat_ptrs (ch_srv s))"
    using transfer_trans [OF transfer_frees [OF own]] s(2) by (simp add: chat_ok_def)
  then show ?thesis using s by (auto simp: transcript_def chat_ok_def)
qed

section \<open>Names without zero bytes\<close>

lemma cut_line_subset: "set (cut_line s) \<subseteq> set s"
  by (auto simp: cut_line_def dest: set_takeWhileD set_dropWhileD)

lemma rename_no_zero:
  assumes "command config input = Rename n"
  shows "NUL \<notin> set n"
proof -
  obtain bytes where n: "n = cut_line (drop 8 (takeWhile (\<lambda>ch. ch \<noteq> NUL) bytes))"
    using assms by (auto simp: command_def Let_def split: if_splits)
  then have "set n \<subseteq> set (takeWhile (\<lambda>ch. ch \<noteq> NUL) bytes)"
    using cut_line_subset set_drop_subset by (metis subset_trans)
  then show ?thesis by (auto dest: set_takeWhileD)
qed

lemma digit_no_zero: "\<forall>c \<in> set (show_nat n). c \<noteq> NUL"
  using show_nat_digits [of n] by (auto simp: is_digit_def NUL_def)

lemma default_no_zero: "NUL \<notin> set (default_name n)"
  using digit_no_zero [of n] by (auto simp: default_name_def pad_def NUL_def)

lemma room_names:
  "room_run config r es = Some (r', out) \<Longrightarrow> \<forall>k n. members r k = Some n \<longrightarrow> NUL \<notin> set n \<Longrightarrow>
   members r' k = Some n \<Longrightarrow> NUL \<notin> set n"
proof (induction es arbitrary: r out)
  case (Cons e es)
  then obtain out' where run: "room_run config (room_next config r e) es = Some (r', out')"
    by (auto split: if_splits)
  have "\<forall>k n. members (room_next config r e) k = Some n \<longrightarrow> NUL \<notin> set n"
    using Cons.prems(2) default_no_zero rename_no_zero
    by (cases e) (auto split: command.splits if_splits)
  then show ?case using Cons.IH [OF run] Cons.prems(3) by blast
qed auto

lemma command_talk:
  assumes "msg \<noteq> []" "NUL \<notin> set msg" "length msg \<le> message_buffer_size config" "take 8 msg \<noteq> RENAME"
  shows "command config (Some msg) = Talk msg"
proof -
  have "takeWhile (\<lambda>ch. ch \<noteq> NUL) msg = msg" by (rule takeWhile_all) (use assms(2) in auto)
  then show ?thesis using assms by (simp add: command_def Let_def del: takeWhile_eq_all_conv)
qed

lemma command_rename:
  assumes "LF \<notin> set name" "NUL \<notin> set name" "length name + 8 \<le> message_buffer_size config"
  shows "command config (Some (RENAME @ name)) = Rename name"
proof -
  have "takeWhile (\<lambda>ch. ch \<noteq> NUL) (RENAME @ name) = RENAME @ name"
    by (rule takeWhile_all) (use assms(2) in \<open>auto simp: RENAME_def NUL_def\<close>)
  moreover have "cut_line name = name"
  proof (cases name)
    case (Cons ch cs)
    then show ?thesis
      using assms(1) takeWhile_all [of cs "\<lambda>x. x \<noteq> LF"] by (auto simp: cut_line_def)
  qed (simp add: cut_line_def)
  moreover have "length RENAME = 8" "RENAME \<noteq> []" by (simp_all add: RENAME_def)
  ultimately show ?thesis
    using assms(3) by (simp add: command_def Let_def del: takeWhile_eq_all_conv takeWhile_append)
qed

section \<open>Properties of the chat\<close>

text \<open>
  C3. The chat server refines the room: with a configuration within bounds, any sequence of
  connections, received bytes and disconnections that is possible in the room runs through at
  the server, ends with exactly the members and names of the room, and every socket was sent
  exactly the texts of the room's transcript, in order. A connection and the handling of what
  one \<^verbatim>\<open>recv\<close> delivers are single steps.
\<close>

theorem chat_refines_room:
  assumes "config_ok config" "room_run config empty_room es = Some (r, out)"
  shows "\<exists>s. run_events chat_exec es (chat_start sock config w) = Inr s \<and>
    chat_reachable sock config w s \<and> room_of s = r \<and>
    (\<forall>j. transcript s j = texts_to j (events w) @ out j)"
proof -
  have "chat_reachable sock config w (chat_start sock config w) \<and> config_ok config"
    using assms(1) chat_reachable.start by blast
  from chat.run_refines [OF this, unfolded room_of_start transcript_start, OF assms(2)]
  show ?thesis by blast
qed

text \<open>Two members, a change of name, a message and a goodbye.\<close>

definition sample_chat :: "chat_event list" where
  "sample_chat = [Join 4, Join 5, Receive 4 (Some (RENAME @ ''Ann'')), Receive 4 (Some ''hi''),
     Receive 5 (Some ''hello''), Receive 4 None]"

lemma sample_room:
  "room_run default_chat_config empty_room sample_chat =
     Some (\<lparr>members = [5 \<mapsto> ''Client #001''], joined = 2\<rparr>,
       (\<lambda>_. [])(4 := [''Server: Name changed.'', ''Ann: hi'', ''Client #001: hello''],
                5 := [''Ann: hi'', ''Client #001: hello'']))"
proof -
  have "default_name 0 = ''Client #000''" "default_name 1 = ''Client #001''" by code_simp+
  moreover have "command default_chat_config (Some (RENAME @ ''Ann'')) = Rename ''Ann''"
      "command default_chat_config (Some ''hi'') = Talk ''hi''"
      "command default_chat_config (Some ''hello'') = Talk ''hello''"
      "command default_chat_config None = Leave" by code_simp+
  ultimately show ?thesis
    by (auto simp: sample_chat_def empty_room_def szt_def default_chat_config_def fun_eq_iff)
qed

theorem chat_refines_room_witness:
  "\<exists>s. run_events chat_exec sample_chat (chat_start 3 default_chat_config sample_world) = Inr s \<and>
     members (room_of s) = [5 \<mapsto> ''Client #001''] \<and>
     transcript s 5 = texts_to 5 (events sample_world) @ [''Ann: hi'', ''Client #001: hello'']"
  using chat_refines_room [OF default_config_ok sample_room, of 3 sample_world] by auto

end
