(* ===== verification/ChatClient.thy ===== *)
theory ChatClient
  imports ChatServer
begin

text \<open>
  The terminal client of \<^verbatim>\<open>chat-client/src/chat-client.c\<close>: the main thread that sends what is
  typed, and the thread that prints what arrives. A character buffer is the C string in it, or
  \<^const>\<open>None\<close> before it was written. The input of the process, the results of the system calls
  and the number of rounds of the endless sending loop are arguments.
\<close>

section \<open>Definitions\<close>

definition MAX_MESSAGE_SIZE :: nat where "MAX_MESSAGE_SIZE = 1024"

definition MAX_NAME_LENGTH :: nat where "MAX_NAME_LENGTH = 50"

text \<open>
  \<^verbatim>\<open>fgets\<close> on the rest of the standard input: at most \<open>n - 1\<close> bytes, up to and including the
  first line feed; \<^const>\<open>None\<close> at the end of the input, which leaves the buffer as it was.
\<close>

definition first_line :: "string \<Rightarrow> string" where
  "first_line s = takeWhile (\<lambda>c. c \<noteq> LF) s @ take 1 (dropWhile (\<lambda>c. c \<noteq> LF) s)"

definition fgets :: "nat \<Rightarrow> string \<Rightarrow> string option \<times> string" where
  "fgets n input =
     (if input = [] then (None, [])
      else let l = take (n - 1) (first_line input) in (Some l, drop (length l) input))"

text \<open>\<^verbatim>\<open>fgets(buffer, n, stdin); strtok(buffer, "\n");\<close> with the buffer and the rest of the input.\<close>

definition read_line :: "nat \<Rightarrow> string option \<Rightarrow> string \<Rightarrow> (world, string \<times> string) prog" where
  "read_line n buffer input =
     (let (l, rest) = fgets n input;
          filled = (case l of None \<Rightarrow> buffer | Some bytes \<Rightarrow> Some (takeWhile (\<lambda>c. c \<noteq> NUL) bytes))
      in case filled of
           None \<Rightarrow> fault UninitRead
         | Some t \<Rightarrow> return (cut_line t, rest))"

definition rename_user :: "int \<Rightarrow> string \<Rightarrow> (world, unit) prog" where
  "rename_user socket_fd username =
     (let to_send = ''/rename'' @ '' '' @ username in
      if MAX_MESSAGE_SIZE + MAX_NAME_LENGTH + 3 < length to_send + 1 then fault BufferOverflow
      else emit (SockWrite socket_fd to_send))"

text \<open>The first rounds of the sending loop.\<close>

fun client_loop :: "nat \<Rightarrow> int \<Rightarrow> string option \<Rightarrow> string \<Rightarrow> (world, string option \<times> string) prog" where
  "client_loop 0 socket_fd msg input = return (msg, input)"
| "client_loop (Suc rounds) socket_fd msg input =
     andthenM (read_line MAX_MESSAGE_SIZE msg input) (\<lambda>(msg, input).
     andthenM (emit (SockWrite socket_fd msg)) (\<lambda>_.
     client_loop rounds socket_fd (Some msg) input))"

text \<open>
  \<^verbatim>\<open>main\<close>: the exit status, or \<^const>\<open>None\<close> when it is still in its loop; \<open>errmsg\<close> is the text
  that \<^verbatim>\<open>perror\<close> adds. \<^verbatim>\<open>htons(atoi(argv[2]))\<close> keeps 16 bits.
\<close>

definition client_main ::
  "string list \<Rightarrow> int \<Rightarrow> int \<Rightarrow> string \<Rightarrow> string \<Rightarrow> nat \<Rightarrow> (world, int option) prog" where
  "client_main argv socket_fd connected errmsg input rounds =
     (if length argv < 3 then
        andthenM (emit (Stdout (''Usage: ./client <server_ip> <server_port>'' @ [LF]))) (\<lambda>_. return (Some 1))
      else
        let server_port = word_of_int (strtol (argv ! 2)); server_ip = argv ! 1 in
        if socket_fd = - 1 then
          andthenM (emit (Stderr (''Failed to create socket: '' @ errmsg @ [LF]))) (\<lambda>_. return (Some 1))
        else
          andthenM (emit (SockConnect socket_fd server_port server_ip)) (\<lambda>_.
          if connected = - 1 then
            andthenM (emit (Stderr (''Connection failed: '' @ errmsg @ [LF]))) (\<lambda>_. return (Some 1))
          else
            andthenM (emit (Stdout ''Enter your username: '')) (\<lambda>_.
            andthenM (read_line MAX_NAME_LENGTH None input) (\<lambda>(username, input).
            andthenM (rename_user socket_fd username) (\<lambda>_.
            andthenM (client_loop rounds socket_fd None input) (\<lambda>_.
            return None))))))"

text \<open>
  The receiving thread over what the calls of \<^verbatim>\<open>recv\<close> deliver (\<^const>\<open>None\<close> for an error): the
  exit status of the process, or \<^const>\<open>None\<close> while it waits for more.
\<close>

fun receive_message :: "string option list \<Rightarrow> (world, int option) prog" where
  "receive_message [] = return None"
| "receive_message (input # inputs) =
     (let bytes = (case input of None \<Rightarrow> [] | Some b \<Rightarrow> take MAX_MESSAGE_SIZE b) in
      if bytes = [] then
        andthenM (emit (Stdout (''Connection closed.'' @ [LF]))) (\<lambda>_. return (Some 0))
      else if MAX_MESSAGE_SIZE \<le> length bytes then fault OutOfBounds
      else
        andthenM (emit (Stdout (takeWhile (\<lambda>c. c \<noteq> NUL) bytes @ [LF]))) (\<lambda>_.
        receive_message inputs))"

section \<open>Lines\<close>

text \<open>A line that is typed: not empty, without line feed and zero byte.\<close>

definition line_ok :: "nat \<Rightarrow> string \<Rightarrow> bool" where
  "line_ok n l \<longleftrightarrow> l \<noteq> [] \<and> LF \<notin> set l \<and> NUL \<notin> set l \<and> length l \<le> n"

lemma cut_line_end:
  assumes "l \<noteq> []" "LF \<notin> set l"
  shows "cut_line (l @ [LF]) = l" "cut_line l = l"
proof -
  obtain c cs where l: "l = c # cs" "c \<noteq> LF" "\<forall>x \<in> set cs. x \<noteq> LF" using assms by (cases l) auto
  then show "cut_line (l @ [LF]) = l" "cut_line l = l"
    using takeWhile_append_stop [of cs "\<lambda>x. x \<noteq> LF" LF "[]"] takeWhile_all [of cs "\<lambda>x. x \<noteq> LF"]
    by (simp_all add: cut_line_def)
qed

lemma first_line_run: "LF \<notin> set l \<Longrightarrow> first_line (l @ LF # rest) = l @ [LF]"
proof -
  assume "LF \<notin> set l"
  then have "\<forall>x \<in> set l. x \<noteq> LF" by auto
  then show ?thesis
    using takeWhile_append_stop [of l "\<lambda>x. x \<noteq> LF" LF rest] by (simp add: first_line_def dropWhile_append2)
qed

lemma read_line_run:
  assumes "line_ok n l"
  shows "read_line (n + 2) buffer (l @ LF # rest) w = Inr ((l, rest), w)"
proof -
  have l: "l \<noteq> []" "LF \<notin> set l" "\<forall>c \<in> set (l @ [LF]). c \<noteq> NUL" "length l \<le> n"
    using assms by (auto simp: line_ok_def)
  have "fgets (n + 2) (l @ LF # rest) = (Some (l @ [LF]), rest)"
    using l(4) by (simp add: fgets_def first_line_run [OF l(2)] Let_def)
  moreover have "takeWhile (\<lambda>c. c \<noteq> NUL) (l @ [LF]) = l @ [LF]" by (rule takeWhile_all [OF l(3)])
  ultimately show ?thesis using cut_line_end(1) [OF l(1,2)] by (simp add: read_line_def Let_def)
qed

lemma read_line_eof: "read_line n (Some t) [] w = Inr ((cut_line t, []), w)"
  by (simp add: read_line_def fgets_def)

text \<open>The sizes of the two buffers of the client leave room for the line feed and the zero.\<close>

lemma read_sizes: "MAX_MESSAGE_SIZE = 1022 + 2" "MAX_NAME_LENGTH = 48 + 2"
  by (simp_all add: MAX_MESSAGE_SIZE_def MAX_NAME_LENGTH_def)

lemma loop_eof:
  "cut_line t = t \<Longrightarrow> client_loop k sock (Some t) [] w =
     Inr ((Some t, []), w\<lparr>events := events w @ map (SockWrite sock) (replicate k t)\<rparr>)"
  by (induction k arbitrary: w) (simp_all add: read_line_eof emit_run)

definition typed :: "string list \<Rightarrow> string" where
  "typed ls = concat (map (\<lambda>l. l @ [LF]) ls)"

lemma loop_lines:
  assumes "\<forall>l \<in> set ls. line_ok 1022 l"
  shows "client_loop (length ls + k) sock buffer (typed ls @ rest) w =
    client_loop k sock (if ls = [] then buffer else Some (last ls)) rest
      (w\<lparr>events := events w @ map (SockWrite sock) ls\<rparr>)"
  using assms
proof (induction ls arbitrary: buffer w)
  case (Cons l ls)
  have "read_line MAX_MESSAGE_SIZE buffer (l @ LF # (typed ls @ rest)) w = Inr ((l, typed ls @ rest), w)"
    unfolding read_sizes(1) by (rule read_line_run) (use Cons.prems in simp)
  then show ?case using Cons by (simp add: typed_def emit_run)
qed (simp add: typed_def)

lemma rename_user_run:
  "length name \<le> 1068 \<Longrightarrow> rename_user sock name w =
     Inr ((), w\<lparr>events := events w @ [SockWrite sock (RENAME @ name)]\<rparr>)"
  by (simp add: rename_user_def MAX_MESSAGE_SIZE_def MAX_NAME_LENGTH_def emit_run RENAME_def)

lemma receive_one:
  "b \<noteq> [] \<Longrightarrow> receive_message [Some b] u =
     (if length b < 1024 then Inr (None, u\<lparr>events := events u @ [Stdout (takeWhile (\<lambda>c. c \<noteq> NUL) b @ [LF])]\<rparr>)
      else Inl OutOfBounds)"
  by (cases "length b < 1024") (simp_all add: MAX_MESSAGE_SIZE_def Let_def emit_run)

section \<open>Properties of the client\<close>

text \<open>
  C19. A session of the chat client: with a user name of at most 48 bytes and lines of at most
  1022 bytes, none empty, the client sends the rename command and then each line as one message,
  in order and without its line feed. At the end of its input it does not stop: every further
  round sends the last line again.
\<close>

theorem client_session:
  assumes "sock \<noteq> - 1" "connected \<noteq> - 1" "line_ok 48 name" "\<forall>l \<in> set ls. line_ok 1022 l" "ls \<noteq> []"
  shows "client_main [prog, ip, port] sock connected errmsg (typed (name # ls)) (length ls + k) w =
    Inr (None, w\<lparr>events := events w @
      [SockConnect sock (word_of_int (strtol port)) ip, Stdout ''Enter your username: '',
       SockWrite sock (''/rename '' @ name)] @ map (SockWrite sock) (ls @ replicate k (last ls))\<rparr>)"
proof -
  have "read_line MAX_NAME_LENGTH None (name @ LF # typed ls) v = Inr ((name, typed ls), v)" for v
    unfolding read_sizes(2) by (rule read_line_run [OF assms(3)])
  moreover have "client_loop (length ls + k) sock None (typed ls) v =
      Inr ((Some (last ls), []), v\<lparr>events := events v @ map (SockWrite sock) (ls @ replicate k (last ls))\<rparr>)" for v
  proof -
    have "last ls \<noteq> []" "LF \<notin> set (last ls)" using assms(4,5) by (auto simp: line_ok_def)
    then show ?thesis
      using loop_lines [OF assms(4), of k sock None "[]" v] loop_eof [OF cut_line_end(2)] assms(5) by simp
  qed
  moreover have "length name \<le> 1068" using assms(3) by (simp add: line_ok_def)
  ultimately show ?thesis
    using assms(1,2) rename_user_run [of name sock]
    by (simp add: client_main_def Let_def typed_def emit_run RENAME_def)
qed

theorem client_session_witness:
  "client_main [''client'', ''127.0.0.1'', ''30001''] 3 0 '''' (typed [''Ann'', ''hello'', ''bye'']) 4 sample_world =
   Inr (None, sample_world\<lparr>events := events sample_world @
     [SockConnect 3 (word_of_int (strtol ''30001'')) ''127.0.0.1'', Stdout ''Enter your username: '',
      SockWrite 3 ''/rename Ann'', SockWrite 3 ''hello'', SockWrite 3 ''bye'', SockWrite 3 ''bye'', SockWrite 3 ''bye'']\<rparr>)"
proof -
  have "line_ok 48 ''Ann''" "\<forall>l \<in> set [''hello'', ''bye'']. line_ok 1022 l"
    by (simp_all add: line_ok_def LF_def NUL_def)
  from client_session [OF _ _ this, of 3 0 "''client''" "''127.0.0.1''" "''30001''" "''''" 2 sample_world]
  show ?thesis by (simp add: eval_nat_numeral)
qed

text \<open>
  C40. The receiving thread of the client prints every message in order, one line each, and ends
  the process with status 0 when the connection is closed; but it writes behind its buffer
  exactly when one call of \<^verbatim>\<open>recv\<close> fills the buffer, that is when 1024 bytes or more are
  pending before the connection is closed.
\<close>

theorem receive_message_behaviour:
  "receive_message inputs w =
    (let open_part = takeWhile (\<lambda>i. i \<noteq> None \<and> i \<noteq> Some []) inputs in
     if list_ex (\<lambda>i. 1024 \<le> length (the i)) open_part then Inl OutOfBounds
     else if open_part = inputs
     then Inr (None, w\<lparr>events := events w @
       map (\<lambda>i. Stdout (takeWhile (\<lambda>c. c \<noteq> NUL) (the i) @ [LF])) open_part\<rparr>)
     else Inr (Some 0, w\<lparr>events := events w @
       map (\<lambda>i. Stdout (takeWhile (\<lambda>c. c \<noteq> NUL) (the i) @ [LF])) open_part @
       [Stdout (''Connection closed.'' @ [LF])]\<rparr>))"
proof (induction inputs arbitrary: w)
  case (Cons i inputs)
  show ?case
  proof (cases "i = None \<or> i = Some []")
    case True
    then show ?thesis by (auto simp: emit_run Let_def)
  next
    case False
    then obtain b where b: "i = Some b" "b \<noteq> []" by auto
    show ?thesis
    proof (cases "1024 \<le> length b")
      case True
      then show ?thesis using b by (simp add: MAX_MESSAGE_SIZE_def Let_def)
    next
      case False
      then show ?thesis using b Cons by (simp add: MAX_MESSAGE_SIZE_def Let_def emit_run) auto
    qed
  qed
qed simp

end
