(* ===== verification/MainProgram.thy ===== *)
theory MainProgram
  imports HttpServer ChatRoom ChatClient
begin

text \<open>
  The program of \<^verbatim>\<open>src/main.c\<close>: the handlers it registers, the replies of the site they
  make up, and the start and clean-up of the process.
\<close>

section \<open>The handlers of the site\<close>

definition site_middlewares :: "ptr \<Rightarrow> ptr \<Rightarrow> ptr \<Rightarrow> ServerMiddleware list" where
  "site_middlewares n1 n2 n3 =
     [\<lparr>mw_name = n1, mw_handler = middleware_logger_handler\<rparr>,
      \<lparr>mw_name = n2, mw_handler = middleware_homepage_handler\<rparr>,
      \<lparr>mw_name = n3, mw_handler = middleware_404_handler\<rparr>]"

interpretation site: middleware_chain "site_middlewares n1 n2 n3" for n1 n2 n3
proof (rule middleware_chain.intro)
  fix m
  assume "m \<in> set (site_middlewares n1 n2 n3)"
  then show "middleware_contract (mw_handler m)"
    using logger.middleware_contract_axioms homepage.middleware_contract_axioms
      not_found.middleware_contract_axioms
    by (auto simp: site_middlewares_def)
qed

text \<open>The reply of the site: the home page for the root, else the error page.\<close>

definition site_reply :: "string \<Rightarrow> tm \<Rightarrow> string" where
  "site_reply p t =
     (if p = ''/'' then
        response_format 200 (''content-type: text/html; charset=utf-8'' @ CRLF) (HTML @ asctime t)
      else response_format 404 (''content-type: text/plain'' @ CRLF) NOT_FOUND_TEXT)"

lemma lower_content_type: "lower ''Content-Type'' = ''content-type''"
  by code_simp

lemma answer_text:
  assumes "response_ok h rs" "fresh_response h rs"
  shows "response_text (answer_heap h rs ''Content-Type'' v k body) (answered h rs status k) =
    response_format status (''content-type: '' @ v @ CRLF) body"
proof -
  have "rs_body rs = NULL" "headers_view h (rs_headers rs) = []"
    using assms(2) by (simp_all add: fresh_response_def)
  then show ?thesis
    using answer_ok(3,4) [OF assms(1), where status = status and k = k and n = "''Content-Type''"
        and v = v and body = body] answer_ok(5) [OF assms(1), of status k]
    by (simp add: response_text_def lower_content_type field_line_def)
qed

lemma site_run:
  assumes "exchange_ok (hp w) rq rs" "fresh_response (hp w) rs" "str_at (hp w) (rq_path rq) = Some p"
    "str_at (hp w) n1 \<noteq> None" "str_at (hp w) n2 \<noteq> None" "str_at (hp w) n3 \<noteq> None"
  shows "\<exists>rs2 w2. run_middlewares debug (site_middlewares n1 n2 n3) rq rs w = Inr (rs2, w2) \<and>
    response_text (hp w2) rs2 = site_reply p (clock w (ticks w + 1))"
proof -
  have ok: "request_ok (hp w) rq" "response_ok (hp w) rs" using assms(1) by (simp_all add: exchange_ok_def)
  have stream: "rs_body_stream rs = None" using assms(2) by (simp add: fresh_response_def)
  obtain s1 s2 s3 where names: "str_at (hp w) n1 = Some s1" "str_at (hp w) n2 = Some s2"
      "str_at (hp w) n3 = Some s3" using assms(4-6) by auto
  let ?m1 = "\<lparr>mw_name = n1, mw_handler = middleware_logger_handler\<rparr>"
  let ?m2 = "\<lparr>mw_name = n2, mw_handler = middleware_homepage_handler\<rparr>"
  let ?m3 = "\<lparr>mw_name = n3, mw_handler = middleware_404_handler\<rparr>"
  obtain w1 where w1: "hp w1 = hp w" "clock w1 = clock w" "ticks w1 = ticks w + 1"
      "run_middlewares debug [?m1, ?m2, ?m3] rq rs w = run_middlewares debug [?m2, ?m3] rq rs w1"
  proof -
    let ?v = "w\<lparr>events := events w @ (if debug then [Stderr (''Middleware: '' @ s1 @ [LF])] else [])\<rparr>"
    obtain v' where v': "middleware_logger_handler rq rs ?v = Inr ((True, rs), v')" "hp v' = hp w"
        "clock v' = clock w" "ticks v' = ticks w + 1"
      using logger_run [of ?v rq rs] ok(1) by simp
    obtain es where "run_middlewares debug [?m1, ?m2, ?m3] rq rs w =
        run_middlewares debug [?m2, ?m3] rq rs (v'\<lparr>events := events v' @ es\<rparr>)"
      using run_Cons [of w ?m1 s1 rq rs debug True rs v' "[?m2, ?m3]"] names(1) v'(1) stream by auto
    then show thesis using that [of "v'\<lparr>events := events v' @ es\<rparr>"] v' by simp
  qed
  let ?v = "w1\<lparr>events := events w1 @ (if debug then [Stderr (''Middleware: '' @ s2 @ [LF])] else [])\<rparr>"
  show ?thesis
  proof (cases "p = ''/''")
    case True
    obtain v' where v': "middleware_homepage_handler rq rs ?v = Inr ((False, answered (hp w) rs 200 1), v')"
        "hp v' = answer_heap (hp w) rs ''Content-Type'' ''text/html; charset=utf-8'' 1
           (HTML @ asctime (clock w (ticks w + 1)))"
      using homepage_run [of ?v rq rs] ok assms(3) True w1 by simp
    obtain es where "run_middlewares debug [?m2, ?m3] rq rs w1 =
        Inr (answered (hp w) rs 200 1, v'\<lparr>events := events v' @ es\<rparr>)"
      using run_Cons [of w1 ?m2 s2 rq rs debug False "answered (hp w) rs 200 1" v' "[?m3]"]
        names(2) v'(1) stream w1(1) by (auto simp: answered_def)
    then show ?thesis
      using w1(4) v'(2) answer_text [OF ok(2) assms(2)] True
      by (simp add: site_middlewares_def site_reply_def)
  next
    case False
    have "middleware_homepage_handler rq rs ?v = Inr ((True, rs), ?v)"
      using homepage_pass [of ?v rq p rs] assms(3) False w1(1) by simp
    then obtain es where 2: "run_middlewares debug [?m2, ?m3] rq rs w1 =
        run_middlewares debug [?m3] rq rs (?v\<lparr>events := events ?v @ es\<rparr>)"
      using run_Cons [of w1 ?m2 s2 rq rs debug True rs ?v "[?m3]"] names(2) stream w1(1) by auto
    let ?u = "?v\<lparr>events := events ?v @ es\<rparr>"
    let ?x = "?u\<lparr>events := events ?u @ (if debug then [Stderr (''Middleware: '' @ s3 @ [LF])] else [])\<rparr>"
    obtain v' where v': "middleware_404_handler rq rs ?x = Inr ((False, answered (hp w) rs 404 0), v')"
        "hp v' = answer_heap (hp w) rs ''Content-Type'' ''text/plain'' 0 NOT_FOUND_TEXT"
      using not_found_run [of ?x rs rq] ok(2) w1(1) by simp
    obtain es' where "run_middlewares debug [?m3] rq rs ?u =
        Inr (answered (hp w) rs 404 0, v'\<lparr>events := events v' @ es'\<rparr>)"
      using run_Cons [of ?u ?m3 s3 rq rs debug False "answered (hp w) rs 404 0" v' "[]"]
        names(3) v'(1) stream w1(1) by (auto simp: answered_def)
    then show ?thesis
      using w1(4) 2 v'(2) answer_text [OF ok(2) assms(2)] False
      by (simp add: site_middlewares_def site_reply_def)
  qed
qed

lemma site_replies:
  "replies debug (site_middlewares n1 n2 n3) p w (\<lambda>r. r = site_reply p (clock w (ticks w + 1)))"
  unfolding replies_def
proof (intro allI impI)
  fix rq rs w1 rs2 w2
  assume a: "exchange_ok (hp w1) rq rs \<and> fresh_response (hp w1) rs \<and>
        str_at (hp w1) (rq_path rq) = Some p \<and> clock w1 = clock w \<and> ticks w1 = ticks w \<and>
        (\<forall>m \<in> set (site_middlewares n1 n2 n3). outside (hp w1) rs (mw_name m)) \<and>
        run_middlewares debug (site_middlewares n1 n2 n3) rq rs w1 = Inr (rs2, w2)"
  then have "str_at (hp w1) n1 \<noteq> None" "str_at (hp w1) n2 \<noteq> None" "str_at (hp w1) n3 \<noteq> None"
    by (auto simp: site_middlewares_def outside_def)
  with a site_run [of w1 rq rs p n1 n2 n3 debug]
  show "response_text (hp w2) rs2 = site_reply p (clock w (ticks w + 1))" by auto
qed

lemma render_buffer:
  assumes "int (length t) < cfg_buffer_size config" "cfg_buffer_size config < 2 ^ 31"
  shows "received config (Some t) = t"
    "\<exists>zs. request_buffer config t = t @ NUL # zs"
proof -
  have "(cfg_buffer_size config - 1) mod 2 ^ 64 = cfg_buffer_size config - 1"
    using assms by (intro mod_pos_pos_trivial) auto
  then have "length t \<le> read_limit config" using assms(1) by (simp add: read_limit_def)
  then show "received config (Some t) = t" by (simp add: received_def)
  have "0 < nat (cfg_buffer_size config) - length t" using assms(1) by simp
  then obtain k where "nat (cfg_buffer_size config) - length t = Suc k" using gr0_conv_Suc by blast
  then show "\<exists>zs. request_buffer config t = t @ NUL # zs" by (simp add: request_buffer_def)
qed

text \<open>A well-formed request as the bytes a client sends.\<close>

definition request_ok_text :: "string \<Rightarrow> string \<Rightarrow> string \<Rightarrow> (string \<times> string) list \<Rightarrow> string \<Rightarrow> bool" where
  "request_ok_text m p v hs body \<longleftrightarrow>
     word_ok m \<and> word_ok p \<and> word_ok v \<and> hs \<noteq> [] \<and> (\<forall>h \<in> set hs. header_ok h) \<and> NUL \<notin> set body"

lemma site_handles:
  assumes "ha_self arg = Addr a" "a < length (hp w)" "hp w ! a = Some Struct"
    "mws_list (cfg_middlewares (ha_config arg)) = site_middlewares n1 n2 n3"
    "str_at (hp w) n1 \<noteq> None" "str_at (hp w) n2 \<noteq> None" "str_at (hp w) n3 \<noteq> None"
    "\<forall>i. tm_ok (clock w i)" "request_ok_text m p v hs body"
    "int (length (render_request m p v hs body)) < cfg_buffer_size (ha_config arg)"
    "cfg_buffer_size (ha_config arg) < 2 ^ 31"
  shows "\<exists>w'. handle_client True (Some (render_request m p v hs body)) ok arg w = Inr ((), w') \<and>
    answers arg w w' (site_reply p (clock w (ticks w + 1)))"
proof -
  let ?t = "render_request m p v hs body" and ?cfg = "ha_config arg"
  obtain zs where zs: "request_buffer ?cfg ?t = ?t @ NUL # zs" using render_buffer(2) [OF assms(10,11)] by blast
  have ne: "?t \<noteq> []" by (simp add: render_request_def CRLF_def)
  have parse: "\<exists>rq h. request_parse (request_buffer ?cfg ?t) u = Inr (rq, u\<lparr>hp := h\<rparr>) \<and>
       request_ok h rq \<and> transfer (hp u) [] h (request_ptrs rq) \<and> str_at h (rq_path rq) = Some p" for u
    using request_parse_ok [of m p v hs body zs u] assms(9) unfolding zs request_ok_text_def by blast
  have names: "\<forall>k \<in> set (site_middlewares n1 n2 n3). str_at (hp w) (mw_name k) \<noteq> None"
    using assms(5-7) by (simp add: site_middlewares_def)
  have len: "length (site_middlewares n1 n2 n3) \<le> 200" by (simp add: site_middlewares_def)
  have "int (length ?t) \<le> cfg_buffer_size ?cfg" using assms(10) by simp
  from site.handle_ok [OF assms(1-4,8) names len render_buffer(1) [OF assms(10,11)] ne this parse site_replies, of ok]
  show ?thesis by blast
qed

section \<open>Start and clean-up of the HTTP server\<close>

text \<open>The configuration that \<^verbatim>\<open>main\<close> builds, with \<open>debug\<close> for \<^verbatim>\<open>getenv("DEBUG") != NULL\<close>.\<close>

definition main_config :: "bool \<Rightarrow> (world, ServerConfig) prog" where
  "main_config debug =
     andthenM (server_config_create True) (\<lambda>config.
     andthenM (server_middlewares_add (cfg_middlewares config) (Lit ''Logger'') middleware_logger_handler) (\<lambda>mws.
     andthenM (server_middlewares_add mws (Lit ''Home Page'') middleware_homepage_handler) (\<lambda>mws.
     andthenM (server_middlewares_add mws (Lit ''404'') middleware_404_handler) (\<lambda>mws.
     return (config\<lparr>cfg_middlewares := mws, cfg_debug := debug\<rparr>)))))"

text \<open>The part of \<^verbatim>\<open>cleanup\<close> that releases the configuration.\<close>

definition release_config :: "ServerConfig \<Rightarrow> (world, unit) prog" where
  "release_config config =
     andthenM (server_middlewares_destroy (cfg_middlewares config)) (\<lambda>_. free (cfg_self config))"

definition config_heap :: "heap \<Rightarrow> heap" where
  "config_heap h = h @ [Some Struct, Some Struct, None, Some (Bytes ''Logger''), None,
     Some (Bytes ''Home Page''), Some Struct, Some (Bytes ''404'')]"

definition config_of :: "nat \<Rightarrow> bool \<Rightarrow> ServerConfig" where
  "config_of l debug = \<lparr>cfg_self = Addr l, cfg_address = ''0.0.0.0'', cfg_port = 8080,
     cfg_client_limit = 4095, cfg_worker_limit = 4, cfg_buffer_size = 1048576,
     cfg_middlewares = \<lparr>mws_self = Addr (l + 1), mws_array = Addr (l + 6),
       mws_list = site_middlewares (Addr (l + 3)) (Addr (l + 5)) (Addr (l + 7))\<rparr>,
     cfg_debug = debug\<rparr>"

lemma main_config_run:
  "main_config debug w = Inr (config_of (length (hp w)) debug, w\<lparr>hp := config_heap (hp w)\<rparr>)"
proof -
  let ?h = "hp w" and ?l = "length (hp w)"
  let ?m0 = "\<lparr>mws_self = Addr (?l + 1), mws_array = NULL, mws_list = []\<rparr>"
  let ?h1 = "?h @ [Some Struct, Some Struct, Some Struct, Some (Bytes ''Logger'')]"
  let ?h2 = "?h @ [Some Struct, Some Struct, None, Some (Bytes ''Logger''), Some Struct,
      Some (Bytes ''Home Page'')]"
  let ?m1 = "\<lparr>mws_self = Addr (?l + 1), mws_array = Addr (?l + 2),
      mws_list = [\<lparr>mw_name = Addr (?l + 3), mw_handler = middleware_logger_handler\<rparr>]\<rparr>"
  let ?m2 = "\<lparr>mws_self = Addr (?l + 1), mws_array = Addr (?l + 4),
      mws_list = [\<lparr>mw_name = Addr (?l + 3), mw_handler = middleware_logger_handler\<rparr>,
        \<lparr>mw_name = Addr (?l + 5), mw_handler = middleware_homepage_handler\<rparr>]\<rparr>"
  have 1: "server_middlewares_add ?m0 (Lit ''Logger'') middleware_logger_handler
      (w\<lparr>hp := ?h @ [Some Struct, Some Struct]\<rparr>) = Inr (?m1, w\<lparr>hp := ?h1\<rparr>)"
    by (subst add_run [where w' = "w\<lparr>hp := ?h @ [Some Struct, Some Struct]\<rparr>"])
      (simp_all add: owned_def)
  have 2: "server_middlewares_add ?m1 (Lit ''Home Page'') middleware_homepage_handler
      (w\<lparr>hp := ?h1\<rparr>) = Inr (?m2, w\<lparr>hp := ?h2\<rparr>)"
    by (subst add_run [where w' = "w\<lparr>hp := ?h @ [Some Struct, Some Struct, None, Some (Bytes ''Logger'')]\<rparr>"])
      (simp_all add: owned_def live_def nth_append list_update_append)
  have 3: "server_middlewares_add ?m2 (Lit ''404'') middleware_404_handler (w\<lparr>hp := ?h2\<rparr>) =
      Inr (cfg_middlewares (config_of ?l debug), w\<lparr>hp := config_heap ?h\<rparr>)"
    by (subst add_run [where w' = "w\<lparr>hp := ?h @ [Some Struct, Some Struct, None, Some (Bytes ''Logger''), None,
      Some (Bytes ''Home Page'')]\<rparr>"])
      (simp_all add: owned_def live_def nth_append list_update_append config_of_def config_heap_def
        site_middlewares_def)
  show ?thesis
    using 1 2 3
    by (simp add: main_config_def server_config_create_def server_middlewares_create_def andthenM_run
        malloc_run config_of_def)
qed

definition config_ptrs :: "nat \<Rightarrow> ptr list" where
  "config_ptrs l = [Addr (l + 3), Addr (l + 5), Addr (l + 7), Addr (l + 6), Addr (l + 1), Addr l]"

lemma release_config_free_all: "release_config (config_of l debug) = free_all (config_ptrs l)"
  by (simp add: release_config_def server_middlewares_destroy_def config_of_def config_ptrs_def
      site_middlewares_def andthenM_assoc)

lemma config_live: "live (config_heap h) = live h \<union> {length h, length h + 1, length h + 3, length h + 5,
    length h + 6, length h + 7}"
proof -
  have "config_heap h = (((((((h @ [Some Struct]) @ [Some Struct]) @ [None]) @ [Some (Bytes ''Logger'')])
      @ [None]) @ [Some (Bytes ''Home Page'')]) @ [Some Struct]) @ [Some (Bytes ''404'')]"
    by (simp add: config_heap_def)
  then show ?thesis by (simp only: live_snoc live_snoc_None) auto
qed

lemma config_transfer: "transfer h [] (config_heap h) (config_ptrs (length h))"
proof -
  have new: "a \<notin> live h" if "length h \<le> a" for a using that by (auto dest: live_less)
  have old: "config_heap h ! a = h ! a" if "a \<in> live h" for a
    using live_less [OF that] by (simp add: config_heap_def nth_append)
  have len: "length h \<le> length (config_heap h)" by (simp add: config_heap_def)
  show ?thesis using new old len by (auto simp: transfer_def config_live config_ptrs_def)
qed

lemma config_owned: "owned (config_heap h) (config_ptrs (length h))"
  by (auto simp: owned_def config_live config_ptrs_def)

lemma config_names:
  "str_at (config_heap h) (Addr (length h + 3)) = Some ''Logger''"
  "str_at (config_heap h) (Addr (length h + 5)) = Some ''Home Page''"
  "str_at (config_heap h) (Addr (length h + 7)) = Some ''404''"
  by (simp_all add: config_heap_def nth_append)

text \<open>From the start of the site over one client to its clean-up.\<close>

lemma session_run:
  assumes "\<forall>i. tm_ok (clock w i)" "request_ok_text m p v hs body"
    "length (render_request m p v hs body) < 1048576"
  shows "\<exists>config w1 w2 w3. main_config debug w = Inr (config, w1) \<and>
    handle_client True (Some (render_request m p v hs body)) ok
      \<lparr>ha_self = Addr (length (hp w1)), ha_config = config, ha_client_sockfd = sock\<rparr>
      (w1\<lparr>hp := hp w1 @ [Some Struct]\<rparr>) = Inr ((), w2) \<and>
    sock_events (events w2) = sock_events (events w) @
      [SockWrite sock (site_reply p (clock w (ticks w + 1))), SockClose sock] \<and>
    release_config config w2 = Inr ((), w3) \<and> transfer (hp w) [] (hp w3) []"
proof -
  let ?h = "config_heap (hp w)" and ?l = "length (hp w)"
  let ?w1 = "w\<lparr>hp := ?h\<rparr>" and ?w1a = "w\<lparr>hp := ?h @ [Some Struct]\<rparr>"
  let ?cfg = "config_of ?l debug"
  let ?arg = "\<lparr>ha_self = Addr (length ?h), ha_config = ?cfg, ha_client_sockfd = sock\<rparr>"
  have names: "str_at (hp ?w1a) (Addr (?l + 3)) \<noteq> None" "str_at (hp ?w1a) (Addr (?l + 5)) \<noteq> None"
      "str_at (hp ?w1a) (Addr (?l + 7)) \<noteq> None"
    using config_names [of "hp w"] by (simp_all add: nth_append)
  obtain w2 where w2: "handle_client True (Some (render_request m p v hs body)) ok ?arg ?w1a = Inr ((), w2)"
      "answers ?arg ?w1a w2 (site_reply p (clock w (ticks w + 1)))"
    using site_handles [of ?arg "length ?h" ?w1a, OF _ _ _ _ names _ assms(2), of ok] assms(1,3)
    by (auto simp: config_of_def)
  have t1: "transfer ?h [] (hp w2) []"
    using transfer_trans [OF transfer_malloc [of ?h Struct]] w2(2) by (simp add: answers_def)
  have "transfer ?h (config_ptrs ?l) (hp w2) (config_ptrs ?l)"
    using transfer_frame [OF t1, of "config_ptrs ?l"] ownedD [OF config_owned [of "hp w"]] by auto
  moreover have own: "owned (hp w2) (config_ptrs ?l)"
    using owned_frame [OF t1, of "config_ptrs ?l"] config_owned [of "hp w"] by (simp add: owned_def [of _ "[]"])
  ultimately have "transfer ?h (config_ptrs ?l) (frees (addrs (config_ptrs ?l)) (hp w2)) []"
    using transfer_trans transfer_frees by blast
  then have "transfer (hp w) [] (frees (addrs (config_ptrs ?l)) (hp w2)) []"
    by (rule transfer_trans [OF config_transfer])
  moreover have "release_config ?cfg w2 = Inr ((), w2\<lparr>hp := frees (addrs (config_ptrs ?l)) (hp w2)\<rparr>)"
    using free_all_owned [OF own] by (simp add: release_config_free_all)
  ultimately show ?thesis
    using w2 main_config_run [of debug w]
    by (intro exI [of _ ?cfg] exI [of _ ?w1] exI [of _ w2]
        exI [of _ "w2\<lparr>hp := frees (addrs (config_ptrs ?l)) (hp w2)\<rparr>"])
      (simp add: answers_def)
qed



section \<open>What a browser reads\<close>


section \<open>The whole process\<close>

text \<open>The global variables of \<^verbatim>\<open>src/main.c\<close>.\<close>

record globals =
  g_config :: "ServerConfig option"
  g_server :: "Server option"
  g_chat_server :: "ChatServer option"

text \<open>
  \<^verbatim>\<open>main\<close> up to the connections that \<^verbatim>\<open>server_start\<close> has accepted so far. The results of
  \<^verbatim>\<open>socket\<close>, \<^verbatim>\<open>bind\<close>, \<^verbatim>\<open>listen\<close> and \<^verbatim>\<open>accept\<close> are arguments; the signal handlers it
  installs lead to \<open>cleanup\<close> below.
\<close>

definition main_program ::
  "(string \<Rightarrow> string option) \<Rightarrow> int \<Rightarrow> int \<Rightarrow> int \<Rightarrow> int \<Rightarrow> int \<Rightarrow> int list \<Rightarrow> (world, globals) prog" where
  "main_program getenv chat_sock chat_listening sock bound listening clients =
     (let chat_config = parse_chat_config_from_env getenv default_chat_config in
      andthenM (malloc Struct) (\<lambda>self.
      let chat = init_chat_server self chat_sock chat_config in
      andthenM (start_chat_server chat_listening chat) (\<lambda>ret.
      if ret \<noteq> 0 then fail ''Failed to start chat server.''
      else
        andthenM (emit (Stdout (''Chat server started on port '' @
          show_nat (unat (server_port chat_config)) @ [LF]))) (\<lambda>_.
        andthenM (main_config (getenv ''DEBUG'' \<noteq> None)) (\<lambda>config.
        andthenM (server_create True sock bound config) (\<lambda>server.
        andthenM (server_start listening clients server) (\<lambda>server.
        return \<lparr>g_config = Some config, g_server = Some server, g_chat_server = Some chat\<rparr>)))))))"

text \<open>
  \<^verbatim>\<open>cleanup\<close>: the exit status and the stopped server, whose pool tells which tasks ran. The
  first test and the two after it are separate because \<^verbatim>\<open>server_stop\<close> waits for the workers.
\<close>

definition cleanup_rest :: "globals \<Rightarrow> (world, int) prog" where
  "cleanup_rest g =
     andthenM (case g_config g of None \<Rightarrow> return () | Some config \<Rightarrow> release_config config) (\<lambda>_.
     andthenM (case g_chat_server g of None \<Rightarrow> return () | Some chat \<Rightarrow> destroy_chat_server chat) (\<lambda>_.
     return 0))"

inductive cleanup :: "int \<Rightarrow> globals \<Rightarrow> world \<Rightarrow> ((int \<times> Server option) \<times> world) res \<Rightarrow> bool" where
  without_server:
    "g_server g = None \<Longrightarrow>
     cleanup down g w (andthenM (cleanup_rest g) (\<lambda>st. return (st, None)) w)"
| with_server:
    "g_server g = Some server \<Longrightarrow> server_stop down server w r \<Longrightarrow>
     cleanup down g w
       (andthen r (\<lambda>(server', w1).
          andthenM (server_destroy server') (\<lambda>_.
          andthenM (cleanup_rest g) (\<lambda>st. return (st, Some server'))) w1))"



text \<open>The calls of the worker function one after the other, with what each client sends.\<close>

fun serve :: "(int \<Rightarrow> string) \<Rightarrow> HandlerArg list \<Rightarrow> (world, unit) prog" where
  "serve req [] = return ()"
| "serve req (arg # args) =
     andthenM (handle_client True (Some (req (ha_client_sockfd arg))) True arg) (\<lambda>_. serve req args)"

definition valid_request :: "string \<Rightarrow> string \<Rightarrow> bool" where
  "valid_request t p \<longleftrightarrow>
     (\<exists>m v hs body. t = render_request m p v hs body \<and> request_ok_text m p v hs body \<and> length t < 1048576)"

text \<open>One reply of the site and one closing per client, in order.\<close>

fun visits :: "(int \<Rightarrow> string) \<Rightarrow> HandlerArg list \<Rightarrow> event list \<Rightarrow> bool" where
  "visits path [] es \<longleftrightarrow> es = []"
| "visits path (arg # args) es \<longleftrightarrow>
     (\<exists>t es'. es = SockWrite (ha_client_sockfd arg) (site_reply (path (ha_client_sockfd arg)) t) #
        SockClose (ha_client_sockfd arg) # es' \<and> visits path args es')"

subsection \<open>Serving the queued clients\<close>

lemma serve_ok:
  assumes "\<forall>arg \<in> set args. arg_block (hp w) arg \<and> ha_config arg = config_of l debug \<and>
      valid_request (req (ha_client_sockfd arg)) (path (ha_client_sockfd arg))"
    "owned (hp w) (map ha_self args)" "\<forall>i. tm_ok (clock w i)"
    "\<forall>n \<in> {l + 3, l + 5, l + 7}. str_at (hp w) (Addr n) \<noteq> None"
  shows "\<exists>w' es. serve req args w = Inr ((), w') \<and> transfer (hp w) (map ha_self args) (hp w') [] \<and>
    sock_events (events w') = sock_events (events w) @ es \<and> visits path args es"
  using assms
proof (induction args arbitrary: w)
  case Nil
  then show ?case by simp
next
  case (Cons arg args)
  let ?k = "ha_client_sockfd arg"
  obtain a where a: "ha_self arg = Addr a" "a < length (hp w)" "hp w ! a = Some Struct"
    using Cons.prems(1) by (auto simp: arg_block_def)
  obtain m v hs body where rq: "req ?k = render_request m (path ?k) v hs body"
      "request_ok_text m (path ?k) v hs body" "length (render_request m (path ?k) v hs body) < 1048576"
    using Cons.prems(1) by (auto simp: valid_request_def)
  have cfg: "ha_config arg = config_of l debug" using Cons.prems(1) by simp
  obtain w1 where w1: "handle_client True (Some (req ?k)) True arg w = Inr ((), w1)"
      "answers arg w w1 (site_reply (path ?k) (clock w (ticks w + 1)))"
    using site_handles [OF a, of "Addr (l + 3)" "Addr (l + 5)" "Addr (l + 7)" m "path ?k" v hs body True]
      Cons.prems(3,4) rq cfg by (auto simp: config_of_def)
  have t: "transfer (hp w) [ha_self arg] (hp w1) []" and clk: "clock w1 = clock w"
      and ev: "sock_events (events w1) = sock_events (events w) @
        [SockWrite ?k (site_reply (path ?k) (clock w (ticks w + 1))), SockClose ?k]"
    using w1(2) by (simp_all add: answers_def)
  have own: "owned (hp w) ([ha_self arg] @ map ha_self args)" using Cons.prems(2) by simp
  have "owned (hp w1) ([] @ map ha_self args)" by (rule owned_frame [OF t own]) (simp add: owned_def)
  moreover have "arg_block (hp w1) b" if b: "b \<in> set args" for b
  proof (rule arg_block_keeps [OF t])
    show blk: "arg_block (hp w) b" using Cons.prems(1) b by simp
    then obtain c where c: "ha_self b = Addr c" by (auto simp: arg_block_def)
    then have "Addr c \<in> set (map ha_self args)" using b by force
    from owned_apart [OF own this] c show "ha_self b \<notin> set [ha_self arg]" by simp
  qed
  moreover have "str_at (hp w1) (Addr n) \<noteq> None" if n: "n \<in> {l + 3, l + 5, l + 7}" for n
  proof -
    obtain s where s: "str_at (hp w) (Addr n) = Some s" using Cons.prems(4) n by auto
    then have "Addr n \<notin> set [ha_self arg]" using a by auto
    from transfer_str_at [OF t s this] show ?thesis by simp
  qed
  ultimately obtain w' es where r: "serve req args w1 = Inr ((), w')"
      "transfer (hp w1) (map ha_self args) (hp w') []"
      "sock_events (events w') = sock_events (events w1) @ es" "visits path args es"
    using Cons.IH [of w1] Cons.prems(1,3) clk by auto
  have "transfer (hp w) ([ha_self arg] @ map ha_self args) (hp w1) ([] @ map ha_self args)"
    by (rule transfer_frame [OF t owned_apart [OF own]])
  then have "transfer (hp w) (map ha_self (arg # args)) (hp w') []" using transfer_trans r(2) by simp
  then show ?case using w1(1) r ev by auto
qed

subsection \<open>Start and clean-up\<close>

text \<open>The blocks of the process beside those of the chat server and of queued clients.\<close>

definition process_ptrs :: "nat \<Rightarrow> ptr list" where
  "process_ptrs l = Addr (l + 9) # config_ptrs (l + 1)"

lemma start_heap:
  defines "h' h \<equiv> config_heap (h @ [Some Struct]) @ [Some Struct]"
  shows "transfer h [] (h' h) ([NULL, Addr (length h)] @ process_ptrs (length h))"
    "owned (h' h) ([NULL, Addr (length h)] @ process_ptrs (length h))"
    "\<forall>n \<in> {length h + 1 + 3, length h + 1 + 5, length h + 1 + 7}. str_at (h' h) (Addr n) \<noteq> None"
proof -
  let ?l = "length h" and ?g = "config_heap (h @ [Some Struct])"
  have len: "length ?g = ?l + 9" by (simp add: config_heap_def)
  have live: "live (h' h) = live h \<union> {?l, ?l + 1, ?l + 2, ?l + 4, ?l + 6, ?l + 7, ?l + 8, ?l + 9}"
    unfolding h'_def live_snoc len config_live by auto
  have new: "a \<notin> live h" if "?l \<le> a" for a using that by (auto dest: live_less)
  have old: "h' h ! a = h ! a" if "a \<in> live h" for a
    using live_less [OF that] by (simp add: h'_def config_heap_def nth_append)
  have "length h \<le> length (h' h)" by (simp add: h'_def len)
  then show "transfer h [] (h' h) ([NULL, Addr ?l] @ process_ptrs ?l)"
    using new old by (auto simp: transfer_def live process_ptrs_def config_ptrs_def)
  show "owned (h' h) ([NULL, Addr ?l] @ process_ptrs ?l)"
    by (auto simp: owned_def live process_ptrs_def config_ptrs_def)
  show "\<forall>n \<in> {?l + 1 + 3, ?l + 1 + 5, ?l + 1 + 7}. str_at (h' h) (Addr n) \<noteq> None"
    by (simp add: h'_def config_heap_def nth_append str_at.simps(3))
qed

text \<open>What \<^verbatim>\<open>main\<close> has built when it waits for connections.\<close>

definition started ::
  "bool \<Rightarrow> int list \<Rightarrow> world \<Rightarrow> world \<Rightarrow> Server \<Rightarrow> HandlerArg pool_state \<Rightarrow> HandlerArg list \<Rightarrow> bool" where
  "started debug clients w w' server pl args \<longleftrightarrow>
     (let l = length (hp w); ps = [NULL, Addr l] @ process_ptrs l in
      srv_self server = Addr (l + 9) \<and> srv_pool server = Some pl \<and>
      pool_reachable 4 debug pl \<and> pool_ready pl \<and> tasks pl = args \<and>
      contents (queue_of pl) = map (\<lambda>x. Item (Some x)) args \<and>
      args_ok (config_of (l + 1) debug) clients args \<and> (\<forall>arg \<in> set args. arg_block (hp w') arg) \<and>
      owned (hp w') (map ha_self args @ ps) \<and> transfer (hp w) [] (hp w') (map ha_self args @ ps) \<and>
      clock w' = clock w \<and>
      (\<forall>n \<in> {l + 1 + 3, l + 1 + 5, l + 1 + 7}. str_at (hp w') (Addr n) \<noteq> None))"

lemma main_program_run:
  fixes getenv :: "string \<Rightarrow> string option" and chat_sock sock bound listening :: int
  defines "config \<equiv> parse_chat_config_from_env getenv default_chat_config"
  defines "debug \<equiv> getenv ''DEBUG'' \<noteq> None"
  assumes "0 \<le> sock" "0 \<le> bound" "0 \<le> listening" "length (filter (\<lambda>c. c \<noteq> - 1) clients) \<le> 128"
  shows "\<exists>server pl args w'.
    main_program getenv chat_sock 0 sock bound listening clients w =
      Inr (\<lparr>g_config = Some (config_of (length (hp w) + 1) debug), g_server = Some server,
            g_chat_server = Some (init_chat_server (Addr (length (hp w))) chat_sock config)\<rparr>, w') \<and>
    started debug clients w w' server pl args"
proof -
  let ?l = "length (hp w)" and ?cfg = "config_of (length (hp w) + 1) debug"
  let ?h = "config_heap (hp w @ [Some Struct]) @ [Some Struct]"
  let ?own = "[NULL, Addr ?l] @ process_ptrs ?l"
  define e where "e = events w @ [SockBind chat_sock (server_port config) ''0.0.0.0'', SockListen chat_sock 64,
    Stdout (''Chat server started on port '' @ show_nat (unat (server_port config)) @ [LF]),
    SockBind sock (word_of_int 8080) ''0.0.0.0'']"
  let ?w = "w\<lparr>hp := ?h, events := e\<rparr>"
  let ?srv = "\<lparr>srv_self = Addr (?l + 9), srv_sockfd = sock, srv_config = ?cfg, srv_pool = None\<rparr>"
  obtain w' pl args where s: "server_start listening clients ?srv ?w = Inr (?srv\<lparr>srv_pool := Some pl\<rparr>, w')"
      "pool_reachable 4 debug pl" "pool_ready pl" "args_ok ?cfg clients args"
      "contents (queue_of pl) = map (\<lambda>x. Item (Some x)) args" "transfer ?h [] (hp w') (map ha_self args)"
      "owned (hp w') (map ha_self args)" "\<forall>arg \<in> set args. arg_block (hp w') arg" "clock w' = clock w"
      "tasks pl = args"
    using server_start_run [OF assms(5,6), of ?srv ?w] by (auto simp: config_of_def)
  note h = start_heap [of "hp w"]
  have "transfer ?h ?own (hp w') (map ha_self args @ ?own)"
    using transfer_frame [OF s(6), of ?own] ownedD [OF h(2)] by auto
  from transfer_trans [OF h(1) this] have t: "transfer (hp w) [] (hp w') (map ha_self args @ ?own)" .
  have "owned (hp w') (map ha_self args @ ?own)"
    using owned_frame [OF s(6) _ s(7), of ?own] h(2) by simp
  moreover have "str_at (hp w') (Addr n) \<noteq> None" if n: "n \<in> {?l + 1 + 3, ?l + 1 + 5, ?l + 1 + 7}" for n
  proof -
    obtain x where "str_at ?h (Addr n) = Some x" using h(3) n by blast
    from transfer_str_at [OF s(6) this] show ?thesis by simp
  qed
  moreover have len: "length (config_heap (hp w @ [Some Struct])) = ?l + 9" by (simp add: config_heap_def)
  have "main_program getenv chat_sock 0 sock bound listening clients w =
      Inr (\<lparr>g_config = Some ?cfg, g_server = Some (?srv\<lparr>srv_pool := Some pl\<rparr>),
            g_chat_server = Some (init_chat_server (Addr ?l) chat_sock config)\<rparr>, w')"
    unfolding main_program_def config_def [symmetric] debug_def [symmetric] Let_def
    using s(1) assms(3,4)
    by (simp add: andthenM_run malloc_run start_chat_server_def emit_run main_config_run server_create_def init_chat_server_def
        config_of_def len e_def)
  ultimately show ?thesis
    using s t unfolding started_def Let_def
    by (intro exI [of _ "?srv\<lparr>srv_pool := Some pl\<rparr>"] exI [of _ pl] exI [of _ args] exI [of _ w']) (intro conjI ballI; simp)
qed

lemma owned_after:
  assumes "owned h (ps @ qs)"
  shows "owned (frees (addrs ps) h) qs"
  using owned_frame [OF transfer_frees [OF owned_left [OF assms]] assms] by (simp add: owned_def [of _ "[]"])

text \<open>The memory that \<^verbatim>\<open>cleanup\<close> releases after the workers have finished.\<close>

lemma cleanup_memory:
  assumes "chat_inv (hp w) chat" "owned (hp w) (process_ptrs l @ chat_ptrs chat)" "srv_self server = Addr (l + 9)"
    "g_config g = Some (config_of (l + 1) debug)" "g_chat_server g = Some chat"
  shows "\<exists>w'. andthenM (server_destroy server) (\<lambda>_. andthenM (cleanup_rest g) (\<lambda>st. return (st, Some server))) w =
      Inr ((0, Some server), w') \<and> transfer (hp w) (process_ptrs l @ chat_ptrs chat) (hp w') []"
proof -
  let ?c = "config_ptrs (l + 1)" and ?d = "if cfg_debug (srv_config server) then [Stderr (''Server destroyed.'' @ [LF])] else []"
  have own: "owned (hp w) ([Addr (l + 9)] @ (?c @ chat_ptrs chat))" using assms(2) by (simp add: process_ptrs_def)
  let ?h1 = "frees (addrs [Addr (l + 9)]) (hp w)" and ?h2 = "frees (addrs (process_ptrs l)) (hp w)"
  have h2: "?h2 = frees (addrs ?c) ?h1" by (simp add: process_ptrs_def)
  have own1: "owned ?h1 (?c @ chat_ptrs chat)" by (rule owned_after [OF own])
  have t: "transfer (hp w) (process_ptrs l) ?h2 []" by (rule transfer_frees [OF owned_left [OF assms(2)]])
  have f1: "free (Addr (l + 9)) w = Inr ((), w\<lparr>hp := ?h1\<rparr>)"
    using free_all_owned [OF owned_left [OF own]] by (simp add: andthenM_run)
  let ?w1 = "w\<lparr>hp := ?h1, events := events w @ ?d\<rparr>"
  have d1: "server_destroy server w = Inr ((), ?w1)"
    using f1 assms(3) by (simp add: server_destroy_def andthenM_run)
  have r1: "release_config (config_of (l + 1) debug) ?w1 = Inr ((), ?w1\<lparr>hp := ?h2\<rparr>)"
    using free_all_owned [of ?w1 ?c] owned_left [OF own1] h2 by (simp add: release_config_free_all)
  have "owned ?h2 []" by (simp add: owned_def)
  from chat_inv_apart [OF assms(1) t assms(2) this] have inv: "chat_inv ?h2 chat" .
  then obtain h3 where d3: "destroy_chat_server chat (?w1\<lparr>hp := ?h2\<rparr>) = Inr ((), ?w1\<lparr>hp := h3,
      events := events ?w1 @ [SockClose (cs_socket chat)]\<rparr>)" "transfer ?h2 (chat_ptrs chat) h3 []"
    using destroy_run [of "?w1\<lparr>hp := ?h2\<rparr>" chat] by auto
  have "transfer (hp w) (process_ptrs l @ chat_ptrs chat) ?h2 ([] @ chat_ptrs chat)"
    by (rule transfer_frame [OF t owned_apart [OF assms(2)]])
  then have "transfer (hp w) (process_ptrs l @ chat_ptrs chat) h3 []" using transfer_trans d3(2) by simp
  then show ?thesis
    using d1 r1 d3(1) assms(4,5) by (simp add: cleanup_rest_def andthenM_assoc del: frees_simps)
qed

lemma cleanup_run:
  assumes "chat_inv (hp w) chat" "owned (hp w) (process_ptrs l @ chat_ptrs chat)" "srv_self server = Addr (l + 9)"
    "g_config g = Some (config_of (l + 1) debug)" "g_chat_server g = Some chat" "g_server g = Some server"
    "srv_pool server = Some pl" "pool_reachable 4 debug pl" "pool_ready pl" "qsize (queue_of pl) \<le> 28"
  shows "(\<exists>r. cleanup down g w (Inr r)) \<and>
    (\<forall>st stopped w'. cleanup down g w (Inr ((st, stopped), w')) \<longrightarrow> st = 0 \<and>
      transfer (hp w) (process_ptrs l @ chat_ptrs chat) (hp w') [] \<and>
      (\<exists>server' pl'. stopped = Some server' \<and> srv_pool server' = Some pl' \<and>
         mset (calls pl') = mset (map (\<lambda>x. Item (Some x)) (tasks pl))))"
proof -
  let ?rest = "\<lambda>server w1. andthenM (server_destroy server) (\<lambda>_.
      andthenM (cleanup_rest g) (\<lambda>st. return (st, Some server))) w1"
  have ready: "main pl = Serving" "qcapacity (queue_of pl) = 128" "\<not> qlocked (queue_of pl)"
      "qsize (queue_of pl) + nat 4 \<le> 32"
    using assms(9,10) by (simp_all add: pool_ready_def queue_inv_def)
  note stop = server_stop_run [OF assms(7,8) ready(1) _ ready(2-4), of down w]
  have fin: "\<exists>w2. ?rest server' w1 = Inr ((0, Some server'), w2) \<and>
      transfer (hp w) (process_ptrs l @ chat_ptrs chat) (hp w2) []"
    if s: "server_stop down server w (Inr (server', w1))" for server' w1
  proof -
    have "hp w1 = hp w" "srv_self server' = srv_self server" using s by (auto elim: server_stop_Inr)
    then show ?thesis using cleanup_memory [of w1 chat l server' g debug] assms(1-5) by simp
  qed
  obtain server' w1 where s: "server_stop down server w (Inr (server', w1))" using stop by auto
  from fin [OF s] obtain w2 where "?rest server' w1 = Inr ((0, Some server'), w2)" by blast
  with cleanup.with_server [OF assms(6) s] have "cleanup down g w (Inr ((0, Some server'), w2))" by simp
  then have "\<exists>r. cleanup down g w (Inr r)" by (rule exI)
  moreover have "st = 0 \<and> transfer (hp w) (process_ptrs l @ chat_ptrs chat) (hp w') [] \<and>
      (\<exists>server' pl'. stopped = Some server' \<and> srv_pool server' = Some pl' \<and>
         mset (calls pl') = mset (map (\<lambda>x. Item (Some x)) (tasks pl)))"
    if c: "cleanup down g w (Inr ((st, stopped), w'))" for st stopped w'
    using c
  proof cases
    case without_server
    then show ?thesis using assms(6) by simp
  next
    case (with_server server0 r)
    then have "server0 = server" using assms(6) by simp
    with with_server obtain server' w1 where s: "server_stop down server w (Inr (server', w1))"
        "?rest server' w1 = Inr ((st, stopped), w')" by (cases r) auto
    then show ?thesis using fin [OF s(1)] stop by auto
  qed
  ultimately show ?thesis by blast
qed

subsection \<open>From the start to the end of the process\<close>

lemma transfer_swap: "transfer h ps h' (qs @ rs) \<Longrightarrow> transfer h ps h' (rs @ qs)"
  by (rule transfer_same_set) auto

lemma owned_swap: "owned h (qs @ rs) \<Longrightarrow> owned h (rs @ qs)"
  using owned_mset [of "qs @ rs" "rs @ qs" h] by simp

text \<open>The workers serve the queued clients in any order.\<close>

lemma served:
  assumes "started debug clients w w1 server pl args" "mset order = mset args" "\<forall>i. tm_ok (clock w i)"
    "\<forall>c \<in> set clients. valid_request (req c) (path c)"
  defines "l \<equiv> length (hp w)"
  shows "\<exists>w2 vs. serve req order w1 = Inr ((), w2) \<and>
    sock_events (events w2) = sock_events (events w1) @ vs \<and> visits path order vs \<and>
    owned (hp w2) ([NULL, Addr l] @ process_ptrs l) \<and>
    transfer (hp w) [] (hp w2) ([NULL, Addr l] @ process_ptrs l)"
proof -
  let ?ps = "[NULL, Addr l] @ process_ptrs l"
  have m: "args_ok (config_of (l + 1) debug) clients args" "\<forall>arg \<in> set args. arg_block (hp w1) arg"
      "owned (hp w1) (map ha_self args @ ?ps)" "transfer (hp w) [] (hp w1) (map ha_self args @ ?ps)"
      "clock w1 = clock w" "\<forall>n \<in> {l + 1 + 3, l + 1 + 5, l + 1 + 7}. str_at (hp w1) (Addr n) \<noteq> None"
    using assms(1) unfolding started_def Let_def l_def by blast+
  have same: "set order = set args" using mset_eq_setD [OF assms(2)] .
  have "mset (map ha_self args @ ?ps) = mset (map ha_self order @ ?ps)" using assms(2) by simp
  from m(3) [unfolded owned_mset [OF this]] have own: "owned (hp w1) (map ha_self order @ ?ps)" .
  have "valid_request (req (ha_client_sockfd arg)) (path (ha_client_sockfd arg))" if "arg \<in> set args" for arg
  proof -
    have "ha_client_sockfd arg \<in> set (map ha_client_sockfd args)" using that by simp
    also have "map ha_client_sockfd args = filter (\<lambda>c. c \<noteq> - 1) clients" using m(1) by (simp add: args_ok_def)
    finally show ?thesis using assms(4) by simp
  qed
  then have "\<forall>arg \<in> set order. arg_block (hp w1) arg \<and> ha_config arg = config_of (l + 1) debug \<and>
      valid_request (req (ha_client_sockfd arg)) (path (ha_client_sockfd arg))"
    using m(1,2) same by (simp add: args_ok_def)
  from serve_ok [OF this owned_left [OF own] _ m(6)] m(5) assms(3)
  obtain w2 vs where w2: "serve req order w1 = Inr ((), w2)" "transfer (hp w1) (map ha_self order) (hp w2) []"
      "sock_events (events w2) = sock_events (events w1) @ vs" "visits path order vs" by auto
  have own2: "owned (hp w2) ?ps" using owned_frame [OF w2(2) own] by (simp add: owned_def [of _ "[]"])
  have t1: "transfer (hp w) [] (hp w1) (map ha_self order @ ?ps)"
    by (rule transfer_same_set [OF m(4)]) (use same in auto)
  have t2: "transfer (hp w1) (map ha_self order @ ?ps) (hp w2) ([] @ ?ps)"
    by (rule transfer_frame [OF w2(2) owned_apart [OF own]])
  from transfer_trans [OF t1 t2] have "transfer (hp w) [] (hp w2) ?ps" by simp
  then show ?thesis using w2(1,3,4) own2 by blast
qed

text \<open>The chat goes on, and the process ends.\<close>

lemma chat_and_end:
  assumes "started debug clients w w1 server pl args" "length args \<le> 28" "config_ok config"
    "owned (hp w2) ([NULL, Addr (length (hp w))] @ process_ptrs (length (hp w)))"
    "transfer (hp w) [] (hp w2) ([NULL, Addr (length (hp w))] @ process_ptrs (length (hp w)))"
    "room_run config empty_room es = Some (r, out)"
    "g_config g = Some (config_of (length (hp w) + 1) debug)" "g_server g = Some server"
    "g_chat_server g = Some (init_chat_server (Addr (length (hp w))) chat_sock config)"
  shows "\<exists>s. run_events chat_exec es \<lparr>ch_srv = the (g_chat_server g), ch_world = w2, ch_threads = []\<rparr> = Inr s \<and>
    room_of s = r \<and> (\<forall>j. texts_to j (events (ch_world s)) = texts_to j (events w2) @ out j) \<and>
    (\<exists>r. cleanup down (g\<lparr>g_chat_server := Some (ch_srv s)\<rparr>) (ch_world s) (Inr r)) \<and>
    (\<forall>st stopped w3. cleanup down (g\<lparr>g_chat_server := Some (ch_srv s)\<rparr>) (ch_world s) (Inr ((st, stopped), w3)) \<longrightarrow>
       st = 0 \<and> transfer (hp w) [] (hp w3) [] \<and>
       (\<exists>server pl. stopped = Some server \<and> srv_pool server = Some pl \<and>
          mset (calls pl) = mset (map (\<lambda>x. Item (Some x)) args)))"
proof -
  let ?l = "length (hp w)" and ?chat = "init_chat_server (Addr (length (hp w))) chat_sock config"
  have m: "srv_self server = Addr (?l + 9)" "srv_pool server = Some pl" "pool_reachable 4 debug pl"
      "pool_ready pl" "tasks pl = args" "contents (queue_of pl) = map (\<lambda>x. Item (Some x)) args"
    using assms(1) unfolding started_def Let_def by blast+
  have size: "qsize (queue_of pl) \<le> 28" using length_contents [of "queue_of pl"] m(6) assms(2) by simp
  have chat: "chat_ptrs ?chat = [NULL, Addr ?l]" by (simp add: chat_ptrs_def init_chat_server_def)
  have "?l \<in> live (hp w2)" using ownedD [OF assms(4), of ?l] by simp
  from chat_session [OF assms(3) this assms(6), of chat_sock] obtain s where s:
      "run_events chat_exec es \<lparr>ch_srv = ?chat, ch_world = w2, ch_threads = []\<rparr> = Inr s" "room_of s = r"
      "\<forall>j. texts_to j (events (ch_world s)) = texts_to j (events w2) @ out j"
      "chat_inv (hp (ch_world s)) (ch_srv s)"
      "transfer (hp w2) [NULL, Addr ?l] (hp (ch_world s)) (chat_ptrs (ch_srv s))"
    unfolding chat by blast
  have "owned (hp (ch_world s)) (chat_ptrs (ch_srv s) @ process_ptrs ?l)"
    by (rule owned_frame [OF s(5) assms(4)]) (use s(4) in \<open>simp add: chat_inv_def\<close>)
  then have own: "owned (hp (ch_world s)) (process_ptrs ?l @ chat_ptrs (ch_srv s))" by (rule owned_swap)
  have "transfer (hp w2) ([NULL, Addr ?l] @ process_ptrs ?l) (hp (ch_world s)) (chat_ptrs (ch_srv s) @ process_ptrs ?l)"
    by (rule transfer_frame [OF s(5) owned_apart [OF assms(4)]])
  from transfer_swap [OF transfer_trans [OF assms(5) this]]
  have t: "transfer (hp w) [] (hp (ch_world s)) (process_ptrs ?l @ chat_ptrs (ch_srv s))" .
  note c = cleanup_run [OF s(4) own m(1), of "g\<lparr>g_chat_server := Some (ch_srv s)\<rparr>" debug pl down]
  show ?thesis
    using s(1-3) c m(2-5) size transfer_trans [OF t] assms(7-9) by (intro exI [of _ s]) auto
qed

end
