(* ===== verification/Spec2Isabelle.thy ===== *)
theory Spec2Isabelle
  imports MainProgram
begin

text \<open>
  A verification of the C program of this repository: a multithreaded HTTP server, a chat server
  in the same process (\<^verbatim>\<open>src/src\<close>) and a terminal client for the chat (\<^verbatim>\<open>chat-client/src\<close>).

  \<^bold>\<open>The program.\<close> \<^verbatim>\<open>main.c\<close> reads the chat configuration from the environment, starts the chat
  server on a thread of its own, registers three handlers and starts the HTTP server. Its main
  thread accepts connections and pushes one argument block per client into the queue of a thread
  pool; the workers call \<^verbatim>\<open>handle_client\<close>, which reads the request into a buffer, parses it in
  place, runs the chain of handlers on a response, prints and sends the response and frees
  everything. A signal leads to \<^verbatim>\<open>cleanup\<close>, which stops the pool, waits for the workers and
  releases both servers. The chat server has one thread per client, and a table of clients that
  is guarded by a mutex.

  \<^bold>\<open>Theories.\<close>
  \<^item> \<^verbatim>\<open>Prelude\<close>: faults of C as values, sequencing of fallible and stateful steps (\<open>andthen\<close>,
    \<open>andthenM\<close>), the width of \<^verbatim>\<open>size_t\<close>, facts on lists.
  \<^item> \<^verbatim>\<open>SafeQueue\<close> (\<^verbatim>\<open>queue.c\<close>): the ring buffer with its mutex. Its invariant, the refinement of
    a list queue (locale \<open>queue_contract\<close>), the loss of items when it is full, and the deadlock
    when it shrinks.
  \<^item> \<^verbatim>\<open>ThreadPool\<close> (\<^verbatim>\<open>pool.c\<close>): workers and owner as interleaved step relations over the queue,
    one step per call of a queue operation. Every task runs exactly once, the shutdown ends, and
    a backlog of 33 tasks blocks the pool for good.
  \<^item> \<^verbatim>\<open>CMemory\<close>: heap blocks, pointers, \<^verbatim>\<open>malloc\<close>, \<^verbatim>\<open>realloc\<close>, \<^verbatim>\<open>free\<close>, string functions and
    the observable output. \<open>transfer h ps h' qs\<close> says which blocks a piece of code gave up and
    took over; \<open>transfer h [] h' []\<close> means that it leaks nothing and changes nothing else.
  \<^item> \<^verbatim>\<open>Headers\<close>, \<^verbatim>\<open>Request\<close>, \<^verbatim>\<open>Response\<close> (files of the same names): the header multimap, the
    parser over the bytes of the buffer with \<^verbatim>\<open>strtok\<close> and its saved position, and the printer;
    round trips of parsing and printing, absence of leaks, and the inputs on which they crash.
  \<^item> \<^verbatim>\<open>Middleware\<close> (\<^verbatim>\<open>middleware.c\<close>, \<^verbatim>\<open>middlewares/\<close>): the list of handlers and every handler; the
    locale \<open>middleware_contract\<close> is what \<^verbatim>\<open>handle_client\<close> needs of a handler.
  \<^item> \<^verbatim>\<open>HttpServer\<close> (\<^verbatim>\<open>http-server.c\<close>): configuration, \<^verbatim>\<open>handle_client\<close> with its early returns,
    accepting, stopping and destroying; the locale \<open>middleware_chain\<close> proves the exchange for
    every chain of handlers that keep the contract.
  \<^item> \<^verbatim>\<open>ChatServer\<close> (\<^verbatim>\<open>chat-server.c\<close>): configuration from the environment, table of clients, client
    threads; the invariant of all reachable states, absence of leaks, the race in
    \<^verbatim>\<open>add_chat_client\<close>.
  \<^item> \<^verbatim>\<open>ChatRoom\<close>: the abstract chat room, the locale \<open>room_server\<close> for a server of such a room,
    and the proof that the chat server is one.
  \<^item> \<^verbatim>\<open>ChatClient\<close> (\<^verbatim>\<open>chat-client.c\<close>): both threads of the client.
  \<^item> \<^verbatim>\<open>MainProgram\<close> (\<^verbatim>\<open>main.c\<close>): the site that the registered handlers make up, \<^verbatim>\<open>main\<close> and
    \<^verbatim>\<open>cleanup\<close>.
  \<^item> This theory: the properties that span components, from the start of the process over its
    visitors and its chat to the end, and from one chat client over the server to another.

  \<^bold>\<open>State.\<close> A struct is a record whose pointer to itself is a field (\<open>rq_self\<close>, \<open>cs_self\<close> and so
  on), so that freeing it is visible; the heap, the output, the request counter and the clock are
  in the record \<open>world\<close>. Undefined behaviour, a deadlock, a wait that nobody ends and a failing
  exit are values of \<open>c_fault\<close>. Names of operations and fields are those of the source; a prefix
  (\<open>cfg_\<close>, \<open>rs_\<close>, \<open>cl_\<close>) keeps fields of different structs apart.

  \<^bold>\<open>Inputs.\<close> Results of \<^verbatim>\<open>socket\<close>, \<^verbatim>\<open>bind\<close>, \<^verbatim>\<open>listen\<close>, \<^verbatim>\<open>accept\<close>, \<^verbatim>\<open>recv\<close> and \<^verbatim>\<open>shutdown\<close>, the
  environment, the file system, the clock and the standard input are arguments. Where the code
  tests the result of an allocation, the outcome is an argument too; everywhere else allocation
  succeeds. Addresses are never reused, which makes every use of a freed block a fault.
  Sends succeed and are not split. \<^verbatim>\<open>size_t\<close> has 64 bits, \<^verbatim>\<open>in_port_t\<close> 16.

  \<^bold>\<open>Concurrency.\<close> Queue operations of the pool interleave freely; the two halves of an enqueue,
  the test of the size and the insertion, are two steps. A call of the worker function is one
  step, as handlers share nothing but the request counter. In the chat server a critical section
  of the mutex is one step, and so are the acceptance of a connection and the code of a client
  thread between two calls of \<^verbatim>\<open>recv\<close>; the read behind the unlock in \<^verbatim>\<open>add_chat_client\<close> is
  treated on its own (\<open>add_locked\<close>, \<open>add_result\<close>).

  \<^bold>\<open>Bounds.\<close> The queue starts with 128 slots and deadlocks when a dequeue leaves 32 items, so the
  theorems on a shutdown ask for at most 32 pending items, the stop signals of the four workers
  included; a burst of 28 visitors is what remains for \<open>process_life\<close>. Requests are shorter
  than the receive buffer of 1 MiB, and a response fits the same size, which the handlers of the
  site keep by far. The chat configuration is within \<open>config_ok\<close>: names of at least 29 bytes,
  the length of the longest default name, and a buffer size that does not wrap; the default
  configuration is. There is no fuel: endless loops (accepting, the chat client) are run over the
  list of their inputs or a number of rounds, and the other loops have termination proofs.

  \<^bold>\<open>Not modelled.\<close> The debug output of the pool and the blocks of the pool's own structs; the
  delivery of a signal between two statements of \<^verbatim>\<open>main\<close>; the byte order of \<^verbatim>\<open>htons\<close> and the
  parsing of addresses; the test program \<^verbatim>\<open>test/request.test.c\<close>; the second phase of the
  project (\<^verbatim>\<open>phase2\<close>, a separate TypeScript program); build, container and workflow files.
\<close>

section \<open>Properties of the whole program\<close>

text \<open>
  C5. One visit, from the start of the site to its clean-up: \<^verbatim>\<open>main\<close> builds the configuration
  and registers its handlers, a client sends any well-formed request with at least one header
  that fits the receive buffer, and the worker writes exactly one reply, the one of the site for
  the requested path at the time of the call, closes the socket and returns; after the
  configuration is released, exactly the blocks that were allocated before the start are
  allocated, unchanged.
\<close>

theorem site_session:
  assumes "\<forall>i. tm_ok (clock w i)" "request_ok_text m p v hs body"
    "length (render_request m p v hs body) < 1048576"
  shows "\<exists>config w1 w2 w3. main_config debug w = Inr (config, w1) \<and>
    handle_client True (Some (render_request m p v hs body)) stream_ok
      \<lparr>ha_self = Addr (length (hp w1)), ha_config = config, ha_client_sockfd = sock\<rparr>
      (w1\<lparr>hp := hp w1 @ [Some Struct]\<rparr>) = Inr ((), w2) \<and>
    sock_events (events w2) = sock_events (events w) @
      [SockWrite sock (site_reply p (clock w (ticks w + 1))), SockClose sock] \<and>
    release_config config w2 = Inr ((), w3) \<and> transfer (hp w) [] (hp w3) []"
  by (rule session_run [OF assms])

theorem site_session_witness:
  "\<exists>config w1 w2 w3. main_config False sample_world = Inr (config, w1) \<and>
    handle_client True (Some (render_request ''GET'' ''/'' ''HTTP/1.1'' [(''Host'', ''localhost'')] '''')) True
      \<lparr>ha_self = Addr (length (hp w1)), ha_config = config, ha_client_sockfd = 4\<rparr>
      (w1\<lparr>hp := hp w1 @ [Some Struct]\<rparr>) = Inr ((), w2) \<and>
    release_config config w2 = Inr ((), w3) \<and> transfer (hp sample_world) [] (hp w3) []"
proof -
  have clk: "\<forall>i. tm_ok (clock sample_world i)" by (simp add: sample_world_def tm_ok_def)
  have req: "request_ok_text ''GET'' ''/'' ''HTTP/1.1'' [(''Host'', ''localhost'')] ''''"
    by (simp add: request_ok_text_def req_ok_defs c_char_defs)
  have "length (render_request ''GET'' ''/'' ''HTTP/1.1'' [(''Host'', ''localhost'')] '''') < 1048576"
    by (simp add: render_request_def request_line_def field_line_def CRLF_def)
  from site_session [OF clk req this, of False True 4] show ?thesis by blast
qed


lemma default_env: "default_chat_config = parse_chat_config_from_env (\<lambda>_. None) default_chat_config"
  by (simp add: parse_chat_config_from_env_def env_size_def env_port_def)

lemma sample_clock: "\<forall>i. tm_ok (clock sample_world i)"
  by (simp add: sample_world_def tm_ok_def)

lemma sample_visit: "valid_request (render_request ''GET'' ''/'' ''HTTP/1.1'' [(''Host'', ''localhost'')] '''') ''/''"
proof -
  have "request_ok_text ''GET'' ''/'' ''HTTP/1.1'' [(''Host'', ''localhost'')] ''''"
    by (simp add: request_ok_text_def req_ok_defs c_char_defs)
  moreover have "length (render_request ''GET'' ''/'' ''HTTP/1.1'' [(''Host'', ''localhost'')] '''') < 1048576"
    by (simp add: render_request_def request_line_def field_line_def CRLF_def)
  ultimately show ?thesis unfolding valid_request_def by blast
qed


text \<open>
  C10. A line of chat from keyboard to screen: after any possible course of the chat with the
  default configuration, a member of the room types a line of at most 1022 bytes; the client
  sends it, the server hands every member the line behind the name of the sender, and the client
  of that member prints it, as long as name and line together stay below 1022 bytes. A longer
  text that one \<^verbatim>\<open>recv\<close> delivers makes the receiving client write behind its buffer.
\<close>

theorem chat_line_end_to_end:
  assumes "room_run default_chat_config empty_room es = Some (r, out)" "members r k = Some n"
    "members r j \<noteq> None" "line_ok 1022 l" "take 8 l \<noteq> RENAME"
  shows "\<exists>s s'. run_events chat_exec es (chat_start sock default_chat_config w) = Inr s \<and>
    client_loop 1 fd buffer (l @ LF # rest) v = Inr ((Some l, rest), v\<lparr>events := events v @ [SockWrite fd l]\<rparr>) \<and>
    chat_exec (Receive k (Some l)) s = Inr s' \<and> transcript s' j = transcript s j @ [n @ '': '' @ l] \<and>
    receive_message [Some (n @ '': '' @ l)] u =
      (if length n + length l < 1022 then Inr (None, u\<lparr>events := events u @ [Stdout (n @ '': '' @ l @ [LF])]\<rparr>)
       else Inl OutOfBounds)"
proof -
  have l: "l \<noteq> []" "NUL \<notin> set l" "length l \<le> message_buffer_size default_chat_config"
    using assms(4) by (simp_all add: line_ok_def default_chat_config_def)
  obtain s where s: "run_events chat_exec es (chat_start sock default_chat_config w) = Inr s"
      "chat_reachable sock default_chat_config w s \<and> config_ok default_chat_config" "room_of s = r"
    using chat.run_refines [of sock default_chat_config w "chat_start sock default_chat_config w" es r out]
      assms(1) chat_reachable.start default_config_ok by (auto simp: room_of_start)
  have "room_legal (room_of s) (Receive k (Some l))" using s(3) assms(2) by simp
  from chat.exec_ok [OF s(2) this] s(3) command_talk [OF l assms(5)] assms(2,3)
  obtain s' where s': "chat_exec (Receive k (Some l)) s = Inr s'"
      "transcript s' j = transcript s j @ [n @ '': '' @ l]" by auto
  have "members empty_room k = None" for k by (simp add: empty_room_def)
  then have "NUL \<notin> set n" using room_names [OF assms(1) _ assms(2)] by simp
  then have "takeWhile (\<lambda>c. c \<noteq> NUL) (n @ '': '' @ l) = n @ '': '' @ l"
    by (intro takeWhile_all) (use l(2) in \<open>auto simp: NUL_def\<close>)
  then have "receive_message [Some (n @ '': '' @ l)] u =
      (if length n + length l < 1022 then Inr (None, u\<lparr>events := events u @ [Stdout (n @ '': '' @ l @ [LF])]\<rparr>)
       else Inl OutOfBounds)"
    using receive_one [of "n @ '': '' @ l" u] by (simp del: takeWhile_append takeWhile_eq_all_conv)
  moreover have "client_loop 1 fd buffer (l @ LF # rest) v =
      Inr ((Some l, rest), v\<lparr>events := events v @ [SockWrite fd l]\<rparr>)"
    using loop_lines [of "[l]" 0 fd buffer rest v] assms(4) by (simp add: typed_def)
  ultimately show ?thesis using s(1) s' by blast
qed

theorem chat_line_end_to_end_witness:
  "\<exists>s s'. run_events chat_exec [Join 4, Join 5] (chat_start 3 default_chat_config sample_world) = Inr s \<and>
     chat_exec (Receive 4 (Some ''hi'')) s = Inr s' \<and> transcript s' 5 = transcript s 5 @ [''Client #000: hi''] \<and>
     receive_message [Some ''Client #000: hi''] sample_world =
       Inr (None, sample_world\<lparr>events := events sample_world @ [Stdout (''Client #000: hi'' @ [LF])]\<rparr>)"
proof -
  let ?r = "\<lparr>members = [4 \<mapsto> default_name 0, 5 \<mapsto> default_name 1], joined = 2\<rparr>"
  have run: "room_run default_chat_config empty_room [Join 4, Join 5] = Some (?r, \<lambda>_. [])"
    by (simp add: empty_room_def szt_def)
  have hi: "line_ok 1022 ''hi''" "take 8 ''hi'' \<noteq> RENAME"
    by (simp_all add: line_ok_def LF_def NUL_def RENAME_def)
  have name: "default_name 0 = ''Client #000''" by code_simp
  have "members ?r 4 = Some (default_name 0)" "members ?r 5 \<noteq> None" by simp_all
  from chat_line_end_to_end [OF run this hi, of 3 sample_world 3 None "''''" sample_world sample_world] name
  show ?thesis by auto
qed

text \<open>
  C20. The user name that a client announces: the client takes up to 48 bytes, the default server
  accepts up to 32. For a member of the room the server confirms such a name and everybody sees
  it from then on; a longer one is refused and the member keeps the old name.
\<close>

theorem client_name_at_server:
  assumes "room_run default_chat_config empty_room es = Some (r, out)" "members r k = Some n" "line_ok 48 name"
  shows "\<exists>s s'. run_events chat_exec es (chat_start sock default_chat_config w) = Inr s \<and>
    rename_user fd name v = Inr ((), v\<lparr>events := events v @ [SockWrite fd (RENAME @ name)]\<rparr>) \<and>
    chat_exec (Receive k (Some (RENAME @ name))) s = Inr s' \<and>
    members (room_of s') = (if length name \<le> 32 then (members r)(k \<mapsto> name) else members r) \<and>
    transcript s' k = transcript s k @
      [if length name \<le> 32 then ''Server: Name changed.'' else ''Server: Name too long.'']"
proof -
  have name: "LF \<notin> set name" "NUL \<notin> set name" "length name + 8 \<le> message_buffer_size default_chat_config"
      "length name \<le> 1068" using assms(3) by (simp_all add: line_ok_def default_chat_config_def)
  obtain s where s: "run_events chat_exec es (chat_start sock default_chat_config w) = Inr s"
      "chat_reachable sock default_chat_config w s \<and> config_ok default_chat_config" "room_of s = r"
    using chat.run_refines [of sock default_chat_config w "chat_start sock default_chat_config w" es r out]
      assms(1) chat_reachable.start default_config_ok by (auto simp: room_of_start)
  have "room_legal (room_of s) (Receive k (Some (RENAME @ name)))" using s(3) assms(2) by simp
  from chat.exec_ok [OF s(2) this] s(3) command_rename [OF name(1-3)]
  obtain s' where "chat_exec (Receive k (Some (RENAME @ name))) s = Inr s'"
      "members (room_of s') = (if length name \<le> 32 then (members r)(k \<mapsto> name) else members r)"
      "transcript s' k = transcript s k @
        [if length name \<le> 32 then ''Server: Name changed.'' else ''Server: Name too long.'']"
    by (auto simp: default_chat_config_def)
  then show ?thesis using s(1) rename_user_run [OF name(4), of fd v] by blast
qed

theorem client_name_at_server_witness:
  "\<exists>s s'. run_events chat_exec [Join 4] (chat_start 3 default_chat_config sample_world) = Inr s \<and>
     chat_exec (Receive 4 (Some (RENAME @ ''Ann''))) s = Inr s' \<and>
     members (room_of s') = [4 \<mapsto> ''Ann'']"
proof -
  have run: "room_run default_chat_config empty_room [Join 4] =
      Some (\<lparr>members = [4 \<mapsto> default_name 0], joined = 1\<rparr>, \<lambda>_. [])"
    by (simp add: empty_room_def szt_def)
  have "line_ok 48 ''Ann''" by (simp add: line_ok_def LF_def NUL_def)
  from client_name_at_server [OF run _ this, of 4 "default_name 0" 3 sample_world 3 sample_world]
  show ?thesis by auto
qed

end
